(* ===== verification/Prelude.thy ===== *)
theory Prelude
  imports Main "HOL-Library.Word"
begin

text \<open>
  Shared material of the development: Go's machine integers, Go's map reads, buffered
  channels and tickers, the collections of simplification rules that the component theories extend,
  generic facts on lists, and the two interfaces that do not belong to one component:
  quorum systems and labelled transition systems.
\<close>

section \<open>Rule collections\<close>

named_theorems node_simps \<open>effect of the node operations on single fields\<close>
named_theorems log_simps \<open>effect of the log operations on the entry list\<close>
named_theorems cluster_defs \<open>effects of the cluster events\<close>

section \<open>Go integers\<close>

text \<open>
  Go's \<open>int\<close> is a 64 bit two's complement integer on the platforms of the repository's
  images. The model uses \<open>int\<close> and writes the wrap-around out where a value that came
  over the wire is incremented.
\<close>

definition max_int :: int where
  "max_int = 2 ^ 63 - 1"

definition wrap64 :: "int \<Rightarrow> int" where
  "wrap64 x = (x + 2 ^ 63) mod 2 ^ 64 - 2 ^ 63"

lemma wrap64_id: "- (2 ^ 63) \<le> x \<Longrightarrow> x \<le> max_int \<Longrightarrow> wrap64 x = x"
  by (simp add: wrap64_def max_int_def)

lemma wrap64_range: "- (2 ^ 63) \<le> wrap64 x \<and> wrap64 x \<le> max_int"
proof -
  have "0 \<le> (x + 2 ^ 63) mod 2 ^ 64" and "(x + 2 ^ 63) mod 2 ^ 64 < (2 ^ 64 :: int)"
    by simp_all
  then show ?thesis by (simp add: wrap64_def max_int_def)
qed

lemma wrap64_overflow: "wrap64 (max_int + 1) = - (2 ^ 63)"
  by (simp add: wrap64_def max_int_def)

lemma wrap64_incr: "0 \<le> x \<Longrightarrow> x < max_int \<Longrightarrow> wrap64 (x + 1) = x + 1"
  by (rule wrap64_id) simp_all

section \<open>Go maps and channels\<close>

text \<open>Reading a missing key of a \<open>map[string]int\<close> gives the zero value.\<close>

definition map_get :: "('k \<rightharpoonup> int) \<Rightarrow> 'k \<Rightarrow> int" where
  "map_get m k = (case m k of None \<Rightarrow> 0 | Some v \<Rightarrow> v)"

lemma map_get_upd [simp]: "map_get (m(k \<mapsto> v)) k' = (if k' = k then v else map_get m k')"
  by (simp add: map_get_def)

lemma map_get_empty [simp]: "map_get Map.empty k = 0"
  by (simp add: map_get_def)

text \<open>
  A buffered channel is the list of its queued values. \<open>chan_try_send\<close> is a
  \<open>select\<close> with a send case and a \<open>default\<close> case: the flag says whether the value was queued.
\<close>

definition chan_try_send :: "nat \<Rightarrow> 'a list \<Rightarrow> 'a \<Rightarrow> bool \<times> 'a list" where
  "chan_try_send c q x = (if length q < c then (True, q @ [x]) else (False, q))"

lemma chan_try_send_bound: "length q \<le> c \<Longrightarrow> length (snd (chan_try_send c q x)) \<le> c"
  by (simp add: chan_try_send_def)

section \<open>Go tickers\<close>

text \<open>
  A ticker of period \<open>p\<close> that is due at \<open>t\<close> and received at \<open>c\<close>: ticks that find its channel full are lost, so the next one is
  the first after \<open>c\<close>.
\<close>

definition nextTick :: "int \<Rightarrow> int \<Rightarrow> int \<Rightarrow> int" where
  "nextTick p t c = t + p * ((c - t) div p + 1)"

lemma nextTick_bounds:
  assumes "0 < p" and "t \<le> c"
  shows "c < nextTick p t c \<and> nextTick p t c \<le> c + p"
proof -
  have "p * ((c - t) div p) + (c - t) mod p = c - t" by (rule mult_div_mod_eq)
  moreover have "0 \<le> (c - t) mod p" "(c - t) mod p < p" using assms by simp_all
  ultimately show ?thesis unfolding nextTick_def distrib_left by linarith
qed

section \<open>Lists\<close>

lemma take_Suc_eq_nth:
  assumes "take (Suc i) xs = take (Suc i) ys" and "i < length xs" and "i < length ys"
  shows "xs ! i = ys ! i"
proof -
  from assms have "take (Suc i) xs ! i = take (Suc i) ys ! i" by simp
  then show ?thesis by simp
qed

lemma take_eq_mono: "take m xs = take m ys \<Longrightarrow> k \<le> m \<Longrightarrow> take k xs = take k ys"
  by (metis min.absorb2 take_take min.commute)

lemma take_eq_nth: "take m xs = take m ys \<Longrightarrow> i < m \<Longrightarrow> i < length xs \<Longrightarrow> i < length ys \<Longrightarrow> xs ! i = ys ! i"
  by (metis nth_take)

lemma take_eq_length: "take m xs = take m ys \<Longrightarrow> m \<le> length xs \<Longrightarrow> m \<le> length ys"
  by (metis length_take min.absorb2 min_def nat_le_linear)

section \<open>Quorum systems\<close>

text \<open>
  What leader election and commitment rely on: two quorums of the cluster share a member.
\<close>

locale quorum_system =
  fixes quorum :: "'a set \<Rightarrow> bool"
  assumes quorum_meet: "quorum Q \<Longrightarrow> quorum R \<Longrightarrow> Q \<inter> R \<noteq> {}"
begin

lemma quorum_common: "quorum Q \<Longrightarrow> quorum R \<Longrightarrow> \<exists>q. q \<in> Q \<and> q \<in> R"
  using quorum_meet by blast

lemma quorum_nonempty: "quorum Q \<Longrightarrow> Q \<noteq> {}"
  using quorum_meet by blast

lemma quorum_clash:
  assumes "quorum Q" and "quorum R" and "\<And>q. q \<in> Q \<Longrightarrow> P q" and "\<And>q. q \<in> R \<Longrightarrow> \<not> P q"
  shows False
  using assms quorum_common by blast

end

section \<open>Labelled transition systems\<close>

text \<open>
  The counted reachability relation: \<open>reach n s\<close> holds when \<open>s\<close> is reached in \<open>n\<close> steps.
  The count bounds the terms of a run, which keeps Go's term counter from wrapping around.
\<close>

inductive lts_reach :: "('s \<Rightarrow> bool) \<Rightarrow> ('s \<Rightarrow> 'e \<Rightarrow> 's \<Rightarrow> bool) \<Rightarrow> nat \<Rightarrow> 's \<Rightarrow> bool"
  for start :: "'s \<Rightarrow> bool" and step :: "'s \<Rightarrow> 'e \<Rightarrow> 's \<Rightarrow> bool" where
  lts_start: "start s \<Longrightarrow> lts_reach start step 0 s"
| lts_step: "lts_reach start step n s \<Longrightarrow> step s e s' \<Longrightarrow> lts_reach start step (Suc n) s'"

locale counted_invariant =
  fixes start :: "'s \<Rightarrow> bool"
    and step :: "'s \<Rightarrow> 'e \<Rightarrow> 's \<Rightarrow> bool"
    and bound :: nat
    and inv :: "nat \<Rightarrow> 's \<Rightarrow> bool"
  assumes inv_start: "start s \<Longrightarrow> inv 0 s"
    and inv_step: "inv n s \<Longrightarrow> step s e s' \<Longrightarrow> n < bound \<Longrightarrow> inv (Suc n) s'"
begin

lemma reach_inv: "lts_reach start step n s \<Longrightarrow> n \<le> bound \<Longrightarrow> inv n s"
  by (induction rule: lts_reach.induct) (auto intro: inv_start inv_step)

end

section \<open>Interleavings\<close>

lemma append_shuffles_left: "zs \<in> shuffles xs ys \<Longrightarrow> as @ zs \<in> shuffles (as @ xs) ys"
  by (induction as) (simp_all add: Cons_in_shuffles_leftI)

lemma append_shuffles_right: "zs \<in> shuffles xs ys \<Longrightarrow> as @ zs \<in> shuffles xs (as @ ys)"
  by (induction as) (simp_all add: Cons_in_shuffles_rightI)

end
