(* ===== verification/Types.thy ===== *)
theory Types
  imports Prelude
begin

text \<open>
  The wire types of \<open>types/types.go\<close>, field by field. \<open>float64\<close> values are carried as
  their 64 bit patterns: the Go services store and forward them and never compute with them.
  A \<open>NodeState\<close> of Go is a string; the node only ever assigns the three constants, which are
  the constructors here, and \<open>NodeState_str\<close> gives their text as it appears in a status
  response.
\<close>

type_synonym float64 = "64 word"

datatype NodeState = Follower | Candidate | Leader

fun NodeState_str :: "NodeState \<Rightarrow> string" where
  "NodeState_str Follower = ''FOLLOWER''"
| "NodeState_str Candidate = ''CANDIDATE''"
| "NodeState_str Leader = ''LEADER''"

lemma NodeState_str_inj [simp]: "NodeState_str a = NodeState_str b \<longleftrightarrow> a = b"
  by (cases a; cases b) simp_all

record Point =
  pt_X :: float64
  pt_Y :: float64

record StrokeEvent =
  se_ID :: string
  se_Type :: string
  se_TargetID :: string
  se_Points :: "Point list"
  se_Color :: string
  se_Width :: float64
  se_UserID :: string

record LogEntry =
  le_Index :: int
  le_Term :: int
  le_Stroke :: StrokeEvent

record VoteRequest =
  vr_Term :: int
  vr_CandidateID :: string
  vr_LastLogIndex :: int
  vr_LastLogTerm :: int

record VoteResponse =
  vp_Term :: int
  vp_VoteGranted :: bool

record AppendEntriesRequest =
  ar_Term :: int
  ar_LeaderID :: string
  ar_PrevLogIndex :: int
  ar_PrevLogTerm :: int
  ar_Entries :: "LogEntry list"
  ar_LeaderCommit :: int

record AppendEntriesResponse =
  ap_Term :: int
  ap_Success :: bool
  ap_ConflictIndex :: int

record StatusResponse =
  sr_NodeID :: string
  sr_State :: string
  sr_Term :: int
  sr_LogLength :: int
  sr_CommitIndex :: int
  sr_LeaderID :: string

record CommitNotification =
  cn_Stroke :: StrokeEvent
  cn_Index :: int
  cn_Term :: int

text \<open>The zero value of a stroke: what an entry literal without a stroke holds.\<close>

definition zeroStroke :: StrokeEvent where
  "zeroStroke = \<lparr>se_ID = [], se_Type = [], se_TargetID = [], se_Points = [], se_Color = [],
                 se_Width = 0, se_UserID = []\<rparr>"

definition zeroEntry :: LogEntry where
  "zeroEntry = \<lparr>le_Index = 0, le_Term = 0, le_Stroke = zeroStroke\<rparr>"

text \<open>The ways the replica's code can panic.\<close>

datatype panic =
    IndexOutOfRange
  | TruncateCommitted
  | CloseOfClosedChannel

end
