(* ===== verification/RaftLog.thy ===== *)
theory RaftLog
  imports Types
begin

text \<open>
  The replicated log of \<open>replica/internal/raft/log.go\<close>. A \<open>Log\<close> is the list of its entries
  with the sentinel at position 0; every method of the Go type is a definition here. The mutex is
  not modelled: each method holds it from its first to its last line, so methods are atomic.

  The invariant \<open>log_ok\<close> (a sentinel first, every entry carrying its own position) is kept by
  every method that writes. The interface \<open>replicated_log\<close> states what the node relies on.
\<close>

section \<open>Data and operations\<close>

record Log =
  entries :: "LogEntry list"

definition NewLog :: Log where
  "NewLog = \<lparr>entries = [\<lparr>le_Index = 0, le_Term = 0, le_Stroke = zeroStroke\<rparr>]\<rparr>"

definition Append :: "Log \<Rightarrow> LogEntry \<Rightarrow> Log \<times> int" where
  "Append l entry =
     (let entry' = entry\<lparr>le_Index := int (length (entries l))\<rparr>
      in (l\<lparr>entries := entries l @ [entry']\<rparr>, le_Index entry'))"

text \<open>
  The loop body of \<open>AppendEntries\<close>. A panic leaves the log as the iterations before it made it,
  since the deferred unlock runs and the HTTP server recovers the handler's goroutine, so the
  result pairs the log with the panic, if there was one.
\<close>

definition put_entry :: "Log \<Rightarrow> LogEntry \<Rightarrow> Log" where
  "put_entry l entry =
     l\<lparr>entries := entries l @ [entry\<lparr>le_Index := int (length (entries l))\<rparr>]\<rparr>"

fun AppendEntries :: "Log \<Rightarrow> LogEntry list \<Rightarrow> int \<Rightarrow> Log \<times> panic option" where
  "AppendEntries l [] commitIndex = (l, None)"
| "AppendEntries l (entry # rest) commitIndex =
     (if le_Index entry < int (length (entries l)) then
        if le_Index entry < 0 then (l, Some IndexOutOfRange)
        else if le_Term (entries l ! nat (le_Index entry)) = le_Term entry then
          AppendEntries l rest commitIndex
        else if le_Index entry \<le> commitIndex then (l, Some TruncateCommitted)
        else
          AppendEntries
            (put_entry (l\<lparr>entries := take (nat (le_Index entry)) (entries l)\<rparr>) entry)
            rest commitIndex
      else AppendEntries (put_entry l entry) rest commitIndex)"

definition GetEntry :: "Log \<Rightarrow> int \<Rightarrow> LogEntry \<times> bool" where
  "GetEntry l index =
     (if index < 0 \<or> index \<ge> int (length (entries l)) then (zeroEntry, False)
      else (entries l ! nat index, True))"

definition GetFrom :: "Log \<Rightarrow> int \<Rightarrow> LogEntry list" where
  "GetFrom l fromIndex =
     (if fromIndex < 0 \<or> fromIndex \<ge> int (length (entries l)) then []
      else drop (nat fromIndex) (entries l))"

definition LastIndex :: "Log \<Rightarrow> int" where
  "LastIndex l = int (length (entries l)) - 1"

definition LastTerm :: "Log \<Rightarrow> int" where
  "LastTerm l = le_Term (entries l ! (length (entries l) - 1))"

definition Length :: "Log \<Rightarrow> int" where
  "Length l = int (length (entries l)) - 1"

definition Term :: "Log \<Rightarrow> int \<Rightarrow> int" where
  "Term l index =
     (if index < 0 \<or> index \<ge> int (length (entries l)) then 0
      else le_Term (entries l ! nat index))"

section \<open>The log invariant\<close>

definition sentinel :: LogEntry where
  "sentinel = \<lparr>le_Index = 0, le_Term = 0, le_Stroke = zeroStroke\<rparr>"

definition indexed :: "LogEntry list \<Rightarrow> bool" where
  "indexed es \<longleftrightarrow> (\<forall>i < length es. le_Index (es ! i) = int i)"

definition log_ok :: "Log \<Rightarrow> bool" where
  "log_ok l \<longleftrightarrow> entries l \<noteq> [] \<and> hd (entries l) = sentinel \<and> indexed (entries l)"

lemma indexed_nth: "indexed es \<Longrightarrow> i < length es \<Longrightarrow> le_Index (es ! i) = int i"
  by (simp add: indexed_def)

lemma indexed_take: "indexed es \<Longrightarrow> indexed (take n es)"
  by (simp add: indexed_def)

lemma indexed_snoc: "indexed es \<Longrightarrow> indexed (es @ [e\<lparr>le_Index := int (length es)\<rparr>])"
  by (auto simp: indexed_def nth_append less_Suc_eq)

lemma log_ok_nonempty: "log_ok l \<Longrightarrow> entries l \<noteq> []"
  by (simp add: log_ok_def)

lemma log_ok_length: "log_ok l \<Longrightarrow> 0 < length (entries l)"
  by (simp add: log_ok_def)

lemma log_ok_nth0: "log_ok l \<Longrightarrow> entries l ! 0 = sentinel"
  by (metis log_ok_def hd_conv_nth)

lemma NewLog_ok [simp]: "log_ok NewLog"
  by (simp add: log_ok_def NewLog_def sentinel_def indexed_def)

lemma entries_put_entry [log_simps]:
  "entries (put_entry l e) = entries l @ [e\<lparr>le_Index := int (length (entries l))\<rparr>]"
  by (simp add: put_entry_def)

lemma put_entry_ok: "log_ok l \<Longrightarrow> log_ok (put_entry l e)"
  by (auto simp: log_ok_def log_simps intro: indexed_snoc)

lemma entries_Append [log_simps]:
  "entries (fst (Append l e)) = entries l @ [e\<lparr>le_Index := int (length (entries l))\<rparr>]"
  by (simp add: Append_def)

lemma Append_index [log_simps]: "snd (Append l e) = int (length (entries l))"
  by (simp add: Append_def)

lemma Append_ok: "log_ok l \<Longrightarrow> log_ok (fst (Append l e))"
  by (auto simp: log_ok_def log_simps intro: indexed_snoc)

lemma truncate_ok:
  "log_ok l \<Longrightarrow> 0 < n \<Longrightarrow> log_ok (l\<lparr>entries := take n (entries l)\<rparr>)"
  by (auto simp: log_ok_def intro: indexed_take)

lemma AppendEntries_ok:
  assumes "log_ok l" and "0 \<le> c"
  shows "log_ok (fst (AppendEntries l es c))"
  using assms
proof (induction l es c rule: AppendEntries.induct)
  case (2 l entry rest c)
  have trunc: "log_ok (put_entry (l\<lparr>entries := take (nat (le_Index entry)) (entries l)\<rparr>) entry)"
    if "c < le_Index entry"
    using that "2.prems" by (intro put_entry_ok truncate_ok) simp_all
  from "2.prems" have put: "log_ok (put_entry l entry)" by (intro put_entry_ok)
  show ?case
    using "2.IH" "2.prems" trunc put by (simp add: not_le)
qed simp

section \<open>What replication promises: the result of AppendEntries\<close>

text \<open>
  The list a leader's entries turn a follower's log into: positions before \<open>k\<close> stay; if the
  entries agree with the log's terms the log stays, otherwise everything from the first
  disagreement on is replaced by the entries.
\<close>

fun merge_suffix :: "LogEntry list \<Rightarrow> LogEntry list \<Rightarrow> LogEntry list" where
  "merge_suffix old [] = old"
| "merge_suffix [] new = new"
| "merge_suffix (x # old) (y # new) =
     (if le_Term x = le_Term y then x # merge_suffix old new else y # new)"

text \<open>The first position at which the two lists disagree in their terms.\<close>

fun first_conflict :: "LogEntry list \<Rightarrow> LogEntry list \<Rightarrow> nat option" where
  "first_conflict (x # old) (y # new) =
     (if le_Term x = le_Term y then map_option Suc (first_conflict old new) else Some 0)"
| "first_conflict _ _ = None"

definition positioned :: "nat \<Rightarrow> LogEntry list \<Rightarrow> bool" where
  "positioned k es \<longleftrightarrow> (\<forall>j < length es. le_Index (es ! j) = int (k + j))"

lemma positioned_Cons:
  "positioned k (e # es) \<longleftrightarrow> le_Index e = int k \<and> positioned (Suc k) es"
proof
  assume p: "positioned k (e # es)"
  then have "le_Index ((e # es) ! 0) = int (k + 0)"
    unfolding positioned_def by blast
  moreover have "positioned (Suc k) es"
    unfolding positioned_def
  proof (intro allI impI)
    fix j assume "j < length es"
    with p have "le_Index ((e # es) ! Suc j) = int (k + Suc j)"
      unfolding positioned_def by (metis Suc_less_eq length_Cons)
    then show "le_Index (es ! j) = int (Suc k + j)" by simp
  qed
  ultimately show "le_Index e = int k \<and> positioned (Suc k) es" by simp
next
  assume "le_Index e = int k \<and> positioned (Suc k) es"
  then show "positioned k (e # es)"
    by (auto simp: positioned_def nth_Cons split: nat.split)
qed

lemma entry_own_index: "le_Index e = int k \<Longrightarrow> e\<lparr>le_Index := int k\<rparr> = e"
  by (cases e) simp

lemma merge_suffix_Nil [simp]: "merge_suffix [] new = new"
  by (cases new) simp_all

lemma first_conflict_Nil [simp]: "first_conflict [] new = None"
  by simp

text \<open>
  One iteration at position \<open>k\<close>, seen on the lists: the three branches of the loop body.
\<close>

lemma AppendEntries_append_at_end:
  assumes "positioned (length (entries l)) es"
  shows "AppendEntries l es c = (l\<lparr>entries := entries l @ es\<rparr>, None)"
  using assms
proof (induction es arbitrary: l)
  case (Cons e es)
  from Cons.prems have e: "le_Index e = int (length (entries l))"
    and es: "positioned (Suc (length (entries l))) es"
    by (simp_all add: positioned_Cons)
  then have "entries (put_entry l e) = entries l @ [e]"
    by (simp add: log_simps entry_own_index)
  with es Cons.IH [of "put_entry l e"] e show ?case
    by (simp add: put_entry_def)
qed simp

lemma AppendEntries_merge:
  assumes "positioned k es" and "k \<le> length (entries l)"
    and "\<And>j. first_conflict (drop k (entries l)) es = Some j \<Longrightarrow> c < int (k + j)"
  shows "AppendEntries l es c =
    (l\<lparr>entries := take k (entries l) @ merge_suffix (drop k (entries l)) es\<rparr>, None)"
  using assms
proof (induction es arbitrary: k)
  case (Cons e es)
  from Cons.prems(1) have e: "le_Index e = int k" and es: "positioned (Suc k) es"
    by (simp_all add: positioned_Cons)
  show ?case
  proof (cases "k < length (entries l)")
    case False
    with Cons.prems(1,2) show ?thesis
      by (subst AppendEntries_append_at_end) simp_all
  next
    case True
    then have split: "drop k (entries l) = entries l ! k # drop (Suc k) (entries l)"
      by (simp add: Cons_nth_drop_Suc)
    show ?thesis
    proof (cases "le_Term (entries l ! k) = le_Term e")
      case same: True
      have "AppendEntries l es c = (l\<lparr>entries := take (Suc k) (entries l)
              @ merge_suffix (drop (Suc k) (entries l)) es\<rparr>, None)"
        using es True Cons.prems(3) by (intro Cons.IH) (auto simp: split same)
      with True e same show ?thesis
        by (simp add: split take_Suc_conv_app_nth)
    next
      case differ: False
      with Cons.prems(3) [of 0] have "c < int k" by (simp add: split)
      moreover have "positioned (length (entries
          (put_entry (l\<lparr>entries := take k (entries l)\<rparr>) e))) es"
        using es True by (simp add: log_simps)
      ultimately show ?thesis
        using True e differ
        by (simp add: split AppendEntries_append_at_end log_simps entry_own_index min_def put_entry_def)
    qed
  qed
qed simp

lemma AppendEntries_panics:
  assumes "positioned k es" and "k \<le> length (entries l)"
    and "first_conflict (drop k (entries l)) es = Some j" and "int (k + j) \<le> c"
  shows "AppendEntries l es c = (l, Some TruncateCommitted)"
  using assms
proof (induction es arbitrary: k j)
  case (Cons e es)
  from Cons.prems(1) have e: "le_Index e = int k" and es: "positioned (Suc k) es"
    by (simp_all add: positioned_Cons)
  from Cons.prems(3) have k: "k < length (entries l)"
    by (metis drop_all first_conflict_Nil not_le_imp_less option.distinct(1))
  then have split: "drop k (entries l) = entries l ! k # drop (Suc k) (entries l)"
    by (simp add: Cons_nth_drop_Suc)
  show ?case
  proof (cases "le_Term (entries l ! k) = le_Term e")
    case True
    with Cons.prems(3) obtain j' where
      "first_conflict (drop (Suc k) (entries l)) es = Some j'" and "j = Suc j'"
      by (auto simp: split)
    with es k Cons.prems(4) have "AppendEntries l es c = (l, Some TruncateCommitted)"
      by (intro Cons.IH [of "Suc k" j']) simp_all
    with True e k show ?thesis by simp
  next
    case False
    with Cons.prems(3,4) e k show ?thesis by (simp add: split)
  qed
qed simp

section \<open>The interface the node relies on\<close>

text \<open>
  A log is seen through its list of entries. The laws say what each read returns and what an
  append adds; the lemmas of the interface are the read-after-write facts.
\<close>

locale replicated_log =
  fixes ents :: "'l \<Rightarrow> LogEntry list"
    and ok :: "'l \<Rightarrow> bool"
    and append_entry :: "'l \<Rightarrow> LogEntry \<Rightarrow> 'l \<times> int"
    and get_entry :: "'l \<Rightarrow> int \<Rightarrow> LogEntry \<times> bool"
    and get_from :: "'l \<Rightarrow> int \<Rightarrow> LogEntry list"
    and last_index :: "'l \<Rightarrow> int"
    and last_term :: "'l \<Rightarrow> int"
    and term_at :: "'l \<Rightarrow> int \<Rightarrow> int"
  assumes ents_nonempty: "ok l \<Longrightarrow> ents l \<noteq> []"
    and ok_append: "ok l \<Longrightarrow> ok (fst (append_entry l e))"
    and ents_append:
      "ents (fst (append_entry l e)) = ents l @ [e\<lparr>le_Index := int (length (ents l))\<rparr>]"
    and append_index: "snd (append_entry l e) = int (length (ents l))"
    and last_index_eq: "last_index l = int (length (ents l)) - 1"
    and last_term_eq: "ok l \<Longrightarrow> last_term l = le_Term (last (ents l))"
    and get_entry_in: "0 \<le> i \<Longrightarrow> i \<le> last_index l \<Longrightarrow> get_entry l i = (ents l ! nat i, True)"
    and get_entry_out: "i < 0 \<or> last_index l < i \<Longrightarrow> \<not> snd (get_entry l i)"
    and get_from_eq: "0 \<le> i \<Longrightarrow> get_from l i = drop (nat i) (ents l)"
    and term_at_in: "0 \<le> i \<Longrightarrow> i \<le> last_index l \<Longrightarrow> term_at l i = le_Term (ents l ! nat i)"
    and term_at_out: "i < 0 \<or> last_index l < i \<Longrightarrow> term_at l i = 0"
begin

lemma append_last: "last_index (fst (append_entry l e)) = snd (append_entry l e)"
  by (simp add: last_index_eq ents_append append_index)

lemma append_read_new:
  "get_entry (fst (append_entry l e)) (snd (append_entry l e)) =
     (e\<lparr>le_Index := snd (append_entry l e)\<rparr>, True)"
  by (subst get_entry_in) (simp_all add: last_index_eq ents_append append_index)

lemma append_read_old:
  "0 \<le> i \<Longrightarrow> i \<le> last_index l \<Longrightarrow> get_entry (fst (append_entry l e)) i = get_entry l i"
  by (simp add: get_entry_in ents_append last_index_eq nth_append nat_less_iff)

lemma append_last_term: "ok l \<Longrightarrow> last_term (fst (append_entry l e)) = le_Term e"
  by (simp add: last_term_eq ok_append ents_append)

lemma term_at_last: "ok l \<Longrightarrow> term_at l (last_index l) = last_term l"
  using ents_nonempty [of l]
  by (simp add: term_at_in last_index_eq last_term_eq last_conv_nth nat_diff_distrib Suc_leI)

lemma request_splits_log:
  "1 \<le> i \<Longrightarrow> take (nat (i - 1) + 1) (ents l) @ get_from l i = ents l"
  by (simp add: get_from_eq Suc_nat_eq_nat_zadd1)

lemma suffix_last:
  "0 \<le> i \<Longrightarrow> i \<le> last_index l \<Longrightarrow> last (get_from l i) = last (ents l)"
  by (simp add: get_from_eq last_index_eq nat_less_iff)

lemma suffix_empty_iff: "0 \<le> i \<Longrightarrow> get_from l i = [] \<longleftrightarrow> last_index l < i"
  by (auto simp: get_from_eq last_index_eq)

end

interpretation rl: replicated_log entries log_ok Append GetEntry GetFrom LastIndex LastTerm Term
proof
  fix l :: Log and e :: LogEntry and i :: int
  show "log_ok l \<Longrightarrow> entries l \<noteq> []" by (rule log_ok_nonempty)
  show "log_ok l \<Longrightarrow> log_ok (fst (Append l e))" by (rule Append_ok)
  show "log_ok l \<Longrightarrow> LastTerm l = le_Term (last (entries l))"
    by (simp add: LastTerm_def last_conv_nth log_ok_def)
qed (auto simp: log_simps LastIndex_def GetEntry_def GetFrom_def Term_def)

section \<open>Properties\<close>

text \<open>
  Appending and reading back. \<open>Append\<close> keeps the log invariant, returns the next position, the new
  entry is read back there with that position as its index, and every older entry is unchanged.
\<close>

lemma append_read_back:
  assumes "log_ok l" and "Append l e = (l', i)"
  shows "log_ok l' \<and> i = LastIndex l + 1 \<and> LastIndex l' = i \<and> LastTerm l' = le_Term e \<and>
         GetEntry l' i = (e\<lparr>le_Index := i\<rparr>, True) \<and>
         (\<forall>j. j \<le> LastIndex l \<longrightarrow> GetEntry l' j = GetEntry l j)"
proof -
  have l': "l' = fst (Append l e)" and i: "i = snd (Append l e)" using assms(2) by simp_all
  have "GetEntry l' j = GetEntry l j" if "j \<le> LastIndex l" for j
  proof (cases "0 \<le> j")
    case True
    then show ?thesis unfolding l' using rl.append_read_old that by blast
  qed (simp add: GetEntry_def)
  then show ?thesis
    using rl.append_last [of l e] rl.append_read_new [of l e] rl.append_last_term [OF assms(1), of e]
      Append_ok [OF assms(1), of e]
    by (simp add: l' i log_simps LastIndex_def)
qed

text \<open>
  C11. \<open>AppendEntries\<close> against its specification. For entries that continue the log at position \<open>k\<close>, the
  loop either panics, leaving the log as it was, exactly when the first disagreement in terms lies
  at or below the commit index, or it replaces everything from the first disagreement on and appends
  what is new, keeping whatever follows the entries when there is no disagreement.
\<close>

theorem append_entries_outcome:
  assumes "positioned k es" and "k \<le> length (entries l)"
  shows "AppendEntries l es c =
    (if \<exists>j. first_conflict (drop k (entries l)) es = Some j \<and> int (k + j) \<le> c
     then (l, Some TruncateCommitted)
     else (l\<lparr>entries := take k (entries l) @ merge_suffix (drop k (entries l)) es\<rparr>, None))"
proof (cases "\<exists>j. first_conflict (drop k (entries l)) es = Some j \<and> int (k + j) \<le> c")
  case True
  then show ?thesis using AppendEntries_panics [OF assms] by auto
next
  case False
  then have "AppendEntries l es c =
      (l\<lparr>entries := take k (entries l) @ merge_suffix (drop k (entries l)) es\<rparr>, None)"
    by (intro AppendEntries_merge [OF assms]) (meson not_le)
  then show ?thesis using False by simp
qed

theorem append_entries_outcome_witness:
  "AppendEntries NewLog [zeroEntry\<lparr>le_Index := 1, le_Term := 1\<rparr>] 0 =
     (NewLog\<lparr>entries := [sentinel, zeroEntry\<lparr>le_Index := 1, le_Term := 1\<rparr>]\<rparr>, None)"
proof -
  have "positioned 1 [zeroEntry\<lparr>le_Index := 1, le_Term := 1\<rparr>]" by (simp add: positioned_def)
  from append_entries_outcome [OF this, of NewLog 0] show ?thesis by (simp add: NewLog_def sentinel_def)
qed

end
