(* ===== verification/RaftNode.thy ===== *)
theory RaftNode
  imports RaftLog
begin

text \<open>
  The node of \<open>replica/internal/raft/node.go\<close>: its configuration, its state, the role
  transitions and the applier that hands committed entries to the commit channel. The node's
  mutex makes each operation below atomic; an operation of the source that releases the mutex
  in the middle is split at that point. The logger, the RPC client and the context are not part
  of the state. A buffered channel is the list of its queued values, the closed \<open>stopCh\<close> a flag.
\<close>

section \<open>Configuration\<close>

record Config =
  NodeID :: string
  PeerAddrs :: "string list"
  GatewayAddr :: string

definition Validate :: "Config \<Rightarrow> string option" where
  "Validate c =
     (if NodeID c = [] then Some ''NODE_ID is required''
      else if length (PeerAddrs c) = 0 then Some ''PEER_ADDRS is required''
      else if GatewayAddr c = [] then Some ''GATEWAY_ADDR is required''
      else None)"

section \<open>State\<close>

record Node =
  nid :: string
  currentTerm :: int
  votedFor :: string
  nlog :: Log
  nstate :: NodeState
  commitIndex :: int
  lastApplied :: int
  leaderID :: string
  nextIndex :: "string \<rightharpoonup> int"
  matchIndex :: "string \<rightharpoonup> int"
  peers :: "string list"
  gatewayAddr :: string
  resetElectionCh :: "unit list"
  newEntryCh :: "unit list"
  commitCh :: "LogEntry list"
  stopped :: bool

definition commitChCap :: nat where
  "commitChCap = 256"

definition NewNode :: "Config \<Rightarrow> Node" where
  "NewNode cfg =
     \<lparr>nid = NodeID cfg, currentTerm = 0, votedFor = [], nlog = NewLog,
      nstate = Follower, commitIndex = 0, lastApplied = 0, leaderID = [],
      nextIndex = Map.empty, matchIndex = Map.empty,
      peers = PeerAddrs cfg, gatewayAddr = GatewayAddr cfg,
      resetElectionCh = [], newEntryCh = [], commitCh = [], stopped = False\<rparr>"

definition Stop :: "Node \<Rightarrow> Node \<times> panic option" where
  "Stop n = (if stopped n then (n, Some CloseOfClosedChannel) else (n\<lparr>stopped := True\<rparr>, None))"

definition Status :: "Node \<Rightarrow> StatusResponse" where
  "Status n =
     \<lparr>sr_NodeID = nid n, sr_State = NodeState_str (nstate n), sr_Term = currentTerm n,
      sr_LogLength = Length (nlog n), sr_CommitIndex = commitIndex n, sr_LeaderID = leaderID n\<rparr>"

definition ID :: "Node \<Rightarrow> string" where
  "ID n = nid n"

definition IsLeader :: "Node \<Rightarrow> bool" where
  "IsLeader n \<longleftrightarrow> nstate n = Leader"

section \<open>Role transitions\<close>

definition becomeFollower :: "Node \<Rightarrow> int \<Rightarrow> string \<Rightarrow> Node" where
  "becomeFollower n trm leader =
     n\<lparr>nstate := Follower, currentTerm := trm, votedFor := [], leaderID := leader\<rparr>"

definition becomeCandidate :: "Node \<Rightarrow> Node" where
  "becomeCandidate n =
     n\<lparr>nstate := Candidate, currentTerm := wrap64 (currentTerm n + 1), votedFor := nid n,
       leaderID := []\<rparr>"

definition becomeLeader :: "Node \<Rightarrow> Node" where
  "becomeLeader n =
     (let n' = n\<lparr>nstate := Leader, leaderID := nid n\<rparr>;
          lastLogIndex = LastIndex (nlog n')
      in fold (\<lambda>peer m. m\<lparr>nextIndex := (nextIndex m)(peer \<mapsto> lastLogIndex + 1),
                         matchIndex := (matchIndex m)(peer \<mapsto> 0)\<rparr>)
              (peers n') n')"

definition stepDown :: "Node \<Rightarrow> int \<Rightarrow> Node \<times> bool" where
  "stepDown n remoteTerm =
     (if remoteTerm > currentTerm n then (becomeFollower n remoteTerm [], True) else (n, False))"

definition resetElectionTimer :: "Node \<Rightarrow> Node" where
  "resetElectionTimer n =
     n\<lparr>resetElectionCh := snd (chan_try_send 1 (resetElectionCh n) ())\<rparr>"

definition signalNewEntry :: "Node \<Rightarrow> Node" where
  "signalNewEntry n = n\<lparr>newEntryCh := snd (chan_try_send 1 (newEntryCh n) ())\<rparr>"

section \<open>The commit applier\<close>

text \<open>
  The goroutine \<open>runCommitApplier\<close>, action by action. It waits for its ticker; \<open>applyCommitted\<close> then reads the commit index and
  \<open>lastApplied\<close> in one locked section, and its loop, at index \<open>i\<close> with the commit index \<open>ci\<close> it has read, gets the entry from the log, sends it to
  \<open>commitCh\<close> and sets \<open>lastApplied\<close> in a locked section of its own. Between any two of these actions the handlers and the commit notifier may run.
  The sending is up to three channel operations: the non-blocking send; when the channel is full, receiving the oldest entry,
  which blocks while there is none; and sending, which blocks while there is no room.
\<close>

datatype send_phase = TrySend LogEntry | DropOldest LogEntry | SendNow LogEntry | Sent

definition applier_send :: "LogEntry list \<times> send_phase \<Rightarrow> (LogEntry list \<times> send_phase) option" where
  "applier_send qp =
     (case qp of
        (q, TrySend e) \<Rightarrow> (case chan_try_send commitChCap q e of (True, q') \<Rightarrow> Some (q', Sent) | (False, _) \<Rightarrow> Some (q, DropOldest e))
      | (q, DropOldest e) \<Rightarrow> (case q of [] \<Rightarrow> None | _ # q' \<Rightarrow> Some (q', SendNow e))
      | (q, SendNow e) \<Rightarrow> if length q < commitChCap then Some (q @ [e], Sent) else None
      | (q, Sent) \<Rightarrow> None)"

datatype applier = AwaitTick | AtLoop int int | AtSend int int send_phase

definition applyCommitted_begin :: "Node \<Rightarrow> applier" where
  "applyCommitted_begin n = AtLoop (lastApplied n + 1) (commitIndex n)"

text \<open>\<open>None\<close>: the action blocks, or no round is under way.\<close>

definition applyCommitted_step :: "Node \<Rightarrow> applier \<Rightarrow> (Node \<times> applier) option" where
  "applyCommitted_step n ap =
     (case ap of
        AwaitTick \<Rightarrow> None
      | AtLoop i ci \<Rightarrow>
          if i \<le> ci then
            (case GetEntry (nlog n) i of
               (entry, ok) \<Rightarrow> if \<not> ok then Some (n, AwaitTick) else Some (n, AtSend i ci (TrySend entry)))
          else Some (n, AwaitTick)
      | AtSend i ci ph \<Rightarrow>
          if ph = Sent then Some (n\<lparr>lastApplied := i\<rparr>, AtLoop (i + 1) ci)
          else
            (case applier_send (commitCh n, ph) of
               None \<Rightarrow> None
             | Some (q, ph') \<Rightarrow> Some (n\<lparr>commitCh := q\<rparr>, AtSend i ci ph')))"

text \<open>The next action of the goroutine, a tick of its ticker included.\<close>

definition runCommitApplier_step :: "Node \<Rightarrow> applier \<Rightarrow> (Node \<times> applier) option" where
  "runCommitApplier_step n ap =
     (case ap of AwaitTick \<Rightarrow> Some (n, applyCommitted_begin n) | _ \<Rightarrow> applyCommitted_step n ap)"

section \<open>Effects of the operations\<close>

lemma becomeFollower_simps [node_simps]:
  "nstate (becomeFollower n t l) = Follower" "currentTerm (becomeFollower n t l) = t"
  "votedFor (becomeFollower n t l) = []" "leaderID (becomeFollower n t l) = l"
  "nid (becomeFollower n t l) = nid n" "nlog (becomeFollower n t l) = nlog n"
  "commitIndex (becomeFollower n t l) = commitIndex n"
  "lastApplied (becomeFollower n t l) = lastApplied n"
  "nextIndex (becomeFollower n t l) = nextIndex n"
  "matchIndex (becomeFollower n t l) = matchIndex n"
  "peers (becomeFollower n t l) = peers n" "commitCh (becomeFollower n t l) = commitCh n"
  "resetElectionCh (becomeFollower n t l) = resetElectionCh n"
  "newEntryCh (becomeFollower n t l) = newEntryCh n"
  by (simp_all add: becomeFollower_def)

lemma becomeCandidate_simps [node_simps]:
  "nstate (becomeCandidate n) = Candidate"
  "currentTerm (becomeCandidate n) = wrap64 (currentTerm n + 1)"
  "votedFor (becomeCandidate n) = nid n" "leaderID (becomeCandidate n) = []"
  "nid (becomeCandidate n) = nid n" "nlog (becomeCandidate n) = nlog n"
  "commitIndex (becomeCandidate n) = commitIndex n"
  "lastApplied (becomeCandidate n) = lastApplied n"
  "nextIndex (becomeCandidate n) = nextIndex n"
  "matchIndex (becomeCandidate n) = matchIndex n"
  "peers (becomeCandidate n) = peers n" "commitCh (becomeCandidate n) = commitCh n"
  "resetElectionCh (becomeCandidate n) = resetElectionCh n"
  "newEntryCh (becomeCandidate n) = newEntryCh n"
  by (simp_all add: becomeCandidate_def)

lemma leader_maps_fold:
  "fold (\<lambda>peer m. m\<lparr>nextIndex := (nextIndex m)(peer \<mapsto> x), matchIndex := (matchIndex m)(peer \<mapsto> 0)\<rparr>) ps n
   = n\<lparr>nextIndex := (\<lambda>p. if p \<in> set ps then Some x else nextIndex n p),
       matchIndex := (\<lambda>p. if p \<in> set ps then Some 0 else matchIndex n p)\<rparr>"
  by (induction ps arbitrary: n) (auto simp: fun_eq_iff)

lemma becomeLeader_eq:
  "becomeLeader n = n\<lparr>nstate := Leader, leaderID := nid n,
     nextIndex := (\<lambda>p. if p \<in> set (peers n) then Some (LastIndex (nlog n) + 1) else nextIndex n p),
     matchIndex := (\<lambda>p. if p \<in> set (peers n) then Some 0 else matchIndex n p)\<rparr>"
  by (simp add: becomeLeader_def leader_maps_fold Let_def cong: if_cong)

lemma becomeLeader_simps [node_simps]:
  "nstate (becomeLeader n) = Leader" "currentTerm (becomeLeader n) = currentTerm n"
  "votedFor (becomeLeader n) = votedFor n" "leaderID (becomeLeader n) = nid n"
  "nid (becomeLeader n) = nid n" "nlog (becomeLeader n) = nlog n"
  "commitIndex (becomeLeader n) = commitIndex n"
  "lastApplied (becomeLeader n) = lastApplied n"
  "peers (becomeLeader n) = peers n" "commitCh (becomeLeader n) = commitCh n"
  "p \<in> set (peers n) \<Longrightarrow> nextIndex (becomeLeader n) p = Some (LastIndex (nlog n) + 1)"
  "p \<in> set (peers n) \<Longrightarrow> matchIndex (becomeLeader n) p = Some 0"
  by (simp_all add: becomeLeader_eq)

lemma resetElectionTimer_simps [node_simps]:
  "nstate (resetElectionTimer n) = nstate n" "currentTerm (resetElectionTimer n) = currentTerm n"
  "votedFor (resetElectionTimer n) = votedFor n" "leaderID (resetElectionTimer n) = leaderID n"
  "nid (resetElectionTimer n) = nid n" "nlog (resetElectionTimer n) = nlog n"
  "commitIndex (resetElectionTimer n) = commitIndex n"
  "lastApplied (resetElectionTimer n) = lastApplied n"
  "nextIndex (resetElectionTimer n) = nextIndex n"
  "matchIndex (resetElectionTimer n) = matchIndex n"
  "peers (resetElectionTimer n) = peers n" "commitCh (resetElectionTimer n) = commitCh n"
  "resetElectionCh (resetElectionTimer n) \<noteq> []"
  by (simp_all add: resetElectionTimer_def chan_try_send_def)

lemma signalNewEntry_simps [node_simps]:
  "nstate (signalNewEntry n) = nstate n" "currentTerm (signalNewEntry n) = currentTerm n"
  "votedFor (signalNewEntry n) = votedFor n" "leaderID (signalNewEntry n) = leaderID n"
  "nid (signalNewEntry n) = nid n" "nlog (signalNewEntry n) = nlog n"
  "commitIndex (signalNewEntry n) = commitIndex n"
  "lastApplied (signalNewEntry n) = lastApplied n"
  "nextIndex (signalNewEntry n) = nextIndex n"
  "matchIndex (signalNewEntry n) = matchIndex n"
  "peers (signalNewEntry n) = peers n" "commitCh (signalNewEntry n) = commitCh n"
  "newEntryCh (signalNewEntry n) \<noteq> []"
  by (simp_all add: signalNewEntry_def chan_try_send_def)

lemma stepDown_simps [node_simps]:
  "nid (fst (stepDown n t)) = nid n" "nlog (fst (stepDown n t)) = nlog n"
  "commitIndex (fst (stepDown n t)) = commitIndex n"
  "lastApplied (fst (stepDown n t)) = lastApplied n"
  "nextIndex (fst (stepDown n t)) = nextIndex n"
  "matchIndex (fst (stepDown n t)) = matchIndex n"
  "peers (fst (stepDown n t)) = peers n" "commitCh (fst (stepDown n t)) = commitCh n"
  "currentTerm (fst (stepDown n t)) = max (currentTerm n) t"
  "nstate (fst (stepDown n t)) = (if currentTerm n < t then Follower else nstate n)"
  "votedFor (fst (stepDown n t)) = (if currentTerm n < t then [] else votedFor n)"
  "snd (stepDown n t) \<longleftrightarrow> currentTerm n < t"
  by (simp_all add: stepDown_def becomeFollower_def)

section \<open>The applier\<close>

text \<open>The applier changes nothing but the channel and \<open>lastApplied\<close>.\<close>

lemma applyCommitted_step_frame:
  "applyCommitted_step n ap = Some (n', ap') \<Longrightarrow> \<exists>q la. n' = n\<lparr>commitCh := q, lastApplied := la\<rparr>"
  by (cases n) (auto simp: applyCommitted_step_def split: applier.splits if_splits prod.splits option.splits)

lemma runCommitApplier_step_frame:
  assumes "runCommitApplier_step n ap = Some (n', ap')"
  obtains q la where "n' = n\<lparr>commitCh := q, lastApplied := la\<rparr>"
proof (cases ap)
  case AwaitTick
  with assms have "n' = n\<lparr>commitCh := commitCh n, lastApplied := lastApplied n\<rparr>" by (simp add: runCommitApplier_step_def)
  then show thesis by (rule that)
qed (use assms that in \<open>auto simp: runCommitApplier_step_def dest!: applyCommitted_step_frame\<close>)

text \<open>A send that finds the channel full drops the oldest entry; in any case the channel keeps to its capacity.\<close>

lemma applier_send_cases:
  assumes "applier_send (q, ph) = Some (q', ph')"
  obtains (sent) e where "ph = TrySend e \<or> ph = SendNow e" and "length q < commitChCap" and "q' = q @ [e]" and "ph' = Sent"
  | (full) e where "ph = TrySend e" and "commitChCap \<le> length q" and "q' = q" and "ph' = DropOldest e"
  | (dropped) e x where "ph = DropOldest e" and "q = x # q'" and "ph' = SendNow e"
  using assms by (cases ph) (auto simp: applier_send_def chan_try_send_def split: if_splits list.splits)

end
