(* ===== verification/Election.thy ===== *)
theory Election
  imports RaftNode
begin

text \<open>
  Leader election, \<open>replica/internal/raft/election.go\<close>. \<open>startElection\<close> releases the node's mutex
  while the vote requests are under way, so it is modelled in the three parts the mutex
  delimits: the transition to candidate, the treatment of one peer's answer, and the decision
  at the end. \<open>startElection\<close> itself composes the parts for answers that arrive in the order of
  the peers, with nothing else happening to the node; the cluster model interleaves the parts
  with everything else. The transport is the parameter \<open>rpc\<close>: \<open>None\<close> is an error or a timeout.
\<close>

section \<open>Timing\<close>

text \<open>Durations are in nanoseconds, as in Go's \<open>time\<close> package.\<close>

definition Millisecond :: int where
  "Millisecond = 1000000"

definition ElectionTimeoutMin :: int where
  "ElectionTimeoutMin = 500 * Millisecond"

definition ElectionTimeoutMax :: int where
  "ElectionTimeoutMax = 800 * Millisecond"

definition HeartbeatInterval :: int where
  "HeartbeatInterval = 150 * Millisecond"

definition RPCTimeout :: int where
  "RPCTimeout = 100 * Millisecond"

text \<open>\<open>int64N k\<close> stands for one draw of \<open>rand.Int64N\<close>, a number from \<open>0\<close> to \<open>k - 1\<close>.\<close>

definition randomElectionTimeout :: "(int \<Rightarrow> int) \<Rightarrow> int" where
  "randomElectionTimeout int64N =
     (let spread = ElectionTimeoutMax - ElectionTimeoutMin
      in ElectionTimeoutMin + int64N spread)"

section \<open>Candidate side\<close>

definition startElection_begin :: "Node \<Rightarrow> Node \<times> VoteRequest" where
  "startElection_begin n =
     (let n' = becomeCandidate n
      in (n', \<lparr>vr_Term = currentTerm n', vr_CandidateID = nid n',
               vr_LastLogIndex = LastIndex (nlog n'), vr_LastLogTerm = LastTerm (nlog n')\<rparr>))"

text \<open>The timer branch of \<open>runElectionTimer\<close>: a leader only resets its timer.\<close>

definition electionTimerFired :: "Node \<Rightarrow> (Node \<times> VoteRequest) option" where
  "electionTimerFired n =
     (if nstate n = Leader then None else Some (startElection_begin n))"

text \<open>The majority of a cluster of \<open>tot\<close> nodes, as \<open>startElection\<close> and \<open>advanceCommitIndex\<close> compute it.\<close>

definition majorityOf :: "int \<Rightarrow> int" where
  "majorityOf tot = tot div 2 + 1"

text \<open>With \<open>m\<close> peers, a node and \<open>k\<close> of its peers reach the majority exactly when they are more than half.\<close>

lemma majority_count: "majorityOf (int m + 1) \<le> 1 + int k \<longleftrightarrow> m + 1 < 2 * (1 + k)"
  unfolding majorityOf_def by presburger

definition requestVoteFromPeer ::
    "VoteResponse option \<Rightarrow> int \<Rightarrow> Node \<times> int \<Rightarrow> Node \<times> int" where
  "requestVoteFromPeer answer electionTerm nv =
     (case nv of (n, votes) \<Rightarrow>
        (case answer of
           None \<Rightarrow> (n, votes)
         | Some resp \<Rightarrow>
             if vp_Term resp > currentTerm n then (becomeFollower n (vp_Term resp) [], votes)
             else if currentTerm n \<noteq> electionTerm \<or> nstate n \<noteq> Candidate then (n, votes)
             else if vp_VoteGranted resp then (n, votes + 1)
             else (n, votes)))"

text \<open>The flag says that the heartbeat and replication goroutines are started.\<close>

definition startElection_finish :: "Node \<Rightarrow> int \<Rightarrow> int \<Rightarrow> Node \<times> bool" where
  "startElection_finish n trm finalVotes =
     (if nstate n \<noteq> Candidate \<or> currentTerm n \<noteq> trm then (n, False)
      else if finalVotes \<ge> majorityOf (int (length (peers n)) + 1) then (becomeLeader n, True)
      else (n, False))"

definition startElection ::
    "(string \<Rightarrow> VoteRequest \<Rightarrow> VoteResponse option) \<Rightarrow> Node \<Rightarrow> Node \<times> bool" where
  "startElection rpc n =
     (case startElection_begin n of
        (n1, req) \<Rightarrow>
          (case fold (\<lambda>peer. requestVoteFromPeer (rpc peer req) (vr_Term req)) (peers n1) (n1, 1) of
             (n2, votes) \<Rightarrow> startElection_finish n2 (vr_Term req) votes))"

section \<open>Voter side\<close>

definition logUpToDate :: "Log \<Rightarrow> VoteRequest \<Rightarrow> bool" where
  "logUpToDate l req \<longleftrightarrow>
     vr_LastLogTerm req > LastTerm l \<or>
     (vr_LastLogTerm req = LastTerm l \<and> vr_LastLogIndex req \<ge> LastIndex l)"

definition HandleVoteRequest :: "Node \<Rightarrow> VoteRequest \<Rightarrow> Node \<times> VoteResponse" where
  "HandleVoteRequest n req =
     (let resp = \<lparr>vp_Term = currentTerm n, vp_VoteGranted = False\<rparr>;
          n1 = fst (stepDown n (vr_Term req))
      in if vr_Term req < currentTerm n1 then (n1, resp\<lparr>vp_Term := currentTerm n1\<rparr>)
         else
           let canVote = (votedFor n1 = [] \<or> votedFor n1 = vr_CandidateID req);
               logOK = logUpToDate (nlog n1) req
           in if canVote \<and> logOK then
                let n2 = resetElectionTimer
                           (n1\<lparr>votedFor := vr_CandidateID req, currentTerm := vr_Term req\<rparr>)
                in (n2, resp\<lparr>vp_VoteGranted := True, vp_Term := currentTerm n2\<rparr>)
              else (n1, resp))"

section \<open>Effects\<close>

lemma startElection_begin_simps [node_simps]:
  "nstate (fst (startElection_begin n)) = Candidate"
  "currentTerm (fst (startElection_begin n)) = wrap64 (currentTerm n + 1)"
  "votedFor (fst (startElection_begin n)) = nid n"
  "nid (fst (startElection_begin n)) = nid n" "nlog (fst (startElection_begin n)) = nlog n"
  "commitIndex (fst (startElection_begin n)) = commitIndex n"
  "lastApplied (fst (startElection_begin n)) = lastApplied n"
  "nextIndex (fst (startElection_begin n)) = nextIndex n"
  "matchIndex (fst (startElection_begin n)) = matchIndex n"
  "peers (fst (startElection_begin n)) = peers n"
  "commitCh (fst (startElection_begin n)) = commitCh n"
  "vr_Term (snd (startElection_begin n)) = wrap64 (currentTerm n + 1)"
  "vr_CandidateID (snd (startElection_begin n)) = nid n"
  "vr_LastLogIndex (snd (startElection_begin n)) = LastIndex (nlog n)"
  "vr_LastLogTerm (snd (startElection_begin n)) = LastTerm (nlog n)"
  by (simp_all add: startElection_begin_def Let_def node_simps)

text \<open>The vote is granted exactly under the three conditions of the comment in the source.\<close>

lemma HandleVoteRequest_granted_iff:
  "vp_VoteGranted (snd (HandleVoteRequest n req)) \<longleftrightarrow>
     currentTerm n \<le> vr_Term req \<and>
     (currentTerm n < vr_Term req \<or> votedFor n = [] \<or> votedFor n = vr_CandidateID req) \<and>
     logUpToDate (nlog n) req"
  by (auto simp: HandleVoteRequest_def Let_def node_simps max_def)

lemma HandleVoteRequest_simps [node_simps]:
  "nid (fst (HandleVoteRequest n req)) = nid n"
  "nlog (fst (HandleVoteRequest n req)) = nlog n"
  "commitIndex (fst (HandleVoteRequest n req)) = commitIndex n"
  "lastApplied (fst (HandleVoteRequest n req)) = lastApplied n"
  "nextIndex (fst (HandleVoteRequest n req)) = nextIndex n"
  "matchIndex (fst (HandleVoteRequest n req)) = matchIndex n"
  "peers (fst (HandleVoteRequest n req)) = peers n"
  "commitCh (fst (HandleVoteRequest n req)) = commitCh n"
  "currentTerm (fst (HandleVoteRequest n req)) = max (currentTerm n) (vr_Term req)"
  "nstate (fst (HandleVoteRequest n req)) =
     (if currentTerm n < vr_Term req then Follower else nstate n)"
  by (auto simp: HandleVoteRequest_def Let_def node_simps max_def)

lemma HandleVoteRequest_votedFor [node_simps]:
  "votedFor (fst (HandleVoteRequest n req)) =
     (if vp_VoteGranted (snd (HandleVoteRequest n req)) then vr_CandidateID req
      else if currentTerm n < vr_Term req then [] else votedFor n)"
  by (auto simp: HandleVoteRequest_def Let_def node_simps max_def)

lemma HandleVoteRequest_term_bound:
  "vp_Term (snd (HandleVoteRequest n req)) \<le> max (currentTerm n) (vr_Term req)"
  by (auto simp: HandleVoteRequest_def Let_def node_simps max_def)

lemma requestVoteFromPeer_cases:
  obtains "requestVoteFromPeer answer T (n, v) = (n, v)"
  | resp where "answer = Some resp" and "vp_Term resp > currentTerm n"
      and "requestVoteFromPeer answer T (n, v) = (becomeFollower n (vp_Term resp) [], v)"
  | resp where "answer = Some resp" and "vp_VoteGranted resp" and "currentTerm n = T"
      and "nstate n = Candidate" and "requestVoteFromPeer answer T (n, v) = (n, v + 1)"
proof (cases answer)
  case None
  then show thesis using that(1) by (simp add: requestVoteFromPeer_def)
next
  case (Some resp)
  consider "currentTerm n < vp_Term resp"
    | "\<not> currentTerm n < vp_Term resp" "currentTerm n = T" "nstate n = Candidate" "vp_VoteGranted resp"
    | "\<not> currentTerm n < vp_Term resp"
      "\<not> (currentTerm n = T \<and> nstate n = Candidate \<and> vp_VoteGranted resp)"
    by blast
  then show thesis
    by cases (use Some in \<open>auto intro: that simp: requestVoteFromPeer_def\<close>)
qed

section \<open>Properties\<close>

text \<open>
  C12. The vote handler on every branch. The vote is granted exactly when the request's term is not behind, the node has not voted for
  someone else in that term, and the candidate's last entry is of a later term than the node's, or of the same term and at least as far. In every
  case the node first adopts a higher term, as a follower without a vote or a leader. A granted vote is then recorded, the
  answer carries the request's term and a reset of the election timer is signalled; nothing else changes. A refusal changes nothing further, signals no
  reset, and answers with the term the node had before.
\<close>

theorem vote_request_outcome:
  assumes "HandleVoteRequest n req = (n', resp)"
    and "n1 = (if currentTerm n < vr_Term req
               then n\<lparr>nstate := Follower, currentTerm := vr_Term req, votedFor := [], leaderID := []\<rparr> else n)"
  shows "(vp_VoteGranted resp \<longleftrightarrow>
            currentTerm n \<le> vr_Term req \<and>
            (currentTerm n < vr_Term req \<or> votedFor n = [] \<or> votedFor n = vr_CandidateID req) \<and>
            (LastTerm (nlog n) < vr_LastLogTerm req \<or>
             LastTerm (nlog n) = vr_LastLogTerm req \<and> LastIndex (nlog n) \<le> vr_LastLogIndex req)) \<and>
         (vp_VoteGranted resp \<longrightarrow>
            vp_Term resp = vr_Term req \<and>
            n' = n1\<lparr>votedFor := vr_CandidateID req,
                    resetElectionCh := (if resetElectionCh n = [] then [()] else resetElectionCh n)\<rparr>) \<and>
         (\<not> vp_VoteGranted resp \<longrightarrow> vp_Term resp = currentTerm n \<and> n' = n1)"
proof -
  have n': "n' = fst (HandleVoteRequest n req)" and r: "resp = snd (HandleVoteRequest n req)"
    using assms(1) by simp_all
  have n1: "n1 = fst (stepDown n (vr_Term req))" by (simp add: assms(2) stepDown_def becomeFollower_def)
  have "vp_VoteGranted resp \<longleftrightarrow> currentTerm n \<le> vr_Term req \<and>
      (currentTerm n < vr_Term req \<or> votedFor n = [] \<or> votedFor n = vr_CandidateID req) \<and> logUpToDate (nlog n) req"
    unfolding r by (rule HandleVoteRequest_granted_iff)
  moreover have "vp_VoteGranted resp \<longrightarrow> vp_Term resp = vr_Term req \<and>
      n' = n1\<lparr>votedFor := vr_CandidateID req, resetElectionCh := (if resetElectionCh n = [] then [()] else resetElectionCh n)\<rparr>"
    by (cases n) (auto simp: n' r assms(2) HandleVoteRequest_def Let_def stepDown_def becomeFollower_def resetElectionTimer_def
        chan_try_send_def)
  moreover have "\<not> vp_VoteGranted resp \<longrightarrow> vp_Term resp = currentTerm n \<and> n' = n1"
    by (auto simp: n' r n1 HandleVoteRequest_def Let_def node_simps max_def)
  ultimately show ?thesis by (auto simp: logUpToDate_def)
qed

definition voterDemo :: Node where
  "voterDemo = NewNode \<lparr>NodeID = ''n2'', PeerAddrs = [''p1'', ''p3''], GatewayAddr = ''g''\<rparr>"

theorem vote_request_outcome_witness:
  "vp_VoteGranted (snd (HandleVoteRequest voterDemo
     \<lparr>vr_Term = 1, vr_CandidateID = ''n1'', vr_LastLogIndex = 0, vr_LastLogTerm = 0\<rparr>))"
  using vote_request_outcome [OF prod.collapse [symmetric] refl, of voterDemo
     "\<lparr>vr_Term = 1, vr_CandidateID = ''n1'', vr_LastLogIndex = 0, vr_LastLogTerm = 0\<rparr>"]
  by (simp add: voterDemo_def NewNode_def NewLog_def LastTerm_def LastIndex_def)

text \<open>
  The term of a refusal. A node that refuses a candidate of a higher term, because the candidate's
  log is behind, has moved to that term but answers with the term it had before: the answer's
  term is not the responder's current term, as the documentation of \<open>VoteResponse\<close> has it.
\<close>

lemma vote_refusal_reports_old_term:
  assumes "currentTerm n < vr_Term req" and "\<not> logUpToDate (nlog n) req"
  shows "vp_Term (snd (HandleVoteRequest n req)) = currentTerm n \<and>
         currentTerm (fst (HandleVoteRequest n req)) = vr_Term req \<and>
         vp_Term (snd (HandleVoteRequest n req)) < currentTerm (fst (HandleVoteRequest n req))"
  using assms by (auto simp: HandleVoteRequest_def Let_def node_simps max_def)

text \<open>The fold over the peers while no answer carries a higher term.\<close>

lemma count_votes:
  assumes "nstate n = Candidate" and "currentTerm n = t"
    and "\<forall>p \<in> set ps. \<forall>r. rpc p = Some r \<longrightarrow> vp_Term r \<le> t"
  shows "fold (\<lambda>p. requestVoteFromPeer (rpc p) t) ps (n, k) =
         (n, k + int (length (filter (\<lambda>p. \<exists>r. rpc p = Some r \<and> vp_VoteGranted r) ps)))"
  using assms(3)
proof (induction ps arbitrary: k)
  case (Cons p ps)
  have "requestVoteFromPeer (rpc p) t (n, k) =
        (n, if \<exists>r. rpc p = Some r \<and> vp_VoteGranted r then k + 1 else k)"
    using assms(1,2) Cons.prems by (cases "rpc p") (auto simp: requestVoteFromPeer_def)
  with Cons show ?case by simp
qed simp

text \<open>
  C37. An undisturbed election. If no peer answers with a higher term, \<open>startElection\<close> makes the node leader
  of the next term exactly when the granted votes with its own are more than half of the cluster, that is of its peers and itself, and
  leaves it a candidate otherwise; lost answers count as refusals.
\<close>

theorem startElection_decides:
  assumes "\<forall>p \<in> set (peers n). \<forall>r. rpc p (snd (startElection_begin n)) = Some r \<longrightarrow>
             vp_Term r \<le> wrap64 (currentTerm n + 1)"
  shows "startElection rpc n =
    (if length (peers n) + 1 <
          2 * (1 + length (filter (\<lambda>p. \<exists>r. rpc p (snd (startElection_begin n)) = Some r \<and> vp_VoteGranted r) (peers n)))
     then (becomeLeader (becomeCandidate n), True) else (becomeCandidate n, False))"
proof -
  let ?req = "snd (startElection_begin n)"
  let ?F = "filter (\<lambda>p. \<exists>r. rpc p ?req = Some r \<and> vp_VoteGranted r) (peers n)"
  have b: "startElection_begin n = (becomeCandidate n, ?req)"
    by (simp add: startElection_begin_def Let_def)
  have t: "vr_Term ?req = wrap64 (currentTerm n + 1)" by (simp add: node_simps)
  have f: "fold (\<lambda>p. requestVoteFromPeer (rpc p ?req) (vr_Term ?req)) (peers n) (becomeCandidate n, 1) =
      (becomeCandidate n, 1 + int (length ?F))"
    unfolding t by (rule count_votes) (use assms in \<open>simp_all add: node_simps\<close>)
  have "majorityOf (int (length (peers n)) + 1) \<le> 1 + int (length ?F) \<longleftrightarrow> length (peers n) + 1 < 2 * (1 + length ?F)"
    by (rule majority_count)
  with f show ?thesis
    unfolding startElection_def
    by (subst b) (simp add: node_simps startElection_finish_def t)
qed

theorem startElection_decides_witness:
  "nstate (fst (startElection (\<lambda>p req. if p = ''p1'' then Some \<lparr>vp_Term = 1, vp_VoteGranted = True\<rparr> else None)
     voterDemo)) = Leader"
  by (subst startElection_decides)
    (simp_all add: voterDemo_def NewNode_def wrap64_def node_simps split: if_splits)

text \<open>
  The term counter. A candidate's term is the next one, except at the largest 64 bit integer, a
  value that the handlers accept from the wire: there it wraps around to the smallest one.
\<close>

lemma candidate_term_wraps:
  assumes "0 \<le> currentTerm n" and "currentTerm n \<le> max_int"
  shows "currentTerm (fst (startElection_begin n)) =
         (if currentTerm n = max_int then - (2 ^ 63) else currentTerm n + 1)"
  using assms wrap64_incr [of "currentTerm n"] wrap64_overflow by (auto simp: node_simps)

end
