(* ===== verification/Replication.thy ===== *)
theory Replication
  imports Election
begin

text \<open>
  Log replication and commitment, \<open>replica/internal/raft/replication.go\<close>. \<open>sendAppendEntries\<close>
  builds its request under the read lock, releases it for the RPC and takes the write lock for
  the answer: \<open>appendEntriesRequest\<close> and \<open>appendEntriesAnswer\<close> are the two locked parts, and
  \<open>sendAppendEntries\<close> composes them for a node that nothing else touches in between.
\<close>

section \<open>Leader side\<close>

datatype error = ErrNotLeader

definition HandleStroke :: "Node \<Rightarrow> StrokeEvent \<Rightarrow> Node \<times> error option" where
  "HandleStroke n stroke =
     (if nstate n \<noteq> Leader then (n, Some ErrNotLeader)
      else
        let entry = \<lparr>le_Index = 0, le_Term = currentTerm n, le_Stroke = stroke\<rparr>;
            n1 = n\<lparr>nlog := fst (Append (nlog n) entry)\<rparr>
        in (signalNewEntry n1, None))"

definition appendEntriesRequest :: "Node \<Rightarrow> string \<Rightarrow> AppendEntriesRequest option" where
  "appendEntriesRequest n peerAddr =
     (if nstate n \<noteq> Leader then None
      else
        case nextIndex n peerAddr of
          None \<Rightarrow> None
        | Some nextIdx \<Rightarrow>
            let prevLogIndex = nextIdx - 1
            in Some \<lparr>ar_Term = currentTerm n, ar_LeaderID = nid n,
                     ar_PrevLogIndex = prevLogIndex,
                     ar_PrevLogTerm = Term (nlog n) prevLogIndex,
                     ar_Entries = GetFrom (nlog n) nextIdx,
                     ar_LeaderCommit = commitIndex n\<rparr>)"

text \<open>The replicas known to hold the entry at \<open>idx\<close>: the leader itself and the matching peers.\<close>

definition replicaCount :: "Node \<Rightarrow> int \<Rightarrow> int" where
  "replicaCount n idx =
     1 + int (length (filter (\<lambda>peer. map_get (matchIndex n) peer \<ge> idx) (peers n)))"

function advanceLoop :: "Node \<Rightarrow> int \<Rightarrow> Node" where
  "advanceLoop n idx =
     (if idx \<le> LastIndex (nlog n) then
        advanceLoop
          (if Term (nlog n) idx \<noteq> currentTerm n then n
           else if replicaCount n idx \<ge> majorityOf (int (length (peers n)) + 1)
           then n\<lparr>commitIndex := idx\<rparr>
           else n)
          (idx + 1)
      else n)"
  by pat_completeness auto
termination
  by (relation "measure (\<lambda>(n, idx). nat (LastIndex (nlog n) + 1 - idx))") auto

declare advanceLoop.simps [simp del]

definition advanceCommitIndex :: "Node \<Rightarrow> Node" where
  "advanceCommitIndex n = advanceLoop n (commitIndex n + 1)"

definition appendEntriesAnswer ::
    "Node \<Rightarrow> string \<Rightarrow> AppendEntriesRequest \<Rightarrow> AppendEntriesResponse \<Rightarrow> Node" where
  "appendEntriesAnswer n peerAddr req resp =
     (let (n1, down) = stepDown n (ap_Term resp)
      in if down then n1
         else if nstate n1 \<noteq> Leader \<or> currentTerm n1 \<noteq> ar_Term req then n1
         else if ap_Success resp then
           let n2 = (if length (ar_Entries req) > 0 then
                       let newMatchIndex = le_Index (ar_Entries req ! (length (ar_Entries req) - 1))
                       in n1\<lparr>nextIndex := (nextIndex n1)(peerAddr \<mapsto> newMatchIndex + 1),
                             matchIndex := (matchIndex n1)(peerAddr \<mapsto> newMatchIndex)\<rparr>
                     else n1)
           in advanceCommitIndex n2
         else if ap_ConflictIndex resp > 0 then
           n1\<lparr>nextIndex := (nextIndex n1)(peerAddr \<mapsto> ap_ConflictIndex resp)\<rparr>
         else if map_get (nextIndex n1) peerAddr > 1 then
           n1\<lparr>nextIndex := (nextIndex n1)(peerAddr \<mapsto> map_get (nextIndex n1) peerAddr - 1)\<rparr>
         else n1)"

definition sendAppendEntries ::
    "(string \<Rightarrow> AppendEntriesRequest \<Rightarrow> AppendEntriesResponse option) \<Rightarrow> Node \<Rightarrow> string \<Rightarrow> Node"
where
  "sendAppendEntries rpc n peerAddr =
     (case appendEntriesRequest n peerAddr of
        None \<Rightarrow> n
      | Some req \<Rightarrow>
          (case rpc peerAddr req of
             None \<Rightarrow> n
           | Some resp \<Rightarrow> appendEntriesAnswer n peerAddr req resp))"

text \<open>
  The requests one call of \<open>sendHeartbeats\<close> starts, one per peer; the tick of the heartbeat loop,
  where \<open>None\<close> ends the loop's goroutine.
\<close>

definition sendHeartbeats :: "Node \<Rightarrow> (string \<times> AppendEntriesRequest option) list" where
  "sendHeartbeats n =
     (if nstate n \<noteq> Leader then []
      else map (\<lambda>peer. (peer, appendEntriesRequest n peer)) (peers n))"

definition runHeartbeatLoop_tick ::
    "Node \<Rightarrow> (string \<times> AppendEntriesRequest option) list option" where
  "runHeartbeatLoop_tick n = (if nstate n \<noteq> Leader then None else Some (sendHeartbeats n))"

text \<open>
  One turn of a peer's replication loop: receive a signal (\<open>None\<close>: there is none, the loop blocks), and send if the node
  is still the leader of the loop's term (otherwise the loop ends).
\<close>

definition runReplicationLoop_tick ::
    "Node \<Rightarrow> string \<Rightarrow> int \<Rightarrow> (Node \<times> AppendEntriesRequest option option) option" where
  "runReplicationLoop_tick n peerAddr leaderTerm =
     (case newEntryCh n of
        [] \<Rightarrow> None
      | _ # q \<Rightarrow>
          let n1 = n\<lparr>newEntryCh := q\<rparr>;
              stillLeader = (nstate n1 = Leader \<and> currentTerm n1 = leaderTerm)
          in Some (n1, if \<not> stillLeader then None else Some (appendEntriesRequest n1 peerAddr)))"

section \<open>Follower side\<close>

text \<open>
  \<open>HandleAppendEntries\<close> in the order of the source: the term checks, the switch to follower, the
  consistency check at \<open>PrevLogIndex\<close> (\<open>prevConflict\<close>: the conflict index to report, if any), and
  the storing of entries and commit index. The response starts with the term the node had when
  the request came in; only the rejection of a stale term and success overwrite it.
\<close>

definition acceptLeader :: "Node \<Rightarrow> AppendEntriesRequest \<Rightarrow> Node" where
  "acceptLeader n req =
     (let n1 = (resetElectionTimer n)\<lparr>leaderID := ar_LeaderID req\<rparr>;
          n2 = (if nstate n1 = Candidate then becomeFollower n1 (ar_Term req) (ar_LeaderID req) else n1);
          n3 = (if nstate n2 \<noteq> Follower then becomeFollower n2 (ar_Term req) (ar_LeaderID req) else n2)
      in n3\<lparr>currentTerm := ar_Term req\<rparr>)"

definition prevConflict :: "Log \<Rightarrow> AppendEntriesRequest \<Rightarrow> int option" where
  "prevConflict l req =
     (if ar_PrevLogIndex req > 0 then
        (case GetEntry l (ar_PrevLogIndex req) of
           (prevEntry, exists) \<Rightarrow>
             if \<not> exists then Some (LastIndex l + 1)
             else if le_Term prevEntry \<noteq> ar_PrevLogTerm req then Some (ar_PrevLogIndex req)
             else None)
      else None)"

definition followCommit :: "Node \<Rightarrow> int \<Rightarrow> Node" where
  "followCommit n leaderCommit =
     (if leaderCommit > commitIndex n then
        let lastNewIndex = LastIndex (nlog n)
        in if leaderCommit < lastNewIndex then n\<lparr>commitIndex := leaderCommit\<rparr>
           else n\<lparr>commitIndex := lastNewIndex\<rparr>
      else n)"

definition HandleAppendEntries ::
    "Node \<Rightarrow> AppendEntriesRequest \<Rightarrow> Node \<times> (panic + AppendEntriesResponse)" where
  "HandleAppendEntries n req =
     (let resp = \<lparr>ap_Term = currentTerm n, ap_Success = False, ap_ConflictIndex = 0\<rparr>;
          n1 = fst (stepDown n (ar_Term req))
      in if ar_Term req < currentTerm n1 then (n1, Inr (resp\<lparr>ap_Term := currentTerm n1\<rparr>))
         else
           let n2 = acceptLeader n1 req
           in case prevConflict (nlog n2) req of
                Some ci \<Rightarrow> (n2, Inr (resp\<lparr>ap_ConflictIndex := ci\<rparr>))
              | None \<Rightarrow>
                  (case (if length (ar_Entries req) > 0
                         then AppendEntries (nlog n2) (ar_Entries req) (commitIndex n2)
                         else (nlog n2, None)) of
                     (l, Some p) \<Rightarrow> (n2\<lparr>nlog := l\<rparr>, Inl p)
                   | (l, None) \<Rightarrow>
                       let n3 = followCommit (n2\<lparr>nlog := l\<rparr>) (ar_LeaderCommit req)
                       in (n3, Inr (resp\<lparr>ap_Success := True, ap_Term := currentTerm n3\<rparr>))))"

definition GetSyncLog :: "Node \<Rightarrow> int \<Rightarrow> LogEntry list" where
  "GetSyncLog n fromIndex =
     filter (\<lambda>entry. le_Index entry \<le> commitIndex n) (GetFrom (nlog n) fromIndex)"

section \<open>Effects\<close>

lemma acceptLeader_simps [node_simps]:
  "nid (acceptLeader n req) = nid n" "nlog (acceptLeader n req) = nlog n"
  "commitIndex (acceptLeader n req) = commitIndex n"
  "lastApplied (acceptLeader n req) = lastApplied n"
  "nextIndex (acceptLeader n req) = nextIndex n" "matchIndex (acceptLeader n req) = matchIndex n"
  "peers (acceptLeader n req) = peers n" "commitCh (acceptLeader n req) = commitCh n"
  "nstate (acceptLeader n req) = Follower" "currentTerm (acceptLeader n req) = ar_Term req"
  "leaderID (acceptLeader n req) = ar_LeaderID req"
  "votedFor (acceptLeader n req) = (if nstate n = Follower then votedFor n else [])"
  by (cases "nstate n"; simp add: acceptLeader_def Let_def node_simps)+

lemma followCommit_simps [node_simps]:
  "nid (followCommit n c) = nid n" "nlog (followCommit n c) = nlog n"
  "lastApplied (followCommit n c) = lastApplied n"
  "nextIndex (followCommit n c) = nextIndex n" "matchIndex (followCommit n c) = matchIndex n"
  "peers (followCommit n c) = peers n" "commitCh (followCommit n c) = commitCh n"
  "nstate (followCommit n c) = nstate n" "currentTerm (followCommit n c) = currentTerm n"
  "leaderID (followCommit n c) = leaderID n" "votedFor (followCommit n c) = votedFor n"
  by (simp_all add: followCommit_def Let_def)

lemma followCommit_commitIndex:
  "commitIndex (followCommit n c) =
     (if c > commitIndex n then min c (LastIndex (nlog n)) else commitIndex n)"
  by (simp add: followCommit_def Let_def)

text \<open>The three ways \<open>HandleAppendEntries\<close> answers, as equations under their conditions.\<close>

lemma HandleAppendEntries_stale:
  "ar_Term req < currentTerm n \<Longrightarrow>
   HandleAppendEntries n req =
     (n, Inr \<lparr>ap_Term = currentTerm n, ap_Success = False, ap_ConflictIndex = 0\<rparr>)"
  by (simp add: HandleAppendEntries_def Let_def stepDown_def)

lemma HandleAppendEntries_conflict:
  assumes "currentTerm n \<le> ar_Term req" and "prevConflict (nlog n) req = Some ci"
  shows "HandleAppendEntries n req =
     (acceptLeader (fst (stepDown n (ar_Term req))) req,
      Inr \<lparr>ap_Term = currentTerm n, ap_Success = False, ap_ConflictIndex = ci\<rparr>)"
  using assms by (simp add: HandleAppendEntries_def Let_def node_simps)

lemma HandleAppendEntries_store:
  assumes "currentTerm n \<le> ar_Term req" and "prevConflict (nlog n) req = None"
    and "AppendEntries (nlog n) (ar_Entries req) (commitIndex n) = (l, None)"
  shows "HandleAppendEntries n req =
     (followCommit ((acceptLeader (fst (stepDown n (ar_Term req))) req)\<lparr>nlog := l\<rparr>)
        (ar_LeaderCommit req),
      Inr \<lparr>ap_Term = ar_Term req, ap_Success = True, ap_ConflictIndex = 0\<rparr>)"
  using assms
  by (cases "ar_Entries req") (simp_all add: HandleAppendEntries_def Let_def node_simps)

lemma HandleAppendEntries_panic:
  assumes "currentTerm n \<le> ar_Term req" and "prevConflict (nlog n) req = None"
    and "AppendEntries (nlog n) (ar_Entries req) (commitIndex n) = (l, Some p)"
  shows "HandleAppendEntries n req =
     ((acceptLeader (fst (stepDown n (ar_Term req))) req)\<lparr>nlog := l\<rparr>, Inl p)"
  using assms
  by (cases "ar_Entries req") (simp_all add: HandleAppendEntries_def Let_def node_simps)

lemma HandleAppendEntries_cases:
  obtains (stale) "ar_Term req < currentTerm n"
  | (conflict) ci where "currentTerm n \<le> ar_Term req" and "prevConflict (nlog n) req = Some ci"
  | (stored) l where "currentTerm n \<le> ar_Term req" and "prevConflict (nlog n) req = None"
      and "AppendEntries (nlog n) (ar_Entries req) (commitIndex n) = (l, None)"
  | (panicked) l p where "currentTerm n \<le> ar_Term req" and "prevConflict (nlog n) req = None"
      and "AppendEntries (nlog n) (ar_Entries req) (commitIndex n) = (l, Some p)"
  by (metis not_le option.exhaust surj_pair)

lemmas HandleAppendEntries_eqs =
  HandleAppendEntries_stale HandleAppendEntries_conflict HandleAppendEntries_store
  HandleAppendEntries_panic

lemma HandleAppendEntries_simps [node_simps]:
  "nid (fst (HandleAppendEntries n req)) = nid n"
  "lastApplied (fst (HandleAppendEntries n req)) = lastApplied n"
  "nextIndex (fst (HandleAppendEntries n req)) = nextIndex n"
  "matchIndex (fst (HandleAppendEntries n req)) = matchIndex n"
  "peers (fst (HandleAppendEntries n req)) = peers n"
  "commitCh (fst (HandleAppendEntries n req)) = commitCh n"
  "currentTerm (fst (HandleAppendEntries n req)) = max (currentTerm n) (ar_Term req)"
  "nstate (fst (HandleAppendEntries n req)) =
     (if currentTerm n \<le> ar_Term req then Follower else nstate n)"
  "votedFor (fst (HandleAppendEntries n req)) =
     (if currentTerm n < ar_Term req \<or> currentTerm n = ar_Term req \<and> nstate n \<noteq> Follower then []
      else votedFor n)"
  by (cases rule: HandleAppendEntries_cases [of req n];
      force simp: HandleAppendEntries_eqs node_simps max_def)+

subsection \<open>Commit advancement\<close>

lemma replicaCount_commitIndex [simp]: "replicaCount (n\<lparr>commitIndex := c\<rparr>) idx = replicaCount n idx"
  by (simp add: replicaCount_def)

text \<open>An index the leader may commit: an entry of its own term that a majority holds.\<close>

definition committable :: "Node \<Rightarrow> int \<Rightarrow> bool" where
  "committable n idx \<longleftrightarrow>
     Term (nlog n) idx = currentTerm n \<and>
     majorityOf (int (length (peers n)) + 1) \<le> replicaCount n idx"

lemma committable_commitIndex [simp]: "committable (n\<lparr>commitIndex := c\<rparr>) idx = committable n idx"
  by (simp add: committable_def)

lemma advanceLoop_unfold:
  "advanceLoop n idx =
     (if idx \<le> LastIndex (nlog n)
      then advanceLoop (if committable n idx then n\<lparr>commitIndex := idx\<rparr> else n) (idx + 1) else n)"
  by (subst advanceLoop.simps) (auto simp: committable_def)

lemma advanceLoop_spec:
  "\<exists>c. advanceLoop n i = n\<lparr>commitIndex := c\<rparr> \<and>
       (c = commitIndex n \<or> i \<le> c \<and> c \<le> LastIndex (nlog n) \<and> committable n c) \<and>
       (\<forall>idx. i \<le> idx \<longrightarrow> idx \<le> LastIndex (nlog n) \<longrightarrow> committable n idx \<longrightarrow>
          idx \<le> c)"
proof (induction n i rule: advanceLoop.induct)
  case (1 n i)
  show ?case
  proof (cases "i \<le> LastIndex (nlog n)")
    case False
    then show ?thesis
      by (intro exI [of _ "commitIndex n"]) (simp add: advanceLoop_unfold)
  next
    case True
    let ?m = "if committable n i then n\<lparr>commitIndex := i\<rparr> else n"
    have m: "?m = (if Term (nlog n) i \<noteq> currentTerm n then n
        else if majorityOf (int (length (peers n)) + 1) \<le> replicaCount n i
        then n\<lparr>commitIndex := i\<rparr> else n)"
      by (simp add: committable_def)
    from "1.IH" [OF True, folded m] obtain c where
      c: "advanceLoop ?m (i + 1) = ?m\<lparr>commitIndex := c\<rparr>"
        "c = commitIndex ?m \<or> i + 1 \<le> c \<and> c \<le> LastIndex (nlog ?m) \<and> committable ?m c"
      and mx: "\<And>idx. i + 1 \<le> idx \<Longrightarrow> idx \<le> LastIndex (nlog ?m) \<Longrightarrow> committable ?m idx \<Longrightarrow> idx \<le> c"
      by auto
    have "advanceLoop n i = n\<lparr>commitIndex := c\<rparr>"
      using True c(1) by (subst advanceLoop_unfold) (simp split: if_splits)
    moreover have "c = commitIndex n \<or> i \<le> c \<and> c \<le> LastIndex (nlog n) \<and> committable n c"
      using c(2) True by (auto split: if_splits)
    moreover have "idx \<le> c" if "i \<le> idx" "idx \<le> LastIndex (nlog n)" "committable n idx" for idx
    proof (cases "idx = i")
      case True
      with that(3) c(2) show ?thesis by auto
    next
      case False
      with that mx [of idx] show ?thesis by (auto split: if_splits)
    qed
    ultimately show ?thesis by blast
  qed
qed

lemma advanceCommitIndex_eq:
  "advanceCommitIndex n = n\<lparr>commitIndex := commitIndex (advanceCommitIndex n)\<rparr>"
  using advanceLoop_spec [of n "commitIndex n + 1"] by (auto simp: advanceCommitIndex_def)

lemma advanceCommitIndex_cases:
  "commitIndex (advanceCommitIndex n) = commitIndex n \<or>
   commitIndex n < commitIndex (advanceCommitIndex n) \<and>
   commitIndex (advanceCommitIndex n) \<le> LastIndex (nlog n) \<and>
   committable n (commitIndex (advanceCommitIndex n))"
  using advanceLoop_spec [of n "commitIndex n + 1"] by (auto simp: advanceCommitIndex_def)

lemma advanceCommitIndex_greatest:
  "commitIndex n < idx \<Longrightarrow> idx \<le> LastIndex (nlog n) \<Longrightarrow> committable n idx \<Longrightarrow>
   idx \<le> commitIndex (advanceCommitIndex n)"
  using advanceLoop_spec [of n "commitIndex n + 1"] by (auto simp: advanceCommitIndex_def)

lemma advanceCommitIndex_simps [node_simps]:
  "nid (advanceCommitIndex n) = nid n" "nlog (advanceCommitIndex n) = nlog n"
  "lastApplied (advanceCommitIndex n) = lastApplied n"
  "nextIndex (advanceCommitIndex n) = nextIndex n"
  "matchIndex (advanceCommitIndex n) = matchIndex n"
  "peers (advanceCommitIndex n) = peers n" "commitCh (advanceCommitIndex n) = commitCh n"
  "nstate (advanceCommitIndex n) = nstate n" "currentTerm (advanceCommitIndex n) = currentTerm n"
  "votedFor (advanceCommitIndex n) = votedFor n" "leaderID (advanceCommitIndex n) = leaderID n"
  by (subst advanceCommitIndex_eq, simp)+

lemma appendEntriesAnswer_simps [node_simps]:
  "nid (appendEntriesAnswer n p req resp) = nid n"
  "nlog (appendEntriesAnswer n p req resp) = nlog n"
  "lastApplied (appendEntriesAnswer n p req resp) = lastApplied n"
  "peers (appendEntriesAnswer n p req resp) = peers n"
  "commitCh (appendEntriesAnswer n p req resp) = commitCh n"
  "currentTerm (appendEntriesAnswer n p req resp) = max (currentTerm n) (ap_Term resp)"
  "nstate (appendEntriesAnswer n p req resp) =
     (if currentTerm n < ap_Term resp then Follower else nstate n)"
  "votedFor (appendEntriesAnswer n p req resp) =
     (if currentTerm n < ap_Term resp then [] else votedFor n)"
  by (auto simp: appendEntriesAnswer_def Let_def stepDown_def node_simps)

section \<open>Properties\<close>

text \<open>
  C13. Commit advancement. \<open>advanceCommitIndex\<close> changes nothing but the commit index and sets it to the greatest
  position beyond the old one that holds an entry of the leader's own term and is held by more than half of the cluster, counting the
  leader once and each peer whose confirmed index has reached the position; without such a position it stays. Entries of older terms are only committed along with it.
\<close>

theorem advanceCommitIndex_outcome:
  "advanceCommitIndex n =
     (let C = {idx. commitIndex n < idx \<and> idx \<le> LastIndex (nlog n) \<and>
                    Term (nlog n) idx = currentTerm n \<and>
                    length (peers n) + 1 < 2 * (1 + length (filter (\<lambda>p. idx \<le> map_get (matchIndex n) p) (peers n)))}
      in if C = {} then n else n\<lparr>commitIndex := Max C\<rparr>)"
proof -
  let ?C = "{idx. commitIndex n < idx \<and> idx \<le> LastIndex (nlog n) \<and> Term (nlog n) idx = currentTerm n \<and>
                  length (peers n) + 1 < 2 * (1 + length (filter (\<lambda>p. idx \<le> map_get (matchIndex n) p) (peers n)))}"
  let ?c = "commitIndex (advanceCommitIndex n)"
  have C: "?C = {idx. commitIndex n < idx \<and> idx \<le> LastIndex (nlog n) \<and> committable n idx}"
    by (simp add: committable_def majority_count replicaCount_def)
  have fin: "finite ?C"
    by (rule finite_subset [of _ "{commitIndex n .. LastIndex (nlog n)}"]) auto
  have "?c = (if ?C = {} then commitIndex n else Max ?C)"
  proof (cases "?C = {}")
    case True
    then show ?thesis using advanceCommitIndex_cases [of n] unfolding C by auto
  next
    case False
    have ub: "idx \<le> ?c" if "idx \<in> ?C" for idx
      using advanceCommitIndex_greatest that unfolding C by blast
    with False have "?c \<in> ?C" using advanceCommitIndex_cases [of n] unfolding C by force
    then have "Max ?C = ?c" using ub by (intro Max_eqI [OF fin])
    then show ?thesis using False by (simp only: if_False)
  qed
  then show ?thesis using advanceCommitIndex_eq [of n] by (auto simp: Let_def)
qed

text \<open>
  Strokes. Only a leader takes a stroke; it appends one entry of its term, with the next position as its
  index and the stroke as given, and wakes the replication goroutines. Anyone else refuses and stays as
  it is.
\<close>

lemma HandleStroke_outcome:
  "(nstate n = Leader \<longrightarrow>
      snd (HandleStroke n st) = None \<and>
      entries (nlog (fst (HandleStroke n st))) = entries (nlog n) @
        [\<lparr>le_Index = LastIndex (nlog n) + 1, le_Term = currentTerm n, le_Stroke = st\<rparr>] \<and>
      newEntryCh (fst (HandleStroke n st)) \<noteq> [] \<and>
      commitIndex (fst (HandleStroke n st)) = commitIndex n) \<and>
   (nstate n \<noteq> Leader \<longrightarrow> HandleStroke n st = (n, Some ErrNotLeader))"
  by (simp add: HandleStroke_def Let_def node_simps log_simps LastIndex_def)

text \<open>
  A stroke wakes one replication loop. The loops of all peers receive from the one channel \<open>newEntryCh\<close>, of capacity one: whichever loop
  receives first takes the signal, and all others stay blocked, until the next heartbeat sends them the entry.
\<close>

lemma stroke_wakes_one_peer:
  assumes "nstate n = Leader" and "newEntryCh n = []"
  shows "\<exists>n1 r. runReplicationLoop_tick (fst (HandleStroke n st)) p t = Some (n1, r) \<and>
           (\<forall>p' t'. runReplicationLoop_tick n1 p' t' = None)"
  using assms by (simp add: HandleStroke_def Let_def signalNewEntry_def chan_try_send_def runReplicationLoop_tick_def)

lemma filter_committed:
  assumes "indexed es" and "0 \<le> c"
  shows "filter (\<lambda>e. le_Index e \<le> c) (drop k es) = drop k (take (Suc (nat c)) es)"
proof -
  have "filter (\<lambda>e. le_Index e \<le> c) (drop k es) = take (Suc (nat c) - k) (drop k es)"
  proof (induction "length es - k" arbitrary: k)
    case (Suc m)
    then have k: "k < length es" by simp
    have d: "drop k es = es ! k # drop (Suc k) es" by (rule Cons_nth_drop_Suc [OF k, symmetric])
    have "m = length es - Suc k" using Suc.hyps(2) by simp
    note IH = Suc.hyps(1) [OF this]
    have e: "le_Index (es ! k) \<le> c \<longleftrightarrow> k \<le> nat c"
      using indexed_nth [OF assms(1) k] assms(2) by linarith
    show ?case
    proof (cases "k \<le> nat c")
      case True
      then have "Suc (nat c) - k = Suc (Suc (nat c) - Suc k)" by simp
      then show ?thesis using e True IH by (simp add: d)
    next
      case False
      then show ?thesis using e IH by (simp add: d)
    qed
  qed simp
  then show ?thesis by (simp add: drop_take)
qed

lemma GetSyncLog_eq:
  assumes "log_ok (nlog n)" and "0 \<le> i" and "0 \<le> commitIndex n"
  shows "GetSyncLog n i = drop (nat i) (take (Suc (nat (commitIndex n))) (entries (nlog n)))"
proof -
  have "indexed (entries (nlog n))" using assms(1) by (simp add: log_ok_def)
  then show ?thesis
    using filter_committed assms(3) rl.get_from_eq [OF assms(2)] by (simp add: GetSyncLog_def)
qed

text \<open>
  The catch-up read. For a well-formed log, \<open>GetSyncLog\<close> returns exactly the entries from the given position to
  the commit index, in order. From position 0, the default of the \<open>/sync-log\<close> handler, that includes the
  sentinel, an entry without a stroke.
\<close>

lemma GetSyncLog_outcome:
  assumes "log_ok (nlog n)" and "0 \<le> i" and "0 \<le> commitIndex n"
  shows "GetSyncLog n i = drop (nat i) (take (nat (commitIndex n) + 1) (entries (nlog n))) \<and>
         hd (GetSyncLog n 0) = sentinel"
  using GetSyncLog_eq [OF assms] GetSyncLog_eq [OF assms(1) _ assms(3), of 0] assms(1) by (simp add: log_ok_def hd_take)

text \<open>
  The term of a conflict answer. A follower that refuses a leader of a higher term because of the
  consistency check has moved to that term, but its answer carries the term it had before.
\<close>

lemma conflict_answer_reports_old_term:
  assumes "currentTerm n < ar_Term req" and "prevConflict (nlog n) req = Some ci"
  shows "\<exists>resp. snd (HandleAppendEntries n req) = Inr resp \<and> \<not> ap_Success resp \<and>
           ap_ConflictIndex resp = ci \<and> ap_Term resp = currentTerm n \<and>
           ap_Term resp < currentTerm (fst (HandleAppendEntries n req))"
  using assms by (simp add: HandleAppendEntries_conflict node_simps)

subsection \<open>Repeated delivery\<close>

lemma merge_suffix_twice:
  "first_conflict (merge_suffix old new) new = None" "merge_suffix (merge_suffix old new) new = merge_suffix old new"
proof -
  have self: "first_conflict new new = None" "merge_suffix new new = new" for new
    by (induction new) simp_all
  show "first_conflict (merge_suffix old new) new = None" "merge_suffix (merge_suffix old new) new = merge_suffix old new"
    by (induction old new rule: merge_suffix.induct) (simp_all add: self)
qed

lemma AppendEntries_twice:
  assumes "positioned k es" and "k \<le> length (entries l)" and "AppendEntries l es c = (l', None)"
  shows "take k (entries l') = take k (entries l)" and "k \<le> length (entries l')"
    and "AppendEntries l' es c' = (l', None)"
proof -
  have l': "l' = l\<lparr>entries := take k (entries l) @ merge_suffix (drop k (entries l)) es\<rparr>"
  proof (cases "\<exists>j. first_conflict (drop k (entries l)) es = Some j \<and> int (k + j) \<le> c")
    case True
    then show ?thesis using AppendEntries_panics [OF assms(1,2)] assms(3) by auto
  next
    case False
    then have "c < int (k + j)" if "first_conflict (drop k (entries l)) es = Some j" for j
      using that by (meson not_le)
    from AppendEntries_merge [OF assms(1,2) this] assms(3) show ?thesis by simp
  qed
  then show tk: "take k (entries l') = take k (entries l)" and k: "k \<le> length (entries l')"
    using assms(2) by simp_all
  have d: "drop k (entries l') = merge_suffix (drop k (entries l)) es" using l' assms(2) by simp
  have "AppendEntries l' es c' = (l'\<lparr>entries := take k (entries l') @ merge_suffix (drop k (entries l')) es\<rparr>, None)"
    by (rule AppendEntries_merge [OF assms(1) k]) (simp add: d merge_suffix_twice)
  moreover have "take k (entries l') @ merge_suffix (drop k (entries l')) es = entries l'"
    using d merge_suffix_twice(2) append_take_drop_id [of k "entries l'"] by metis
  ultimately show "AppendEntries l' es c' = (l', None)" by simp
qed

lemma acceptLeader_again:
  "nstate n = Follower \<Longrightarrow> currentTerm n = ar_Term req \<Longrightarrow> leaderID n = ar_LeaderID req \<Longrightarrow>
   resetElectionCh n \<noteq> [] \<Longrightarrow> acceptLeader n req = n"
  by (cases "resetElectionCh n")
    (simp_all add: acceptLeader_def Let_def resetElectionTimer_def chan_try_send_def)

lemma acceptLeader_reset: "resetElectionCh (acceptLeader n req) \<noteq> []"
  by (auto simp: acceptLeader_def Let_def node_simps)

lemma followCommit_again: "followCommit (followCommit n c) c = followCommit n c"
  by (simp add: followCommit_def Let_def)

lemma followCommit_other [simp]: "resetElectionCh (followCommit n c) = resetElectionCh n"
  by (simp add: followCommit_def Let_def)

text \<open>
  C38. Repeated requests. Delivering a successful request a second time changes nothing at all in the follower
  and is answered in the same way, so a leader may send a request again whenever an answer is lost.
\<close>

theorem append_entries_idempotent:
  assumes "0 \<le> ar_PrevLogIndex req" and "positioned (Suc (nat (ar_PrevLogIndex req))) (ar_Entries req)"
    and "log_ok (nlog n)" and "HandleAppendEntries n req = (n', Inr resp)" and "ap_Success resp"
  shows "HandleAppendEntries n' req = (n', Inr resp)"
proof (cases rule: HandleAppendEntries_cases [of req n])
  case (stored l)
  let ?k = "Suc (nat (ar_PrevLogIndex req))"
  have n': "n' = followCommit ((acceptLeader (fst (stepDown n (ar_Term req))) req)\<lparr>nlog := l\<rparr>) (ar_LeaderCommit req)"
    and r: "resp = \<lparr>ap_Term = ar_Term req, ap_Success = True, ap_ConflictIndex = 0\<rparr>"
    using assms(4) HandleAppendEntries_store [OF stored] by simp_all
  have k: "?k \<le> length (entries (nlog n))"
    using stored(2) assms(1) log_ok_length [OF assms(3)]
    by (auto simp: prevConflict_def GetEntry_def Suc_le_eq split: if_splits prod.splits)
  note A = AppendEntries_twice [OF assms(2) k stored(3)]
  have N: "nlog n' = l" "currentTerm n' = ar_Term req" "nstate n' = Follower" "leaderID n' = ar_LeaderID req"
      "resetElectionCh n' \<noteq> []"
    using acceptLeader_reset by (simp_all add: n' node_simps)
  have "prevConflict l req = None"
  proof (cases "ar_PrevLogIndex req > 0")
    case True
    have "entries l ! nat (ar_PrevLogIndex req) = entries (nlog n) ! nat (ar_PrevLogIndex req)"
      using take_eq_nth [OF A(1), of "nat (ar_PrevLogIndex req)"] A(2) k by simp
    then show ?thesis using stored(2) True A(2) k
      by (auto simp: prevConflict_def GetEntry_def split: if_splits)
  qed (simp add: prevConflict_def)
  moreover have "fst (stepDown n' (ar_Term req)) = n'" by (simp add: stepDown_def N)
  moreover have "acceptLeader n' req = n'" by (rule acceptLeader_again [OF N(3,2,4,5)])
  ultimately have "HandleAppendEntries n' req = (followCommit (n'\<lparr>nlog := l\<rparr>) (ar_LeaderCommit req), Inr resp)"
    using HandleAppendEntries_store [of n' req l] A(3) N(1,2) r by simp
  moreover have "n'\<lparr>nlog := l\<rparr> = n'" using N(1) by simp
  ultimately show ?thesis using followCommit_again n' by metis
qed (use assms(4,5) in \<open>auto simp: HandleAppendEntries_eqs\<close>)

definition appendDemo :: AppendEntriesRequest where
  "appendDemo =
     \<lparr>ar_Term = 1, ar_LeaderID = ''n1'', ar_PrevLogIndex = 0, ar_PrevLogTerm = 0,
      ar_Entries = [\<lparr>le_Index = 1, le_Term = 1, le_Stroke = zeroStroke\<rparr>], ar_LeaderCommit = 1\<rparr>"

theorem append_entries_idempotent_witness:
  "HandleAppendEntries (fst (HandleAppendEntries voterDemo appendDemo)) appendDemo =
   HandleAppendEntries voterDemo appendDemo"
proof -
  have "0 \<le> ar_PrevLogIndex appendDemo" "log_ok (nlog voterDemo)"
    "positioned (Suc (nat (ar_PrevLogIndex appendDemo))) (ar_Entries appendDemo)"
    by (simp_all add: appendDemo_def voterDemo_def NewNode_def positioned_def)
  moreover obtain n' r where h: "HandleAppendEntries voterDemo appendDemo = (n', r)" by fastforce
  moreover have "snd (HandleAppendEntries voterDemo appendDemo) =
      Inr \<lparr>ap_Term = 1, ap_Success = True, ap_ConflictIndex = 0\<rparr>" by code_simp
  ultimately show ?thesis using append_entries_idempotent [of appendDemo voterDemo n'] by simp
qed

end
