(* ===== verification/ReplicaMain.thy ===== *)
theory ReplicaMain
  imports Replication
begin

text \<open>
  The replica's entry point, \<open>replica/cmd/main.go\<close>: the configuration read from the environment,
  the splitting of address lists, and the goroutine that forwards committed entries to the
  gateway. Environment strings are byte strings; the white space that \<open>strings.TrimSpace\<close>
  removes is the ASCII one (addresses are ASCII). The start of the process, its signals,
  the HTTP listener and the process exit are the subject of the theory \<open>ProcessLife\<close>.
\<close>

section \<open>Address lists\<close>

text \<open>\<open>strings.Split(s, ",")\<close>: one part more than there are separators.\<close>

fun split_comma :: "string \<Rightarrow> string list" where
  "split_comma [] = [[]]"
| "split_comma (c # cs) =
     (if c = CHR '','' then [] # split_comma cs
      else case split_comma cs of
             [] \<Rightarrow> [[c]]
           | part # parts \<Rightarrow> (c # part) # parts)"

definition is_space :: "char \<Rightarrow> bool" where
  "is_space c \<longleftrightarrow> c \<in> {CHR '' '', CHR 0x09, CHR 0x0A, CHR 0x0B, CHR 0x0C, CHR 0x0D}"

definition trim_space :: "string \<Rightarrow> string" where
  "trim_space s = rev (dropWhile is_space (rev (dropWhile is_space s)))"

fun keep_addrs :: "string list \<Rightarrow> string list" where
  "keep_addrs [] = []"
| "keep_addrs (p # ps) =
     (let p' = trim_space p in if p' \<noteq> [] then p' # keep_addrs ps else keep_addrs ps)"

definition splitAddrs :: "string \<Rightarrow> string list" where
  "splitAddrs s = (if s = [] then [] else keep_addrs (split_comma s))"

definition replicaConfig :: "string \<Rightarrow> string \<Rightarrow> string \<Rightarrow> Config" where
  "replicaConfig nodeID peerAddrs gateway =
     \<lparr>NodeID = nodeID, PeerAddrs = splitAddrs peerAddrs, GatewayAddr = gateway\<rparr>"

definition replicaPort :: "string \<Rightarrow> string" where
  "replicaPort port = (if port = [] then ''9001'' else port)"

text \<open>The node \<open>main\<close> starts, or the message it exits with.\<close>

definition replicaMain :: "string \<Rightarrow> string \<Rightarrow> string \<Rightarrow> string + Node" where
  "replicaMain nodeID peerAddrs gateway =
     (let cfg = replicaConfig nodeID peerAddrs gateway
      in case Validate cfg of Some err \<Rightarrow> Inl err | None \<Rightarrow> Inr (NewNode cfg))"

section \<open>The commit notifier\<close>

text \<open>
  One iteration of \<open>runCommitNotifier\<close>: receive an entry, and post it to the gateway if the node is
  the leader at that moment. \<open>None\<close>: nothing to receive. A failed post is logged and forgotten.
\<close>

definition runCommitNotifier_tick :: "Node \<Rightarrow> (Node \<times> CommitNotification option) option" where
  "runCommitNotifier_tick n =
     (case commitCh n of
        [] \<Rightarrow> None
      | entry # q \<Rightarrow>
          let n' = n\<lparr>commitCh := q\<rparr>
          in Some (n', if \<not> IsLeader n' then None
                       else Some \<lparr>cn_Stroke = le_Stroke entry, cn_Index = le_Index entry,
                                  cn_Term = le_Term entry\<rparr>))"

section \<open>Facts\<close>

lemma split_comma_nonempty: "split_comma s \<noteq> []"
  by (induction s) (auto split: list.splits)

fun join_comma :: "string list \<Rightarrow> string" where
  "join_comma [] = []"
| "join_comma [a] = a"
| "join_comma (a # as) = a @ CHR '','' # join_comma as"

lemma split_comma_no_comma: "CHR '','' \<notin> set a \<Longrightarrow> split_comma a = [a]"
  by (induction a) auto

lemma split_comma_append:
  "CHR '','' \<notin> set a \<Longrightarrow> split_comma (a @ CHR '','' # s) = a # split_comma s"
  by (induction a) auto

lemma split_comma_join:
  "as \<noteq> [] \<Longrightarrow> \<forall>a \<in> set as. CHR '','' \<notin> set a \<Longrightarrow> split_comma (join_comma as) = as"
  by (induction as rule: join_comma.induct) (auto simp: split_comma_no_comma split_comma_append)

definition plain_addr :: "string \<Rightarrow> bool" where
  "plain_addr a \<longleftrightarrow> a \<noteq> [] \<and> CHR '','' \<notin> set a \<and> \<not> is_space (hd a) \<and> \<not> is_space (last a)"

lemma trim_space_plain: "a \<noteq> [] \<Longrightarrow> \<not> is_space (hd a) \<Longrightarrow> \<not> is_space (last a) \<Longrightarrow> trim_space a = a"
  unfolding trim_space_def by (metis dropWhile_eq_self_iff hd_rev rev_rev_ident)

lemma keep_addrs_plain: "\<forall>a \<in> set as. plain_addr a \<Longrightarrow> keep_addrs as = as"
  by (induction as) (auto simp: plain_addr_def trim_space_plain Let_def)

lemma keep_addrs_eq: "keep_addrs ps = filter (\<lambda>p. p \<noteq> []) (map trim_space ps)"
  by (induction ps) (auto simp: Let_def)

lemma dropWhile_last: "dropWhile P xs \<noteq> [] \<Longrightarrow> last (dropWhile P xs) = last xs"
  by (induction xs) auto

lemma trim_space_ends:
  assumes "trim_space s \<noteq> []"
  shows "\<not> is_space (hd (trim_space s))" and "\<not> is_space (last (trim_space s))"
proof -
  let ?u = "dropWhile is_space s"
  from assms have r: "dropWhile is_space (rev ?u) \<noteq> []" by (simp add: trim_space_def)
  then have "last (dropWhile is_space (rev ?u)) = hd ?u"
    by (metis dropWhile_last last_rev)
  moreover from r have "?u \<noteq> []" by (metis dropWhile.simps(1) rev.simps(1))
  then have "\<not> is_space (hd ?u)" by (rule hd_dropWhile)
  ultimately show "\<not> is_space (hd (trim_space s))"
    using r by (simp add: trim_space_def hd_rev)
  from r have "\<not> is_space (hd (dropWhile is_space (rev ?u)))" by (rule hd_dropWhile)
  then show "\<not> is_space (last (trim_space s))"
    using r by (simp add: trim_space_def last_rev)
qed

lemma set_trim_space: "set (trim_space s) \<subseteq> set s"
  unfolding trim_space_def by (metis set_dropWhileD set_rev subsetI)

lemma split_comma_parts: "p \<in> set (split_comma s) \<Longrightarrow> CHR '','' \<notin> set p"
  by (induction s arbitrary: p) (auto split: list.splits if_splits)

lemma splitAddrs_plain: "\<forall>a \<in> set (splitAddrs s). plain_addr a"
proof
  fix a assume "a \<in> set (splitAddrs s)"
  then obtain p where p: "p \<in> set (split_comma s)" "a = trim_space p" "a \<noteq> []"
    by (auto simp: splitAddrs_def keep_addrs_eq split: if_splits)
  then show "plain_addr a"
    using trim_space_ends [of p] set_trim_space [of p] split_comma_parts [of p s]
    by (auto simp: plain_addr_def)
qed

lemma splitAddrs_join:
  assumes "\<forall>a \<in> set as. plain_addr a"
  shows "splitAddrs (join_comma as) = as"
proof (cases as)
  case (Cons a bs)
  with assms have "a \<noteq> []" by (simp add: plain_addr_def)
  then have "join_comma as \<noteq> []" using Cons by (cases bs) simp_all
  then have "splitAddrs (join_comma as) = keep_addrs (split_comma (join_comma as))"
    by (simp add: splitAddrs_def)
  also have "split_comma (join_comma as) = as"
    using assms Cons by (intro split_comma_join) (auto simp: plain_addr_def)
  also have "keep_addrs as = as" using assms by (rule keep_addrs_plain)
  finally show ?thesis .
qed (simp add: splitAddrs_def)

section \<open>Properties\<close>

text \<open>
  The replica's configuration. For a comma separated list of addresses without blanks around them, \<open>main\<close>
  starts a node with exactly these peers, or stops with the message for the first missing
  variable.
\<close>

lemma replicaMain_outcome:
  assumes "\<forall>a \<in> set as. plain_addr a"
  shows "replicaMain nodeID (join_comma as) gw =
    (if nodeID = [] then Inl ''NODE_ID is required''
     else if as = [] then Inl ''PEER_ADDRS is required''
     else if gw = [] then Inl ''GATEWAY_ADDR is required''
     else Inr (NewNode \<lparr>NodeID = nodeID, PeerAddrs = as, GatewayAddr = gw\<rparr>))"
  by (simp add: replicaMain_def replicaConfig_def splitAddrs_join [OF assms] Validate_def Let_def)

text \<open>
  Address lists as operators write them. Whatever the string, every address that \<open>splitAddrs\<close> returns is
  non-empty, has no comma in it and no blank at either end, and splitting the joined result again
  returns it unchanged.
\<close>

lemma splitAddrs_normal:
  "(\<forall>a \<in> set (splitAddrs s). plain_addr a) \<and> splitAddrs (join_comma (splitAddrs s)) = splitAddrs s"
  using splitAddrs_plain [of s] splitAddrs_join [of "splitAddrs s"] by blast

end
