(* ===== verification/LogMatching.thy ===== *)
theory LogMatching
  imports RaftLog
begin

text \<open>
  Log matching on lists of entries: two logs that have entries of the same term at the same
  position are equal up to that position. For logs that match, \<open>AppendEntries\<close> merges a slice of
  the leader's log into the follower's without losing anything the two logs share.
\<close>

definition matching :: "LogEntry list \<Rightarrow> LogEntry list \<Rightarrow> bool" where
  "matching xs ys \<longleftrightarrow>
     (\<forall>i. i < length xs \<longrightarrow> i < length ys \<longrightarrow> le_Term (xs ! i) = le_Term (ys ! i) \<longrightarrow>
        take (Suc i) xs = take (Suc i) ys)"

lemma matchingD:
  "matching xs ys \<Longrightarrow> i < length xs \<Longrightarrow> i < length ys \<Longrightarrow> le_Term (xs ! i) = le_Term (ys ! i) \<Longrightarrow>
   take (Suc i) xs = take (Suc i) ys"
  by (simp add: matching_def)

text \<open>The slice of a log that a request carries: \<open>m\<close> entries from position \<open>k\<close> on.\<close>

definition slice :: "nat \<Rightarrow> nat \<Rightarrow> 'a list \<Rightarrow> 'a list" where
  "slice k m xs = take m (drop k xs)"

lemma slice_Suc: "k < length xs \<Longrightarrow> slice k (Suc m) xs = xs ! k # slice (Suc k) m xs"
  by (simp add: slice_def Cons_nth_drop_Suc [symmetric])

lemma take_slice: "take k xs @ slice k m xs = take (k + m) xs"
  by (simp add: slice_def take_add)

lemma length_slice: "k + m \<le> length xs \<Longrightarrow> length (slice k m xs) = m"
  by (simp add: slice_def)

lemma positioned_slice: "indexed xs \<Longrightarrow> positioned k (slice k m xs)"
  by (auto simp: positioned_def slice_def indexed_def)

lemma merge_suffix_agree: "take (length new) old = new \<Longrightarrow> merge_suffix old new = old"
  by (induction old new rule: merge_suffix.induct) auto

lemma first_conflict_SomeD:
  "first_conflict old new = Some j \<Longrightarrow>
   j < length old \<and> j < length new \<and> le_Term (old ! j) \<noteq> le_Term (new ! j)"
  by (induction old new arbitrary: j rule: first_conflict.induct) (auto split: if_splits)

definition merged :: "nat \<Rightarrow> nat \<Rightarrow> LogEntry list \<Rightarrow> LogEntry list \<Rightarrow> LogEntry list" where
  "merged k m es ls = take k es @ merge_suffix (drop k es) (slice k m ls)"

text \<open>The merged log is the follower's own log or the leader's up to the end of the slice.\<close>

lemma merged_cases:
  assumes "matching es ls" and "take k es = take k ls" and "k \<le> length es" and "k + m \<le> length ls"
  shows "merged k m es ls = es \<and> take (k + m) es = take (k + m) ls \<or>
         merged k m es ls = take (k + m) ls"
  using assms
proof (induction m arbitrary: k)
  case 0
  have "merged k 0 es ls = es" by (simp add: merged_def slice_def)
  then show ?case using 0 by simp
next
  case (Suc m)
  have replaced: "take k es @ slice k (Suc m) ls = take (k + Suc m) ls"
    using Suc.prems(2) take_slice by metis
  show ?case
  proof (cases "k < length es")
    case False
    then show ?thesis using replaced by (simp add: merged_def)
  next
    case True
    then have split: "drop k es = es ! k # drop (Suc k) es" by (simp add: Cons_nth_drop_Suc)
    have k: "k < length ls" using Suc.prems(4) by simp
    show ?thesis
    proof (cases "le_Term (es ! k) = le_Term (ls ! k)")
      case differ: False
      then show ?thesis using replaced k by (simp add: merged_def split slice_Suc)
    next
      case same: True
      have "take (Suc k) es = take (Suc k) ls"
        by (rule matchingD [OF Suc.prems(1) True k same])
      moreover have "merged k (Suc m) es ls = merged (Suc k) m es ls"
        using True k same by (simp add: merged_def split slice_Suc take_Suc_conv_app_nth)
      ultimately show ?thesis
        using Suc.IH [of "Suc k"] Suc.prems(1,4) True by simp
    qed
  qed
qed

lemma merged_take:
  assumes "matching es ls" and "take k es = take k ls" and "k \<le> length es" and "k + m \<le> length ls"
  shows "take (k + m) (merged k m es ls) = take (k + m) ls" and "k + m \<le> length (merged k m es ls)"
  using merged_cases [OF assms] assms(4) take_eq_length [of "k + m" ls es] by auto

text \<open>What the two logs have in common survives the merge, and no conflict lies in it.\<close>

lemma merged_same:
  assumes "take (k + m) es = take (k + m) ls" and "k + m \<le> length ls"
  shows "merged k m es ls = es"
proof -
  have "drop k (take (k + m) es) = drop k (take (k + m) ls)" using assms(1) by simp
  then have "take m (drop k es) = slice k m ls" by (simp add: slice_def drop_take)
  moreover have "length (slice k m ls) = m" using assms(2) by (rule length_slice)
  ultimately show ?thesis by (simp add: merged_def merge_suffix_agree)
qed

lemma merged_keeps:
  assumes "matching es ls" and "take k es = take k ls" and "k \<le> length es" and "k + m \<le> length ls"
    and c: "take c es = take c ls" "c \<le> length es"
  shows "take c (merged k m es ls) = take c ls" and "c \<le> length (merged k m es ls)"
proof -
  consider "merged k m es ls = es" | "merged k m es ls = take (k + m) ls" "c \<le> k + m"
    | "merged k m es ls \<noteq> es" "k + m < c"
    using merged_cases [OF assms(1-4)] by linarith
  then have "take c (merged k m es ls) = take c ls \<and> c \<le> length (merged k m es ls)"
  proof cases
    case 1
    then show ?thesis using c by simp
  next
    case 2
    then show ?thesis using c assms(4) take_eq_length [of c es ls] by (simp add: min_absorb1)
  next
    case 3
    then have "take (k + m) es = take (k + m) ls" using c(1) take_eq_mono [of c es ls "k + m"] by simp
    then show ?thesis using 3 merged_same assms(4) by blast
  qed
  then show "take c (merged k m es ls) = take c ls" and "c \<le> length (merged k m es ls)" by simp_all
qed

lemma first_conflict_beyond:
  assumes "first_conflict (drop k es) (slice k m ls) = Some j" and "take c es = take c ls"
  shows "c \<le> k + j"
proof (rule ccontr)
  assume "\<not> c \<le> k + j"
  moreover from first_conflict_SomeD [OF assms(1)]
  have "k + j < length es" "k + j < length ls" "le_Term (es ! (k + j)) \<noteq> le_Term (ls ! (k + j))"
    by (auto simp: slice_def)
  ultimately show False using take_eq_nth [OF assms(2), of "k + j"] by simp
qed

text \<open>\<open>AppendEntries\<close> for a slice of the leader's log.\<close>

lemma AppendEntries_slice:
  assumes "indexed ls" and "k \<le> length (entries l)"
  shows "(snd (AppendEntries l (slice k m ls) c) = None \<and>
            fst (AppendEntries l (slice k m ls) c) = l\<lparr>entries := merged k m (entries l) ls\<rparr>) \<or>
         (AppendEntries l (slice k m ls) c = (l, Some TruncateCommitted) \<and>
          (\<exists>j. first_conflict (drop k (entries l)) (slice k m ls) = Some j \<and> int (k + j) \<le> c))"
proof (cases "\<exists>j. first_conflict (drop k (entries l)) (slice k m ls) = Some j \<and> int (k + j) \<le> c")
  case True
  then show ?thesis using AppendEntries_panics positioned_slice assms by blast
next
  case False
  then have "AppendEntries l (slice k m ls) c = (l\<lparr>entries := merged k m (entries l) ls\<rparr>, None)"
    unfolding merged_def
    by (intro AppendEntries_merge positioned_slice assms) auto
  then show ?thesis by simp
qed

lemma AppendEntries_slice_no_panic:
  assumes "indexed ls" and "k \<le> length (entries l)"
    and "take (nat c + 1) (entries l) = take (nat c + 1) ls"
  shows "AppendEntries l (slice k m ls) c = (l\<lparr>entries := merged k m (entries l) ls\<rparr>, None)"
proof -
  have "c < int (k + j)" if "first_conflict (drop k (entries l)) (slice k m ls) = Some j" for j
    using first_conflict_beyond [OF that assms(3)] by linarith
  then show ?thesis
    unfolding merged_def
    by (intro AppendEntries_merge positioned_slice assms)
qed

end
