(* ===== verification/Timed.thy ===== *)
theory Timed
  imports Prelude
begin

text \<open>
  Runs of components that are given as executable events, and components with a clock. An event that is not possible in a
  state gives \<open>None\<close>; a run is the list of its events. The locales state what the timed components share: a clock that
  some events move, and an alarm (a timer, a deadline) that is only ever set some span ahead.
\<close>

section \<open>Runs\<close>

fun run_events :: "('e \<Rightarrow> 's \<Rightarrow> 's option) \<Rightarrow> 'e list \<Rightarrow> 's \<Rightarrow> 's option" where
  "run_events ex [] s = Some s"
| "run_events ex (e # es) s = (case ex e s of None \<Rightarrow> None | Some s' \<Rightarrow> run_events ex es s')"

lemma run_events_append:
  "run_events ex (es @ fs) s = (case run_events ex es s of None \<Rightarrow> None | Some s' \<Rightarrow> run_events ex fs s')"
  by (induction es arbitrary: s) (auto split: option.splits)

lemma run_events_Cons:
  assumes "run_events ex (e # es) s = Some s'"
  obtains s1 where "ex e s = Some s1" and "run_events ex es s1 = Some s'"
  using assms by (auto split: option.splits)

text \<open>A state predicate that every event keeps, and a preorder that every event follows.\<close>

lemma run_events_invariant:
  assumes "run_events ex es s = Some s'" and "P s" and "\<And>e s s'. ex e s = Some s' \<Longrightarrow> P s \<Longrightarrow> P s'"
  shows "P s'"
  using assms(1,2)
proof (induction es arbitrary: s)
  case (Cons e es)
  from Cons.prems(1) obtain s1 where s1: "ex e s = Some s1" "run_events ex es s1 = Some s'" by (rule run_events_Cons)
  show ?case by (rule Cons.IH [OF s1(2) assms(3) [OF s1(1) Cons.prems(2)]])
qed simp

lemma run_events_progress:
  assumes "run_events ex es s = Some s'" and "P s" and "\<And>e s s'. ex e s = Some s' \<Longrightarrow> P s \<Longrightarrow> R s s'"
    and "\<And>s s'. R s s' \<Longrightarrow> P s'" and "\<And>s. P s \<Longrightarrow> R s s" and "\<And>r s t. R r s \<Longrightarrow> R s t \<Longrightarrow> R r t"
  shows "R s s'"
  using assms(1,2)
proof (induction es arbitrary: s)
  case (Cons e es)
  from Cons.prems(1) obtain s1 where s1: "ex e s = Some s1" "run_events ex es s1 = Some s'" by (rule run_events_Cons)
  note r = assms(3) [OF s1(1) Cons.prems(2)]
  from assms(6) [OF r Cons.IH [OF s1(2) assms(4) [OF r]]] show ?case .
qed (simp add: assms(5))

section \<open>Clocks\<close>

locale timed_system =
  fixes ex :: "'e \<Rightarrow> 's \<Rightarrow> 's option" and now :: "'s \<Rightarrow> int" and takes :: "'e \<Rightarrow> int"
  assumes event_time: "ex e s = Some s' \<Longrightarrow> now s' = now s + takes e \<and> 0 \<le> takes e"
begin

definition total :: "'e list \<Rightarrow> int" where
  "total es = sum_list (map takes es)"

lemma run_time: "run_events ex es s = Some s' \<Longrightarrow> now s' = now s + total es \<and> 0 \<le> total es"
proof (induction es arbitrary: s)
  case (Cons e es)
  from Cons.prems obtain s1 where s1: "ex e s = Some s1" "run_events ex es s1 = Some s'" by (rule run_events_Cons)
  from event_time [OF s1(1)] Cons.IH [OF s1(2)] show ?case by (simp add: total_def)
qed (simp add: total_def)

end

text \<open>An alarm: every event leaves it alone or sets it to at least \<open>span\<close> from now. It cannot go off before \<open>span\<close> has passed.\<close>

locale alarm_clock = timed_system ex now takes
  for ex :: "'e \<Rightarrow> 's \<Rightarrow> 's option" and now :: "'s \<Rightarrow> int" and takes :: "'e \<Rightarrow> int" +
  fixes alarm :: "'s \<Rightarrow> int" and span :: int
  assumes alarm_set: "ex e s = Some s' \<Longrightarrow> alarm s' = alarm s \<or> now s + span \<le> alarm s'"
begin

lemma alarm_not_before:
  "run_events ex es s = Some s' \<Longrightarrow> b \<le> alarm s \<Longrightarrow> b \<le> now s + span \<Longrightarrow> b \<le> alarm s'"
proof (induction es arbitrary: s)
  case (Cons e es)
  from Cons.prems(1) obtain s1 where s1: "ex e s = Some s1" "run_events ex es s1 = Some s'" by (rule run_events_Cons)
  show ?case
    by (rule Cons.IH [OF s1(2)]) (use alarm_set [OF s1(1)] event_time [OF s1(1)] Cons.prems(2,3) in auto)
qed simp

lemma alarm_after_span:
  assumes "run_events ex es s = Some s'" and "now s + span \<le> alarm s" and "alarm s' \<le> now s'"
  shows "span \<le> total es"
  using alarm_not_before [OF assms(1,2)] run_time [OF assms(1)] assms(3) by simp

end

end
