(* ===== verification/Cluster.thy ===== *)
theory Cluster
  imports ReplicaMain LogMatching Timed
begin

text \<open>
  A cluster of replicas that exchange the RPCs of \<open>rpc.go\<close> over an unreliable network. A request
  that was sent stays deliverable for ever and any number of times, an answer likewise, and
  both may also never arrive: loss, delay, duplication and reordering are all runs of the model.
  Every event runs one locked section or one channel operation of the code: the node operations are those of the theories
  \<open>RaftNode\<close>, \<open>Election\<close>, \<open>Replication\<close> and \<open>ReplicaMain\<close>. \<open>Apply a\<close> is the next action of \<open>a\<close>'s applier, wherever it is in its loop. A crashed replica is one that takes no further
  steps. A restart, which in this in-memory implementation forgets term, vote and log, is not
  an event here.

  An election's goroutines all finish before the election timer can fire again (\<open>startElection\<close>
  waits for them), so a node has at most one ballot under way: its term, the votes counted so
  far and the peers whose answer is still awaited.
\<close>

section \<open>State\<close>

record ballot =
  el_term :: int
  el_votes :: int
  el_pending :: "string set"

record cluster =
  members :: "string list"
  nodes :: "string \<Rightarrow> Node"
  ballots :: "string \<Rightarrow> ballot option"
  voteReqs :: "(string \<times> string \<times> VoteRequest) set"
  voteAcks :: "(string \<times> string \<times> VoteRequest \<times> VoteResponse) set"
  appendReqs :: "(string \<times> string \<times> AppendEntriesRequest) set"
  appendAcks :: "(string \<times> string \<times> AppendEntriesRequest \<times> AppendEntriesResponse) set"
  appliers :: "string \<Rightarrow> applier"
  notified :: "(string \<times> CommitNotification) list"

text \<open>A deployment: the address of each replica with its configuration.\<close>

type_synonym deployment = "(string \<times> Config) list"

definition deployment_ok :: "deployment \<Rightarrow> bool" where
  "deployment_ok d \<longleftrightarrow>
     distinct (map fst d) \<and> distinct (map (\<lambda>(a, c). NodeID c) d) \<and>
     list_all (\<lambda>(a, c). Validate c = None \<and> distinct (PeerAddrs c) \<and>
                        set (PeerAddrs c) = set (map fst d) - {a}) d"

definition emptyConfig :: Config where
  "emptyConfig = \<lparr>NodeID = [], PeerAddrs = [], GatewayAddr = []\<rparr>"

definition config_of :: "deployment \<Rightarrow> string \<Rightarrow> Config" where
  "config_of d a = (case map_of d a of Some c \<Rightarrow> c | None \<Rightarrow> emptyConfig)"

definition init_cluster :: "deployment \<Rightarrow> cluster" where
  "init_cluster d =
     \<lparr>members = map fst d, nodes = (\<lambda>a. NewNode (config_of d a)), ballots = (\<lambda>_. None),
      voteReqs = {}, voteAcks = {}, appendReqs = {}, appendAcks = {}, appliers = (\<lambda>_. AwaitTick), notified = []\<rparr>"

section \<open>Events\<close>

datatype event =
    Timeout string
  | RecvVote string string VoteRequest
  | VoteAnswer string string VoteRequest VoteResponse
  | VoteLost string string
  | ElectionEnd string
  | Stroke string StrokeEvent
  | SendAppend string string
  | RecvAppend string string AppendEntriesRequest
  | AppendAnswer string string AppendEntriesRequest AppendEntriesResponse
  | Apply string
  | Notify string

abbreviation set_node :: "cluster \<Rightarrow> string \<Rightarrow> Node \<Rightarrow> cluster" where
  "set_node s a n \<equiv> s\<lparr>nodes := (nodes s)(a := n)\<rparr>"

inductive cluster_step :: "cluster \<Rightarrow> event \<Rightarrow> cluster \<Rightarrow> bool" where
  Timeout:
    "a \<in> set (members s) \<Longrightarrow> ballots s a = None \<Longrightarrow>
     electionTimerFired (nodes s a) = Some (n, req) \<Longrightarrow>
     cluster_step s (Timeout a)
       ((set_node s a n)
          \<lparr>ballots := (ballots s)(a := Some \<lparr>el_term = vr_Term req, el_votes = 1,
                                              el_pending = set (peers n)\<rparr>),
           voteReqs := voteReqs s \<union> (\<lambda>p. (a, p, req)) ` set (peers n)\<rparr>)"
| RecvVote:
    "(c, v, req) \<in> voteReqs s \<Longrightarrow> HandleVoteRequest (nodes s v) req = (n, resp) \<Longrightarrow>
     cluster_step s (RecvVote c v req)
       ((set_node s v n)\<lparr>voteAcks := insert (c, v, req, resp) (voteAcks s)\<rparr>)"
| VoteAnswer:
    "ballots s c = Some b \<Longrightarrow> v \<in> el_pending b \<Longrightarrow> (c, v, req, resp) \<in> voteAcks s \<Longrightarrow>
     vr_Term req = el_term b \<Longrightarrow>
     requestVoteFromPeer (Some resp) (el_term b) (nodes s c, el_votes b) = (n, k) \<Longrightarrow>
     cluster_step s (VoteAnswer c v req resp)
       ((set_node s c n)
          \<lparr>ballots := (ballots s)(c \<mapsto> b\<lparr>el_votes := k, el_pending := el_pending b - {v}\<rparr>)\<rparr>)"
| VoteLost:
    "ballots s c = Some b \<Longrightarrow> v \<in> el_pending b \<Longrightarrow>
     requestVoteFromPeer None (el_term b) (nodes s c, el_votes b) = (n, k) \<Longrightarrow>
     cluster_step s (VoteLost c v)
       ((set_node s c n)
          \<lparr>ballots := (ballots s)(c \<mapsto> b\<lparr>el_votes := k, el_pending := el_pending b - {v}\<rparr>)\<rparr>)"
| ElectionEnd:
    "ballots s c = Some b \<Longrightarrow> el_pending b = {} \<Longrightarrow>
     startElection_finish (nodes s c) (el_term b) (el_votes b) = (n, won) \<Longrightarrow>
     cluster_step s (ElectionEnd c) ((set_node s c n)\<lparr>ballots := (ballots s)(c := None)\<rparr>)"
| Stroke:
    "a \<in> set (members s) \<Longrightarrow> HandleStroke (nodes s a) stroke = (n, err) \<Longrightarrow>
     cluster_step s (Stroke a stroke) (set_node s a n)"
| SendAppend:
    "a \<in> set (members s) \<Longrightarrow> p \<in> set (peers (nodes s a)) \<Longrightarrow>
     appendEntriesRequest (nodes s a) p = Some req \<Longrightarrow>
     cluster_step s (SendAppend a p) (s\<lparr>appendReqs := insert (a, p, req) (appendReqs s)\<rparr>)"
| RecvAppend:
    "(a, v, req) \<in> appendReqs s \<Longrightarrow> HandleAppendEntries (nodes s v) req = (n, r) \<Longrightarrow>
     cluster_step s (RecvAppend a v req)
       ((set_node s v n)
          \<lparr>appendAcks := (case r of Inl _ \<Rightarrow> appendAcks s
                          | Inr resp \<Rightarrow> insert (a, v, req, resp) (appendAcks s))\<rparr>)"
| AppendAnswer:
    "(a, v, req, resp) \<in> appendAcks s \<Longrightarrow>
     cluster_step s (AppendAnswer a v req resp)
       (set_node s a (appendEntriesAnswer (nodes s a) v req resp))"
| Apply:
    "a \<in> set (members s) \<Longrightarrow> runCommitApplier_step (nodes s a) (appliers s a) = Some (n, ap) \<Longrightarrow>
     cluster_step s (Apply a) ((set_node s a n)\<lparr>appliers := (appliers s)(a := ap)\<rparr>)"
| Notify:
    "a \<in> set (members s) \<Longrightarrow> runCommitNotifier_tick (nodes s a) = Some (n, post) \<Longrightarrow>
     cluster_step s (Notify a)
       ((set_node s a n)
          \<lparr>notified := notified s @ (case post of None \<Rightarrow> [] | Some cn \<Rightarrow> [(a, cn)])\<rparr>)"

inductive_cases TimeoutE [consumes 1]: "cluster_step s (Timeout a) s'"
inductive_cases RecvVoteE [consumes 1]: "cluster_step s (RecvVote c v req) s'"
inductive_cases VoteAnswerE [consumes 1]: "cluster_step s (VoteAnswer c v req resp) s'"
inductive_cases VoteLostE [consumes 1]: "cluster_step s (VoteLost c v) s'"
inductive_cases ElectionEndE [consumes 1]: "cluster_step s (ElectionEnd c) s'"
inductive_cases StrokeE [consumes 1]: "cluster_step s (Stroke a st) s'"
inductive_cases SendAppendE [consumes 1]: "cluster_step s (SendAppend a p) s'"
inductive_cases RecvAppendE [consumes 1]: "cluster_step s (RecvAppend a v req) s'"
inductive_cases AppendAnswerE [consumes 1]: "cluster_step s (AppendAnswer a v req resp) s'"
inductive_cases ApplyE [consumes 1]: "cluster_step s (Apply a) s'"
inductive_cases NotifyE [consumes 1]: "cluster_step s (Notify a) s'"

text \<open>\<open>reachable d k s\<close>: the cluster of deployment \<open>d\<close> is in state \<open>s\<close> after \<open>k\<close> events.\<close>

definition reachable :: "deployment \<Rightarrow> nat \<Rightarrow> cluster \<Rightarrow> bool" where
  "reachable d = lts_reach (\<lambda>s. s = init_cluster d) cluster_step"

text \<open>\<open>later s n s'\<close>: \<open>s'\<close> is reached from \<open>s\<close> by \<open>n\<close> further events.\<close>

definition later :: "cluster \<Rightarrow> nat \<Rightarrow> cluster \<Rightarrow> bool" where
  "later s = lts_reach (\<lambda>u. u = s) cluster_step"

lemma later_refl: "later s 0 s"
  by (simp add: later_def lts_reach.lts_start)

lemma init_reachable: "reachable d 0 (init_cluster d)"
  by (simp add: reachable_def lts_reach.lts_start)

section \<open>Running events\<close>

text \<open>
  The step relation as a function: an event that is not enabled gives \<open>None\<close>. It computes, so that
  concrete runs can be evaluated, and it is the step relation, so an event has one outcome.
\<close>

fun exec :: "event \<Rightarrow> cluster \<Rightarrow> cluster option" where
  "exec (Timeout a) s =
     (if a \<in> set (members s) \<and> ballots s a = None then
        (case electionTimerFired (nodes s a) of
           None \<Rightarrow> None
         | Some (n, req) \<Rightarrow>
             Some ((set_node s a n)
               \<lparr>ballots := (ballots s)(a := Some \<lparr>el_term = vr_Term req, el_votes = 1,
                                                   el_pending = set (peers n)\<rparr>),
                voteReqs := voteReqs s \<union> (\<lambda>p. (a, p, req)) ` set (peers n)\<rparr>))
      else None)"
| "exec (RecvVote c v req) s =
     (if (c, v, req) \<in> voteReqs s then
        (case HandleVoteRequest (nodes s v) req of
           (n, resp) \<Rightarrow> Some ((set_node s v n)\<lparr>voteAcks := insert (c, v, req, resp) (voteAcks s)\<rparr>))
      else None)"
| "exec (VoteAnswer c v req resp) s =
     (case ballots s c of
        None \<Rightarrow> None
      | Some b \<Rightarrow>
          if v \<in> el_pending b \<and> (c, v, req, resp) \<in> voteAcks s \<and> vr_Term req = el_term b then
            (case requestVoteFromPeer (Some resp) (el_term b) (nodes s c, el_votes b) of
               (n, k) \<Rightarrow> Some ((set_node s c n)
                 \<lparr>ballots := (ballots s)(c \<mapsto> b\<lparr>el_votes := k, el_pending := el_pending b - {v}\<rparr>)\<rparr>))
          else None)"
| "exec (VoteLost c v) s =
     (case ballots s c of
        None \<Rightarrow> None
      | Some b \<Rightarrow>
          if v \<in> el_pending b then
            (case requestVoteFromPeer None (el_term b) (nodes s c, el_votes b) of
               (n, k) \<Rightarrow> Some ((set_node s c n)
                 \<lparr>ballots := (ballots s)(c \<mapsto> b\<lparr>el_votes := k, el_pending := el_pending b - {v}\<rparr>)\<rparr>))
          else None)"
| "exec (ElectionEnd c) s =
     (case ballots s c of
        None \<Rightarrow> None
      | Some b \<Rightarrow>
          if el_pending b = {} then
            (case startElection_finish (nodes s c) (el_term b) (el_votes b) of
               (n, won) \<Rightarrow> Some ((set_node s c n)\<lparr>ballots := (ballots s)(c := None)\<rparr>))
          else None)"
| "exec (Stroke a stroke) s =
     (if a \<in> set (members s) then Some (set_node s a (fst (HandleStroke (nodes s a) stroke))) else None)"
| "exec (SendAppend a p) s =
     (if a \<in> set (members s) \<and> p \<in> set (peers (nodes s a)) then
        map_option (\<lambda>req. s\<lparr>appendReqs := insert (a, p, req) (appendReqs s)\<rparr>)
          (appendEntriesRequest (nodes s a) p)
      else None)"
| "exec (RecvAppend a v req) s =
     (if (a, v, req) \<in> appendReqs s then
        (case HandleAppendEntries (nodes s v) req of
           (n, r) \<Rightarrow> Some ((set_node s v n)
             \<lparr>appendAcks := (case r of Inl _ \<Rightarrow> appendAcks s
                             | Inr resp \<Rightarrow> insert (a, v, req, resp) (appendAcks s))\<rparr>))
      else None)"
| "exec (AppendAnswer a v req resp) s =
     (if (a, v, req, resp) \<in> appendAcks s
      then Some (set_node s a (appendEntriesAnswer (nodes s a) v req resp)) else None)"
| "exec (Apply a) s =
     (if a \<in> set (members s) then
        map_option (\<lambda>(n, ap). (set_node s a n)\<lparr>appliers := (appliers s)(a := ap)\<rparr>)
          (runCommitApplier_step (nodes s a) (appliers s a))
      else None)"
| "exec (Notify a) s =
     (if a \<in> set (members s) then
        map_option (\<lambda>(n, post). (set_node s a n)
            \<lparr>notified := notified s @ (case post of None \<Rightarrow> [] | Some cn \<Rightarrow> [(a, cn)])\<rparr>)
          (runCommitNotifier_tick (nodes s a))
      else None)"

lemma exec_sound:
  assumes "exec e s = Some s'"
  shows "cluster_step s e s'"
proof (cases e)
  case (Notify a)
  with assms obtain n post where "a \<in> set (members s)" "runCommitNotifier_tick (nodes s a) = Some (n, post)"
    and "s' = (set_node s a n)\<lparr>notified := notified s @ (case post of None \<Rightarrow> [] | Some cn \<Rightarrow> [(a, cn)])\<rparr>"
    by (auto simp del: fun_upd_apply split: if_splits)
  then show ?thesis unfolding Notify by (metis cluster_step.Notify)
next
  case (RecvAppend a v req)
  with assms obtain n r where "(a, v, req) \<in> appendReqs s" "HandleAppendEntries (nodes s v) req = (n, r)"
    and "s' = (set_node s v n)\<lparr>appendAcks := (case r of Inl _ \<Rightarrow> appendAcks s
                             | Inr resp \<Rightarrow> insert (a, v, req, resp) (appendAcks s))\<rparr>"
    by (auto simp del: fun_upd_apply split: if_splits prod.splits)
  then show ?thesis unfolding RecvAppend by (metis cluster_step.RecvAppend)
qed (use assms in \<open>auto intro!: cluster_step.intros simp: prod_eq_iff split: if_splits option.splits prod.splits\<close>)

lemma exec_complete: "cluster_step s e s' \<Longrightarrow> exec e s = Some s'"
  by (cases rule: cluster_step.cases) auto

abbreviation run :: "event list \<Rightarrow> cluster \<Rightarrow> cluster option" where
  "run \<equiv> run_events exec"

lemma run_reach:
  "run es s = Some s' \<Longrightarrow> lts_reach start cluster_step n s \<Longrightarrow> lts_reach start cluster_step (n + length es) s'"
proof (induction es arbitrary: s n)
  case (Cons e es)
  then obtain u where u: "exec e s = Some u" "run es u = Some s'" by (auto split: option.splits)
  have "lts_reach start cluster_step (Suc n) u"
    by (rule lts_reach.lts_step [OF Cons.prems(2) exec_sound [OF u(1)]])
  from Cons.IH [OF u(2) this] show ?case by simp
qed simp

lemma run_reachable: "run es (init_cluster d) = Some s \<Longrightarrow> reachable d (length es) s"
  unfolding reachable_def using run_reach [of es "init_cluster d" s _ 0] by (simp add: lts_reach.lts_start)

lemma run_later: "run es s = Some s' \<Longrightarrow> later s (length es) s'"
  unfolding later_def using run_reach [of es s s' _ 0] by (simp add: lts_reach.lts_start)

section \<open>Majorities\<close>

definition is_majority :: "'a list \<Rightarrow> 'a set \<Rightarrow> bool" where
  "is_majority ms Q \<longleftrightarrow> Q \<subseteq> set ms \<and> length ms < 2 * card Q"

interpretation maj: quorum_system "is_majority ms" for ms :: "'a list"
proof
  fix Q R :: "'a set"
  assume Q: "is_majority ms Q" and R: "is_majority ms R"
  show "Q \<inter> R \<noteq> {}"
  proof
    assume "Q \<inter> R = {}"
    moreover from Q R have "finite Q" "finite R"
      by (auto simp: is_majority_def intro: finite_subset)
    ultimately have "card Q + card R = card (Q \<union> R)" by (simp add: card_Un_disjoint)
    also have "\<dots> \<le> card (set ms)"
      using Q R by (intro card_mono) (auto simp: is_majority_def)
    also have "\<dots> \<le> length ms" by (rule card_length)
    finally show False using Q R by (simp add: is_majority_def)
  qed
qed

lemma majorityOf_is_majority:
  assumes "Q \<subseteq> set ms" and "length ms = length ps + 1"
    and "majorityOf (int (length ps) + 1) \<le> int (card Q)"
  shows "is_majority ms Q"
  using assms by (auto simp: is_majority_def majorityOf_def)

section \<open>History variables\<close>

text \<open>
  The proofs follow variables that record what has happened and that no step reads:
  \<^item> \<open>h_votes\<close>: the votes cast, as voter, term and candidate;
  \<^item> \<open>h_tally\<close>: the voters counted in the node's current ballot;
  \<^item> \<open>h_clog\<close>: the log with which a node entered a term as candidate;
  \<^item> \<open>h_lead\<close>: the leader of a term with the voters that elected it;
  \<^item> \<open>h_tlog\<close>: the log of a term's leader, as it was when that leader last wrote it;
  \<^item> \<open>h_acks\<close>: \<open>(v, t, i)\<close> when \<open>v\<close> has confirmed in term \<open>t\<close> to hold that leader's log up to \<open>i\<close>.
\<close>

record hist =
  h_votes :: "(string \<times> int \<times> string) set"
  h_tally :: "string \<Rightarrow> string set"
  h_clog :: "string \<Rightarrow> int \<Rightarrow> LogEntry list"
  h_lead :: "int \<Rightarrow> (string \<times> string set) option"
  h_tlog :: "int \<Rightarrow> LogEntry list"
  h_acks :: "(string \<times> int \<times> nat) set"

definition init_hist :: hist where
  "init_hist = \<lparr>h_votes = {}, h_tally = (\<lambda>_. {}), h_clog = (\<lambda>_ _. []), h_lead = (\<lambda>_. None),
                h_tlog = (\<lambda>t. if t = 0 then [sentinel] else []), h_acks = {}\<rparr>"

fun hist_upd :: "cluster \<Rightarrow> event \<Rightarrow> cluster \<Rightarrow> hist \<Rightarrow> hist" where
  "hist_upd s (Timeout a) s' h =
     (let t = currentTerm (nodes s' a)
      in h\<lparr>h_votes := insert (a, t, a) (h_votes h), h_tally := (h_tally h)(a := {a}),
           h_clog := (h_clog h)(a := (h_clog h a)(t := entries (nlog (nodes s' a))))\<rparr>)"
| "hist_upd s (RecvVote c v req) s' h =
     (if vp_VoteGranted (snd (HandleVoteRequest (nodes s v) req))
      then h\<lparr>h_votes := insert (v, vr_Term req, c) (h_votes h)\<rparr> else h)"
| "hist_upd s (VoteAnswer c v req resp) s' h =
     (if map_option el_votes (ballots s' c) = map_option el_votes (ballots s c) then h
      else h\<lparr>h_tally := (h_tally h)(c := insert v (h_tally h c))\<rparr>)"
| "hist_upd s (ElectionEnd c) s' h =
     (if nstate (nodes s c) \<noteq> Leader \<and> nstate (nodes s' c) = Leader
      then let t = currentTerm (nodes s' c)
           in h\<lparr>h_lead := (h_lead h)(t \<mapsto> (c, h_tally h c)),
                h_tlog := (h_tlog h)(t := entries (nlog (nodes s' c)))\<rparr>
      else h)"
| "hist_upd s (Stroke a st) s' h =
     (if nstate (nodes s a) = Leader
      then let t = currentTerm (nodes s' a); es = entries (nlog (nodes s' a))
           in h\<lparr>h_tlog := (h_tlog h)(t := es),
                h_acks := h_acks h \<union> {(a, t, i) | i. i < length es}\<rparr>
      else h)"
| "hist_upd s (RecvAppend a v req) s' h =
     (case snd (HandleAppendEntries (nodes s v) req) of
        Inl _ \<Rightarrow> h
      | Inr resp \<Rightarrow>
          if ap_Success resp
          then h\<lparr>h_acks := h_acks h \<union> {(v, ar_Term req, i) | i.
                              int i \<le> ar_PrevLogIndex req + int (length (ar_Entries req))}\<rparr>
          else h)"
| "hist_upd s _ s' h = h"

text \<open>
  The same steps with their history. The history is computed from the step, so it can always be
  recorded and restricts nothing.
\<close>

definition hstart :: "deployment \<Rightarrow> cluster \<times> hist \<Rightarrow> bool" where
  "hstart d sh \<longleftrightarrow> deployment_ok d \<and> sh = (init_cluster d, init_hist)"

definition hstep :: "cluster \<times> hist \<Rightarrow> event \<Rightarrow> cluster \<times> hist \<Rightarrow> bool" where
  "hstep sh e sh' \<longleftrightarrow>
     cluster_step (fst sh) e (fst sh') \<and> snd sh' = hist_upd (fst sh) e (fst sh') (snd sh)"

lemma reachable_hist:
  assumes "reachable d k s" and "deployment_ok d"
  shows "\<exists>h. lts_reach (hstart d) hstep k (s, h)"
  using assms(1) unfolding reachable_def
proof (induction rule: lts_reach.induct)
  case (lts_start s)
  then show ?case using assms(2) by (auto simp: hstart_def intro: lts_reach.lts_start)
next
  case (lts_step k s e s')
  then obtain h where "lts_reach (hstart d) hstep k (s, h)" by blast
  moreover have "hstep (s, h) e (s', hist_upd s e s' h)"
    using lts_step.hyps(2) by (simp add: hstep_def)
  ultimately show ?case by (blast intro: lts_reach.lts_step)
qed

end
