(* ===== verification/ClusterVotes.thy ===== *)
theory ClusterVotes
  imports Cluster
begin

text \<open>
  Votes and leaders. The code does not keep the textbook invariant "one vote per term": a
  candidate that hears from the leader of its own term goes through \<open>becomeFollower\<close>, which
  clears \<open>votedFor\<close>, and may then grant a second vote in that term. What holds instead, and is
  enough for at most one leader per term, is that the voters that elected a term's leader never
  vote for anyone else in that term: such a voter is not a candidate of the term, so nothing
  clears its vote, and the leader itself hears from no other leader of the term.
\<close>

section \<open>The invariant\<close>

text \<open>What no step changes: the members, their identifiers and their peers.\<close>

definition static_inv :: "deployment \<Rightarrow> cluster \<Rightarrow> bool" where
  "static_inv d s \<longleftrightarrow>
     members s = map fst d \<and>
     (\<forall>a. nid (nodes s a) = NodeID (config_of d a) \<and> peers (nodes s a) = PeerAddrs (config_of d a))"

definition terms_bounded :: "nat \<Rightarrow> cluster \<Rightarrow> bool" where
  "terms_bounded k s \<longleftrightarrow>
     (\<forall>v. 0 \<le> currentTerm (nodes s v) \<and> currentTerm (nodes s v) \<le> int k) \<and>
     (\<forall>c v req resp. (c, v, req, resp) \<in> voteAcks s \<longrightarrow> vp_Term resp \<le> int k) \<and>
     (\<forall>a v req resp. (a, v, req, resp) \<in> appendAcks s \<longrightarrow> ap_Term resp \<le> int k)"

text \<open>Votes recorded in the history, against the voters' states.\<close>

definition votes_inv :: "cluster \<Rightarrow> hist \<Rightarrow> bool" where
  "votes_inv s h \<longleftrightarrow>
     (\<forall>v t c. (v, t, c) \<in> h_votes h \<longrightarrow>
        1 \<le> t \<and> t \<le> currentTerm (nodes s v) \<and> v \<in> set (members s) \<and> c \<in> set (members s)) \<and>
     (\<forall>v. nstate (nodes s v) \<noteq> Follower \<longrightarrow>
        votedFor (nodes s v) = nid (nodes s v) \<and> (v, currentTerm (nodes s v), v) \<in> h_votes h)"

text \<open>As long as a term has no leader, every node votes at most once in it.\<close>

definition leaderless_inv :: "cluster \<Rightarrow> hist \<Rightarrow> bool" where
  "leaderless_inv s h \<longleftrightarrow>
     (\<forall>v t c c'. h_lead h t = None \<longrightarrow> (v, t, c) \<in> h_votes h \<longrightarrow> (v, t, c') \<in> h_votes h \<longrightarrow> c = c') \<and>
     (\<forall>v t c. h_lead h t = None \<longrightarrow> (v, t, c) \<in> h_votes h \<longrightarrow> currentTerm (nodes s v) = t \<longrightarrow>
        votedFor (nodes s v) = nid (nodes s c))"

text \<open>Once a term has a leader, the voters that elected it stay with it.\<close>

definition leader_inv :: "cluster \<Rightarrow> hist \<Rightarrow> bool" where
  "leader_inv s h \<longleftrightarrow>
     (\<forall>t l Q. h_lead h t = Some (l, Q) \<longrightarrow>
        is_majority (members s) Q \<and> l \<in> Q \<and>
        (\<forall>q \<in> Q. (q, t, l) \<in> h_votes h \<and> (\<forall>c. (q, t, c) \<in> h_votes h \<longrightarrow> c = l) \<and>
           (currentTerm (nodes s q) = t \<longrightarrow>
              votedFor (nodes s q) = nid (nodes s l) \<and> (q \<noteq> l \<longrightarrow> nstate (nodes s q) = Follower))) \<and>
        (currentTerm (nodes s l) = t \<longrightarrow> nstate (nodes s l) = Leader)) \<and>
     (\<forall>v. nstate (nodes s v) = Leader \<longrightarrow> (\<exists>Q. h_lead h (currentTerm (nodes s v)) = Some (v, Q)))"

text \<open>The messages in flight and the ballots under way.\<close>

definition vote_msgs_inv :: "cluster \<Rightarrow> hist \<Rightarrow> bool" where
  "vote_msgs_inv s h \<longleftrightarrow>
     (\<forall>c v req. (c, v, req) \<in> voteReqs s \<longrightarrow>
        vr_CandidateID req = nid (nodes s c) \<and> v \<noteq> c \<and> v \<in> set (members s) \<and>
        (c, vr_Term req, c) \<in> h_votes h) \<and>
     (\<forall>c v req resp. (c, v, req, resp) \<in> voteAcks s \<longrightarrow>
        (c, v, req) \<in> voteReqs s \<and> (vp_VoteGranted resp \<longrightarrow> (v, vr_Term req, c) \<in> h_votes h))"

definition ballots_inv :: "cluster \<Rightarrow> hist \<Rightarrow> bool" where
  "ballots_inv s h \<longleftrightarrow>
     (\<forall>c b. ballots s c = Some b \<longrightarrow>
        el_votes b = int (card (h_tally h c)) \<and> h_tally h c \<inter> el_pending b = {} \<and>
        finite (h_tally h c) \<and> c \<in> h_tally h c \<and>
        (\<forall>w \<in> h_tally h c. (w, el_term b, c) \<in> h_votes h))"

definition append_msgs_inv :: "cluster \<Rightarrow> hist \<Rightarrow> bool" where
  "append_msgs_inv s h \<longleftrightarrow>
     (\<forall>a v req. (a, v, req) \<in> appendReqs s \<longrightarrow>
        v \<noteq> a \<and> v \<in> set (members s) \<and> (\<exists>Q. h_lead h (ar_Term req) = Some (a, Q))) \<and>
     (\<forall>a v req resp. (a, v, req, resp) \<in> appendAcks s \<longrightarrow> (a, v, req) \<in> appendReqs s)"

definition vinv :: "deployment \<Rightarrow> nat \<Rightarrow> cluster \<Rightarrow> hist \<Rightarrow> bool" where
  "vinv d k s h \<longleftrightarrow>
     deployment_ok d \<and> static_inv d s \<and> terms_bounded k s \<and> votes_inv s h \<and>
     leaderless_inv s h \<and> leader_inv s h \<and> vote_msgs_inv s h \<and> ballots_inv s h \<and>
     append_msgs_inv s h"

section \<open>The deployment\<close>

lemma config_of_member:
  assumes "a \<in> set (map fst d)"
  shows "(a, config_of d a) \<in> set d"
proof -
  from assms obtain c where "map_of d a = Some c"
    by (metis list.set_map map_of_eq_None_iff not_Some_eq)
  then show ?thesis by (simp add: config_of_def map_of_SomeD)
qed

lemma deployment_member:
  assumes "deployment_ok d" and "a \<in> set (map fst d)"
  shows "NodeID (config_of d a) \<noteq> []" and "distinct (PeerAddrs (config_of d a))"
    and "set (PeerAddrs (config_of d a)) = set (map fst d) - {a}"
proof -
  have "\<forall>(a, c) \<in> set d. Validate c = None \<and> distinct (PeerAddrs c)
          \<and> set (PeerAddrs c) = set (map fst d) - {a}"
    using assms(1) by (simp add: deployment_ok_def list_all_iff)
  with config_of_member [OF assms(2)]
  have "Validate (config_of d a) = None" and dp: "distinct (PeerAddrs (config_of d a))"
    and sp: "set (PeerAddrs (config_of d a)) = set (map fst d) - {a}"
    by blast+
  then show "NodeID (config_of d a) \<noteq> []" by (auto simp: Validate_def split: if_splits)
  show "distinct (PeerAddrs (config_of d a))" by (rule dp)
  show "set (PeerAddrs (config_of d a)) = set (map fst d) - {a}" by (rule sp)
qed

lemma deployment_peer_count:
  assumes "deployment_ok d" and "a \<in> set (map fst d)"
  shows "length (map fst d) = length (PeerAddrs (config_of d a)) + 1"
proof -
  have "length (PeerAddrs (config_of d a)) = card (set (map fst d) - {a})"
    by (metis assms deployment_member(2,3) distinct_card)
  also have "\<dots> = card (set (map fst d)) - 1" using assms(2) by simp
  also have "card (set (map fst d)) = length (map fst d)"
    using assms(1) unfolding deployment_ok_def by (metis distinct_card)
  finally show ?thesis using assms(2) by (cases d) auto
qed

lemma deployment_ids:
  assumes "deployment_ok d" and "a \<in> set (map fst d)" and "b \<in> set (map fst d)"
    and "NodeID (config_of d a) = NodeID (config_of d b)"
  shows "a = b"
proof -
  have "distinct (map (\<lambda>(a, c). NodeID c) d)" using assms(1) by (simp add: deployment_ok_def)
  then have "inj_on (\<lambda>(a, c). NodeID c) (set d)" by (simp add: distinct_map)
  from inj_onD [OF this _ config_of_member [OF assms(2)] config_of_member [OF assms(3)]] assms(4)
  show ?thesis by simp
qed

section \<open>Moves that keep the invariant\<close>

lemmas vinv_parts = static_inv_def terms_bounded_def votes_inv_def leaderless_inv_def
  leader_inv_def vote_msgs_inv_def ballots_inv_def append_msgs_inv_def

lemma vinvI:
  assumes "deployment_ok d" and "static_inv d s" and "terms_bounded k s" and "votes_inv s h"
    and "leaderless_inv s h" and "leader_inv s h" and "vote_msgs_inv s h" and "ballots_inv s h"
    and "append_msgs_inv s h"
  shows "vinv d k s h"
  using assms by (simp add: vinv_def)

lemma vinvD:
  assumes "vinv d k s h"
  shows "deployment_ok d" and "static_inv d s" and "terms_bounded k s" and "votes_inv s h"
    and "leaderless_inv s h" and "leader_inv s h" and "vote_msgs_inv s h" and "ballots_inv s h"
    and "append_msgs_inv s h"
  using assms by (simp_all add: vinv_def)

lemma terms_bounded_Suc: "terms_bounded k s \<Longrightarrow> terms_bounded (Suc k) s"
proof -
  have le: "x \<le> int (Suc k)" if "x \<le> int k" for x using that by simp
  assume "terms_bounded k s"
  then show ?thesis unfolding terms_bounded_def by (blast intro: le)
qed

lemma terms_boundedD:
  assumes "terms_bounded k s"
  shows "0 \<le> currentTerm (nodes s v)" and "currentTerm (nodes s v) \<le> int k"
    and "(c, v, req, resp) \<in> voteAcks s \<Longrightarrow> vp_Term resp \<le> int k"
    and "(a, v, areq, aresp) \<in> appendAcks s \<Longrightarrow> ap_Term aresp \<le> int k"
  using assms unfolding terms_bounded_def by blast+

lemma votes_invD:
  assumes "votes_inv s h"
  shows "(v, t, c) \<in> h_votes h \<Longrightarrow> 1 \<le> t" and "(v, t, c) \<in> h_votes h \<Longrightarrow> t \<le> currentTerm (nodes s v)"
    and "(v, t, c) \<in> h_votes h \<Longrightarrow> v \<in> set (members s)"
    and "(v, t, c) \<in> h_votes h \<Longrightarrow> c \<in> set (members s)"
    and "nstate (nodes s v) \<noteq> Follower \<Longrightarrow> votedFor (nodes s v) = nid (nodes s v)"
    and "nstate (nodes s v) \<noteq> Follower \<Longrightarrow> (v, currentTerm (nodes s v), v) \<in> h_votes h"
  using assms unfolding votes_inv_def by blast+

lemma votes_invI:
  assumes "\<And>v t c. (v, t, c) \<in> h_votes h \<Longrightarrow> 1 \<le> t \<and> v \<in> set (members s) \<and> c \<in> set (members s)"
    and "\<And>v t c. (v, t, c) \<in> h_votes h \<Longrightarrow> t \<le> currentTerm (nodes s v)"
    and "\<And>v. nstate (nodes s v) \<noteq> Follower \<Longrightarrow>
           votedFor (nodes s v) = nid (nodes s v) \<and> (v, currentTerm (nodes s v), v) \<in> h_votes h"
  shows "votes_inv s h"
  using assms unfolding votes_inv_def by blast

lemma leaderless_invD:
  assumes "leaderless_inv s h" and "h_lead h t = None" and "(v, t, c) \<in> h_votes h"
  shows "(v, t, c') \<in> h_votes h \<Longrightarrow> c' = c"
    and "currentTerm (nodes s v) = t \<Longrightarrow> votedFor (nodes s v) = nid (nodes s c)"
  using assms unfolding leaderless_inv_def by blast+

lemma leaderless_invI:
  assumes "\<And>v t c c'. h_lead h t = None \<Longrightarrow> (v, t, c) \<in> h_votes h \<Longrightarrow> (v, t, c') \<in> h_votes h \<Longrightarrow> c = c'"
    and "\<And>v t c. h_lead h t = None \<Longrightarrow> (v, t, c) \<in> h_votes h \<Longrightarrow> currentTerm (nodes s v) = t \<Longrightarrow>
           votedFor (nodes s v) = nid (nodes s c)"
  shows "leaderless_inv s h"
  using assms unfolding leaderless_inv_def by blast

lemma ballots_invD:
  assumes "ballots_inv s h" and "ballots s c = Some b"
  shows "el_votes b = int (card (h_tally h c))" and "h_tally h c \<inter> el_pending b = {}"
    and "finite (h_tally h c)" and "c \<in> h_tally h c"
    and "w \<in> h_tally h c \<Longrightarrow> (w, el_term b, c) \<in> h_votes h"
  using assms unfolding ballots_inv_def by blast+

lemma ballots_invI:
  assumes "\<And>c b. ballots s c = Some b \<Longrightarrow>
        el_votes b = int (card (h_tally h c)) \<and> h_tally h c \<inter> el_pending b = {} \<and>
        finite (h_tally h c) \<and> c \<in> h_tally h c"
    and "\<And>c b w. ballots s c = Some b \<Longrightarrow> w \<in> h_tally h c \<Longrightarrow> (w, el_term b, c) \<in> h_votes h"
  shows "ballots_inv s h"
  using assms unfolding ballots_inv_def by blast

lemma ballots_inv_frame:
  assumes "ballots_inv s h" and "ballots s' = ballots s" and "h_tally h' = h_tally h"
    and "h_votes h \<subseteq> h_votes h'"
  shows "ballots_inv s' h'"
proof (rule ballots_invI)
  fix c b w
  assume "ballots s' c = Some b"
  then have b: "ballots s c = Some b" using assms(2) by simp
  note B = ballots_invD [OF assms(1) b, folded assms(3)]
  show "el_votes b = int (card (h_tally h' c)) \<and> h_tally h' c \<inter> el_pending b = {} \<and>
        finite (h_tally h' c) \<and> c \<in> h_tally h' c"
    using B(1-4) by blast
  show "w \<in> h_tally h' c \<Longrightarrow> (w, el_term b, c) \<in> h_votes h'" using B(5) assms(4) by blast
qed

lemma append_msgs_invD:
  assumes "append_msgs_inv s h"
  shows "(a, v, req) \<in> appendReqs s \<Longrightarrow> v \<noteq> a"
    and "(a, v, req) \<in> appendReqs s \<Longrightarrow> v \<in> set (members s)"
    and "(a, v, req) \<in> appendReqs s \<Longrightarrow> \<exists>Q. h_lead h (ar_Term req) = Some (a, Q)"
    and "(a, v, req, resp) \<in> appendAcks s \<Longrightarrow> (a, v, req) \<in> appendReqs s"
  using assms unfolding append_msgs_inv_def by blast+

lemma vinv_mono: "vinv d k s h \<Longrightarrow> vinv d (Suc k) s h"
  by (simp add: vinv_def terms_bounded_Suc)

lemma vinv_irrelevant [simp]:
  "vinv d k (s\<lparr>notified := x\<rparr>) h = vinv d k s h"
  "vinv d k (s\<lparr>appliers := aps\<rparr>) h = vinv d k s h"
  "vinv d k s (h\<lparr>h_clog := cl\<rparr>) = vinv d k s h"
  "vinv d k s (h\<lparr>h_tlog := tg\<rparr>) = vinv d k s h"
  "vinv d k s (h\<lparr>h_acks := ac\<rparr>) = vinv d k s h"
  by (simp_all add: vinv_def vinv_parts)

text \<open>The members of a reachable cluster, their identifiers and their peers.\<close>

lemma vinv_ids:
  assumes "vinv d k s h" and "a \<in> set (members s)"
  shows "nid (nodes s a) \<noteq> []"
    and "b \<in> set (members s) \<Longrightarrow> nid (nodes s a) = nid (nodes s b) \<Longrightarrow> a = b"
    and "set (peers (nodes s a)) = set (members s) - {a}"
    and "length (members s) = length (peers (nodes s a)) + 1"
    and "distinct (peers (nodes s a))"
proof -
  from assms have st: "static_inv d s" and d: "deployment_ok d" by (simp_all add: vinv_def)
  then have m: "members s = map fst d" by (simp add: static_inv_def)
  from st d assms(2) show "nid (nodes s a) \<noteq> []"
    by (simp only: static_inv_def m) (blast dest: deployment_member(1))
  show "b \<in> set (members s) \<Longrightarrow> nid (nodes s a) = nid (nodes s b) \<Longrightarrow> a = b"
    using st d assms(2) by (simp only: static_inv_def m) (blast dest: deployment_ids)
  show "set (peers (nodes s a)) = set (members s) - {a}"
    using st deployment_member(3) [OF d assms(2) [unfolded m]] by (simp only: static_inv_def m)
  show "length (members s) = length (peers (nodes s a)) + 1"
    using st deployment_peer_count [OF d assms(2) [unfolded m]] by (simp only: static_inv_def m)
  show "distinct (peers (nodes s a))"
    using st deployment_member(2) [OF d assms(2) [unfolded m]] by (simp only: static_inv_def)
qed

text \<open>
  A node that keeps term, vote and role, or that follows a higher term, keeps the invariant
  whatever else changes in it.
\<close>

definition node_move :: "Node \<Rightarrow> Node \<Rightarrow> bool" where
  "node_move m n \<longleftrightarrow> nid n = nid m \<and> peers n = peers m \<and>
     (currentTerm n = currentTerm m \<and> votedFor n = votedFor m \<and> nstate n = nstate m \<or>
      currentTerm m < currentTerm n \<and> nstate n = Follower)"

lemma node_move_refl [simp]: "node_move n n"
  by (simp add: node_move_def)

definition moves :: "cluster \<Rightarrow> cluster \<Rightarrow> bool" where
  "moves s s' \<longleftrightarrow> members s' = members s \<and> (\<forall>a. node_move (nodes s a) (nodes s' a))"

lemma moves_static:
  "moves s s' \<Longrightarrow> nid (nodes s' a) = nid (nodes s a)"
  "moves s s' \<Longrightarrow> peers (nodes s' a) = peers (nodes s a)"
  "moves s s' \<Longrightarrow> members s' = members s"
  by (auto simp: moves_def node_move_def)

lemma moves_up: "moves s s' \<Longrightarrow> currentTerm (nodes s a) \<le> currentTerm (nodes s' a)"
proof -
  assume "moves s s'"
  then have "node_move (nodes s a) (nodes s' a)" by (simp add: moves_def)
  then show ?thesis by (auto simp: node_move_def)
qed

lemma moves_old:
  assumes "moves s s'" and "currentTerm (nodes s' a) \<le> currentTerm (nodes s a)"
  shows "currentTerm (nodes s a) = currentTerm (nodes s' a)"
    and "votedFor (nodes s' a) = votedFor (nodes s a)" and "nstate (nodes s' a) = nstate (nodes s a)"
  using assms by (auto simp: moves_def node_move_def dest: spec [of _ a])

lemma moves_active:
  assumes "moves s s'" and "nstate (nodes s' a) \<noteq> Follower"
  shows "currentTerm (nodes s' a) = currentTerm (nodes s a)"
    and "votedFor (nodes s' a) = votedFor (nodes s a)" and "nstate (nodes s' a) = nstate (nodes s a)"
  using assms by (auto simp: moves_def node_move_def dest: spec [of _ a])

lemma moves_votes_inv: "moves s s' \<Longrightarrow> votes_inv s h \<Longrightarrow> votes_inv s' h"
  using moves_up [of s s'] moves_active [of s s'] moves_static [of s s']
  by (simp add: votes_inv_def) (meson order_trans)

lemma moves_voter_old:
  assumes "moves s s'" and "votes_inv s h" and "(v, t, c) \<in> h_votes h" and "currentTerm (nodes s' v) = t"
  shows "currentTerm (nodes s v) = t" and "votedFor (nodes s' v) = votedFor (nodes s v)"
    and "nstate (nodes s' v) = nstate (nodes s v)"
proof -
  have "currentTerm (nodes s' v) \<le> currentTerm (nodes s v)"
    using assms(2-4) by (auto simp: votes_inv_def)
  from moves_old [OF assms(1) this] assms(4)
  show "currentTerm (nodes s v) = t" and "votedFor (nodes s' v) = votedFor (nodes s v)"
    and "nstate (nodes s' v) = nstate (nodes s v)"
    by simp_all
qed

lemma moves_leaderless_inv:
  "moves s s' \<Longrightarrow> votes_inv s h \<Longrightarrow> leaderless_inv s h \<Longrightarrow> leaderless_inv s' h"
proof -
  assume m: "moves s s'" and v: "votes_inv s h" and l: "leaderless_inv s h"
  have "votedFor (nodes s' w) = nid (nodes s' c)"
    if "h_lead h t = None" "(w, t, c) \<in> h_votes h" "currentTerm (nodes s' w) = t" for w t c
    using moves_voter_old [OF m v that(2,3)] moves_static(1) [OF m, of c] l that
    by (simp add: leaderless_inv_def)
  with l show ?thesis unfolding leaderless_inv_def by blast
qed

lemma leader_invD:
  assumes "leader_inv s h" and "h_lead h t = Some (l, Q)"
  shows "is_majority (members s) Q" and "l \<in> Q"
    and "q \<in> Q \<Longrightarrow> (q, t, l) \<in> h_votes h"
    and "q \<in> Q \<Longrightarrow> (q, t, c) \<in> h_votes h \<Longrightarrow> c = l"
    and "q \<in> Q \<Longrightarrow> currentTerm (nodes s q) = t \<Longrightarrow> votedFor (nodes s q) = nid (nodes s l)"
    and "q \<in> Q \<Longrightarrow> currentTerm (nodes s q) = t \<Longrightarrow> q \<noteq> l \<Longrightarrow> nstate (nodes s q) = Follower"
    and "currentTerm (nodes s l) = t \<Longrightarrow> nstate (nodes s l) = Leader"
  using assms unfolding leader_inv_def by blast+

lemma leader_invI:
  assumes "\<And>t l Q. h_lead h t = Some (l, Q) \<Longrightarrow> is_majority (members s) Q \<and> l \<in> Q"
    and "\<And>t l Q q. h_lead h t = Some (l, Q) \<Longrightarrow> q \<in> Q \<Longrightarrow> (q, t, l) \<in> h_votes h"
    and "\<And>t l Q q c. h_lead h t = Some (l, Q) \<Longrightarrow> q \<in> Q \<Longrightarrow> (q, t, c) \<in> h_votes h \<Longrightarrow> c = l"
    and "\<And>t l Q q. h_lead h t = Some (l, Q) \<Longrightarrow> q \<in> Q \<Longrightarrow> currentTerm (nodes s q) = t \<Longrightarrow>
           votedFor (nodes s q) = nid (nodes s l) \<and> (q \<noteq> l \<longrightarrow> nstate (nodes s q) = Follower)"
    and "\<And>t l Q. h_lead h t = Some (l, Q) \<Longrightarrow> currentTerm (nodes s l) = t \<Longrightarrow> nstate (nodes s l) = Leader"
    and "\<And>v. nstate (nodes s v) = Leader \<Longrightarrow> \<exists>Q. h_lead h (currentTerm (nodes s v)) = Some (v, Q)"
  shows "leader_inv s h"
  unfolding leader_inv_def using assms by blast

lemma leader_inv_role:
  "leader_inv s h \<Longrightarrow> nstate (nodes s v) = Leader \<Longrightarrow> \<exists>Q. h_lead h (currentTerm (nodes s v)) = Some (v, Q)"
  by (simp add: leader_inv_def)

lemma moves_leader_inv:
  assumes "moves s s'" and "votes_inv s h" and "leader_inv s h"
  shows "leader_inv s' h"
proof (rule leader_invI)
  note D = leader_invD [OF assms(3)] and st = moves_static [OF assms(1)]
  note old = moves_voter_old [OF assms(1,2)]
  fix t l Q q c
  assume L: "h_lead h t = Some (l, Q)"
  show "is_majority (members s') Q \<and> l \<in> Q" using D(1,2) [OF L] st by simp
  assume q: "q \<in> Q"
  show "(q, t, l) \<in> h_votes h" by (rule D(3) [OF L q])
  show "(q, t, c) \<in> h_votes h \<Longrightarrow> c = l" by (rule D(4) [OF L q])
  show "currentTerm (nodes s' q) = t \<Longrightarrow>
        votedFor (nodes s' q) = nid (nodes s' l) \<and> (q \<noteq> l \<longrightarrow> nstate (nodes s' q) = Follower)"
    using D(3,5,6) [OF L q] old [of q t l] st by simp
next
  fix t l Q
  assume L: "h_lead h t = Some (l, Q)" and t: "currentTerm (nodes s' l) = t"
  from leader_invD(2,3) [OF assms(3) L] have "(l, t, l) \<in> h_votes h" by blast
  from moves_voter_old [OF assms(1,2) this t] leader_invD(7) [OF assms(3) L]
  show "nstate (nodes s' l) = Leader" by simp
next
  fix v assume "nstate (nodes s' v) = Leader"
  with moves_active [OF assms(1), of v] leader_inv_role [OF assms(3), of v]
  show "\<exists>Q. h_lead h (currentTerm (nodes s' v)) = Some (v, Q)" by simp
qed

lemma moves_static_inv: "moves s s' \<Longrightarrow> static_inv d s \<Longrightarrow> static_inv d s'"
  by (simp add: static_inv_def moves_static)

lemma moves_vote_msgs_inv:
  "moves s s' \<Longrightarrow> voteReqs s' = voteReqs s \<Longrightarrow> voteAcks s' = voteAcks s \<Longrightarrow>
   vote_msgs_inv s h \<Longrightarrow> vote_msgs_inv s' h"
  by (simp add: vote_msgs_inv_def moves_static)

lemma moves_append_msgs_inv:
  "moves s s' \<Longrightarrow> appendReqs s' = appendReqs s \<Longrightarrow> appendAcks s' = appendAcks s \<Longrightarrow>
   append_msgs_inv s h \<Longrightarrow> append_msgs_inv s' h"
  by (simp add: append_msgs_inv_def moves_static)

lemma terms_bounded_set_node:
  "terms_bounded k s \<Longrightarrow> 0 \<le> currentTerm n \<Longrightarrow> currentTerm n \<le> int k \<Longrightarrow>
   terms_bounded k (set_node s v n)"
  by (simp add: terms_bounded_def)

lemma vinv_move:
  assumes inv: "vinv d k s h" and mv: "node_move (nodes s v) n" and b: "currentTerm n \<le> int k"
  shows "vinv d k (set_node s v n) h"
proof -
  let ?s = "set_node s v n"
  have m: "moves s ?s" using mv by (simp add: moves_def)
  have "currentTerm (nodes s v) \<le> currentTerm n" using moves_up [OF m, of v] by simp
  moreover have "0 \<le> currentTerm (nodes s v)" using inv by (simp add: vinv_def terms_bounded_def)
  ultimately have "terms_bounded k ?s"
    using inv b by (intro terms_bounded_set_node) (simp_all add: vinv_def)
  with vinvD [OF inv] show ?thesis
    by (intro vinvI moves_static_inv [OF m] moves_votes_inv [OF m] moves_leaderless_inv [OF m]
        moves_leader_inv [OF m] moves_vote_msgs_inv [OF m] moves_append_msgs_inv [OF m])
      (auto intro: ballots_inv_frame)
qed

section \<open>The events\<close>

text \<open>A vote is granted: the voter's record, once its term is that of the request.\<close>

definition grants :: "cluster \<Rightarrow> string \<Rightarrow> string \<Rightarrow> Node \<Rightarrow> bool" where
  "grants s v c n \<longleftrightarrow>
     (votedFor (nodes s v) = [] \<or> votedFor (nodes s v) = nid (nodes s c)) \<and>
     c \<in> set (members s) \<and> v \<in> set (members s) \<and> v \<noteq> c \<and>
     1 \<le> currentTerm (nodes s v) \<and> nid n = nid (nodes s v) \<and> peers n = peers (nodes s v) \<and>
     currentTerm n = currentTerm (nodes s v) \<and> nstate n = nstate (nodes s v) \<and>
     votedFor n = nid (nodes s c)"

definition with_vote :: "hist \<Rightarrow> string \<Rightarrow> int \<Rightarrow> string \<Rightarrow> hist" where
  "with_vote h v t c = h\<lparr>h_votes := insert (v, t, c) (h_votes h)\<rparr>"

lemma with_vote_simps [simp]:
  "h_votes (with_vote h v t c) = insert (v, t, c) (h_votes h)"
  "h_lead (with_vote h v t c) = h_lead h" "h_tally (with_vote h v t c) = h_tally h"
  "h_tlog (with_vote h v t c) = h_tlog h" "h_clog (with_vote h v t c) = h_clog h"
  "h_acks (with_vote h v t c) = h_acks h"
  by (simp_all add: with_vote_def)

lemma grants_follower:
  assumes inv: "vinv d k s h" and g: "grants s v c n"
  shows "nstate (nodes s v) = Follower"
proof (rule ccontr)
  assume "nstate (nodes s v) \<noteq> Follower"
  then have "votedFor (nodes s v) = nid (nodes s v)"
    using vinvD(4) [OF inv] by (simp add: votes_inv_def)
  with g vinv_ids(1,2) [OF inv, of v] show False unfolding grants_def by metis
qed

lemma grants_same_candidate:
  assumes inv: "vinv d k s h" and g: "grants s v c n"
    and "(v, t, c') \<in> h_votes h" and "votedFor (nodes s v) = nid (nodes s c')"
  shows "c' = c"
proof -
  have c': "c' \<in> set (members s)"
    using vinvD(4) [OF inv] assms(3) by (simp add: votes_inv_def)
  show ?thesis using g assms(4) vinv_ids(1,2) [OF inv c'] unfolding grants_def by metis
qed

lemma grants_leader_inv:
  assumes inv: "vinv d k s h" and g: "grants s v c n" and t: "currentTerm (nodes s v) = t"
  shows "leader_inv (set_node s v n) (with_vote h v t c)"
proof (rule leader_invI)
  note li = vinvD(6) [OF inv] and uniq = grants_same_candidate [OF inv g]
  note foll = grants_follower [OF inv g] and n = g [unfolded grants_def]
  let ?s = "set_node s v n" and ?h = "with_vote h v t c"
  fix t' l Q q c'
  assume "h_lead ?h t' = Some (l, Q)"
  then have L: "h_lead h t' = Some (l, Q)" by simp
  show "is_majority (members ?s) Q \<and> l \<in> Q" using leader_invD(1,2) [OF li L] by simp
  show "currentTerm (nodes ?s l) = t' \<Longrightarrow> nstate (nodes ?s l) = Leader"
    using leader_invD(7) [OF li L] n by (auto split: if_splits)
  assume q: "q \<in> Q"
  show "(q, t', l) \<in> h_votes ?h" using leader_invD(3) [OF li L q] by simp
  have v: "l = c" if "q = v" "t' = t"
    using that leader_invD(3,5) [OF li L q] t uniq [of t' l] by simp
  show "c' = l" if "(q, t', c') \<in> h_votes ?h"
    using that v leader_invD(4) [OF li L q] by auto
  show "votedFor (nodes ?s q) = nid (nodes ?s l) \<and> (q \<noteq> l \<longrightarrow> nstate (nodes ?s q) = Follower)"
    if "currentTerm (nodes ?s q) = t'"
    using that v leader_invD(5,6) [OF li L q] n foll t by (cases "q = v") auto
next
  fix w assume "nstate (nodes (set_node s v n) w) = Leader"
  then show "\<exists>Q. h_lead (with_vote h v t c) (currentTerm (nodes (set_node s v n) w)) = Some (w, Q)"
    using leader_inv_role [OF vinvD(6) [OF inv], of w] g by (auto simp: grants_def split: if_splits)
qed

lemma vinv_grant:
  assumes inv: "vinv d k s h" and g: "grants s v c n" and t: "currentTerm (nodes s v) = t"
  shows "vinv d k (set_node s v n) (with_vote h v t c)"
proof (rule vinvI)
  note D = vinvD [OF inv] and n = g [unfolded grants_def]
  note uniq = grants_same_candidate [OF inv g] and foll = grants_follower [OF inv g]
  let ?s = "set_node s v n" and ?h = "with_vote h v t c"
  show "deployment_ok d" by (rule D(1))
  show "static_inv d ?s" using D(2) n by (simp add: static_inv_def)
  show "terms_bounded k ?s"
    using D(3) n by (intro terms_bounded_set_node) (auto simp: terms_bounded_def)
  show "votes_inv ?s ?h" using D(4) n t foll by (auto simp: votes_inv_def)
  show "leaderless_inv ?s ?h"
  proof (rule leaderless_invI)
    fix w t' c1 c2
    assume none: "h_lead ?h t' = None" and c1: "(w, t', c1) \<in> h_votes ?h"
    have one: "c' = c" if "w = v" "t' = t" "(w, t', c') \<in> h_votes ?h" for c'
      using that none t uniq leaderless_invD(2) [OF D(5), of t v c'] by auto
    show "(w, t', c2) \<in> h_votes ?h \<Longrightarrow> c1 = c2"
      using none c1 one [of c1] one [of c2] leaderless_invD(1) [OF D(5), of t' w c1 c2] by auto
    show "currentTerm (nodes ?s w) = t' \<Longrightarrow> votedFor (nodes ?s w) = nid (nodes ?s c1)"
      using none c1 one [of c1] n t leaderless_invD(2) [OF D(5), of t' w c1] by (cases "w = v") auto
  qed
  show "leader_inv ?s ?h" by (rule grants_leader_inv [OF inv g t])
  show "vote_msgs_inv ?s ?h" using D(7) n by (simp add: vote_msgs_inv_def)
  show "ballots_inv ?s ?h" by (rule ballots_inv_frame [OF D(8)]) auto
  show "append_msgs_inv ?s ?h" using D(9) by (simp add: append_msgs_inv_def)
qed

text \<open>
  A candidate that hears from the leader of its term drops its vote. It is none of the voters
  that elected that leader.
\<close>

lemma vinv_concede:
  assumes inv: "vinv d k s h" and t: "currentTerm (nodes s v) = t"
    and cand: "nstate (nodes s v) = Candidate" and L: "h_lead h t = Some (a, Q)"
    and n: "nid n = nid (nodes s v)" "peers n = peers (nodes s v)" "currentTerm n = t"
      "nstate n = Follower"
  shows "vinv d k (set_node s v n) h"
proof (rule vinvI)
  note D = vinvD [OF inv]
  let ?s = "set_node s v n"
  have out: "v \<notin> Q"
    using leader_invD(6,7) [OF D(6) L] t cand by (metis NodeState.distinct(1,3,5))
  show "deployment_ok d" by (rule D(1))
  show "static_inv d ?s" using D(2) n by (simp add: static_inv_def)
  show "terms_bounded k ?s"
    using D(3) terms_boundedD(1,2) [OF D(3), of v] n(3) t by (intro terms_bounded_set_node) simp_all
  have le: "t' \<le> currentTerm (nodes ?s w)" if "(w, t', c) \<in> h_votes h" for w t' c
    using votes_invD(2) [OF D(4) that] t n(3) by (cases "w = v") simp_all
  show "votes_inv ?s h"
    by (rule votes_invI) (use votes_invD [OF D(4)] n t le in \<open>auto split: if_splits\<close>)
  show "leaderless_inv ?s h" using D(5) n t L by (auto simp: leaderless_inv_def)
  show "leader_inv ?s h"
  proof (rule leader_invI)
    fix t' l Q' q c'
    assume L': "h_lead h t' = Some (l, Q')"
    note D' = leader_invD [OF D(6) L']
    show "is_majority (members ?s) Q' \<and> l \<in> Q'" using D'(1,2) by simp
    show "currentTerm (nodes ?s l) = t' \<Longrightarrow> nstate (nodes ?s l) = Leader"
      using D'(2,7) L L' out n by (auto split: if_splits)
    assume q: "q \<in> Q'"
    show "(q, t', l) \<in> h_votes h" by (rule D'(3) [OF q])
    show "(q, t', c') \<in> h_votes h \<Longrightarrow> c' = l" by (rule D'(4) [OF q])
    show "currentTerm (nodes ?s q) = t' \<Longrightarrow>
          votedFor (nodes ?s q) = nid (nodes ?s l) \<and> (q \<noteq> l \<longrightarrow> nstate (nodes ?s q) = Follower)"
      using D'(5,6) [OF q] L L' out n q by (cases "q = v") auto
  next
    fix w assume "nstate (nodes ?s w) = Leader"
    then show "\<exists>Q. h_lead h (currentTerm (nodes ?s w)) = Some (w, Q)"
      using leader_inv_role [OF D(6), of w] n by (auto split: if_splits)
  qed
  show "vote_msgs_inv ?s h" using D(7) n by (simp add: vote_msgs_inv_def)
  show "ballots_inv ?s h" by (rule ballots_inv_frame [OF D(8)]) auto
  show "append_msgs_inv ?s h" using D(9) by (simp add: append_msgs_inv_def)
qed

text \<open>An election timeout: a candidate of a new term, with a ballot and its requests.\<close>

definition stands :: "cluster \<Rightarrow> string \<Rightarrow> int \<Rightarrow> Node \<Rightarrow> VoteRequest \<Rightarrow> bool" where
  "stands s a t n req \<longleftrightarrow>
     a \<in> set (members s) \<and> t = currentTerm (nodes s a) + 1 \<and> nid n = nid (nodes s a) \<and>
     peers n = peers (nodes s a) \<and> currentTerm n = t \<and> nstate n = Candidate \<and>
     votedFor n = nid (nodes s a) \<and> vr_Term req = t \<and> vr_CandidateID req = nid (nodes s a)"

definition with_ballot :: "cluster \<Rightarrow> string \<Rightarrow> Node \<Rightarrow> VoteRequest \<Rightarrow> cluster" where
  "with_ballot s a n req =
     (set_node s a n)\<lparr>ballots := (ballots s)(a := Some \<lparr>el_term = vr_Term req, el_votes = 1,
                                              el_pending = set (peers n)\<rparr>),
        voteReqs := voteReqs s \<union> (\<lambda>p. (a, p, req)) ` set (peers n)\<rparr>"

lemma with_ballot_simps [simp]:
  "members (with_ballot s a n req) = members s"
  "nodes (with_ballot s a n req) = (nodes s)(a := n)"
  "voteAcks (with_ballot s a n req) = voteAcks s" "appendReqs (with_ballot s a n req) = appendReqs s"
  "appendAcks (with_ballot s a n req) = appendAcks s"
  "ballots (with_ballot s a n req) =
     (ballots s)(a := Some \<lparr>el_term = vr_Term req, el_votes = 1, el_pending = set (peers n)\<rparr>)"
  "voteReqs (with_ballot s a n req) = voteReqs s \<union> (\<lambda>p. (a, p, req)) ` set (peers n)"
  "notified (with_ballot s a n req) = notified s"
  by (simp_all add: with_ballot_def)

definition with_candidacy :: "hist \<Rightarrow> string \<Rightarrow> int \<Rightarrow> hist" where
  "with_candidacy h a t =
     h\<lparr>h_votes := insert (a, t, a) (h_votes h), h_tally := (h_tally h)(a := {a})\<rparr>"

lemma with_candidacy_simps [simp]:
  "h_votes (with_candidacy h a t) = insert (a, t, a) (h_votes h)"
  "h_lead (with_candidacy h a t) = h_lead h"
  "h_tally (with_candidacy h a t) = (h_tally h)(a := {a})"
  by (simp_all add: with_candidacy_def)

lemma stands_no_vote:
  assumes "votes_inv s h" and "stands s a t n req" and "(a, t', c) \<in> h_votes h"
  shows "t' < t"
  using assms by (auto simp: votes_inv_def stands_def)

lemma stands_leader_inv:
  assumes inv: "vinv d k s h" and g: "stands s a t n req"
  shows "leader_inv (with_ballot s a n req) (with_candidacy h a t)"
proof (rule leader_invI)
  note D = vinvD [OF inv] and n = g [unfolded stands_def]
  let ?s = "with_ballot s a n req" and ?h = "with_candidacy h a t"
  note old = stands_no_vote [OF D(4) g]
  fix t' l Q q c'
  assume "h_lead ?h t' = Some (l, Q)"
  then have L: "h_lead h t' = Some (l, Q)" by simp
  note D' = leader_invD [OF D(6) L]
  show "is_majority (members ?s) Q \<and> l \<in> Q" using D'(1,2) by simp
  show "currentTerm (nodes ?s l) = t' \<Longrightarrow> nstate (nodes ?s l) = Leader"
    using D'(2,7) D'(3) [of l] old [of t' l] n by (auto split: if_splits)
  assume q: "q \<in> Q"
  have qa: "t' < t" if "q = a" using D'(3) [OF q] old that by blast
  show "(q, t', l) \<in> h_votes ?h" using D'(3) [OF q] by simp
  show "(q, t', c') \<in> h_votes ?h \<Longrightarrow> c' = l" using D'(4) [OF q] qa by auto
  show "currentTerm (nodes ?s q) = t' \<Longrightarrow>
        votedFor (nodes ?s q) = nid (nodes ?s l) \<and> (q \<noteq> l \<longrightarrow> nstate (nodes ?s q) = Follower)"
    using D'(5,6) [OF q] qa n by (cases "q = a") auto
next
  fix w assume "nstate (nodes (with_ballot s a n req) w) = Leader"
  then show "\<exists>Q. h_lead (with_candidacy h a t) (currentTerm (nodes (with_ballot s a n req) w)) = Some (w, Q)"
    using leader_inv_role [OF vinvD(6) [OF inv], of w] g by (auto simp: stands_def split: if_splits)
qed

lemma stands_ballots_inv:
  assumes inv: "vinv d k s h" and g: "stands s a t n req"
  shows "ballots_inv (with_ballot s a n req) (with_candidacy h a t)"
proof (rule ballots_invI)
  note D = vinvD [OF inv] and n = g [unfolded stands_def]
  let ?s = "with_ballot s a n req" and ?h = "with_candidacy h a t"
  fix c b w
  assume b: "ballots ?s c = Some b"
  show "el_votes b = int (card (h_tally ?h c)) \<and> h_tally ?h c \<inter> el_pending b = {} \<and>
        finite (h_tally ?h c) \<and> c \<in> h_tally ?h c"
  proof (cases "c = a")
    case True
    then have "el_votes b = 1" and "el_pending b = set (peers n)" using b by auto
    moreover have "a \<notin> set (peers n)" using n vinv_ids(3) [OF inv, of a] by simp
    ultimately show ?thesis using True by simp
  next
    case False
    with b ballots_invD(1-4) [OF D(8), of c b] show ?thesis by simp
  qed
  show "(w, el_term b, c) \<in> h_votes ?h" if "w \<in> h_tally ?h c"
  proof (cases "c = a")
    case True
    then have "el_term b = t" using b n by auto
    with True that show ?thesis by simp
  next
    case False
    with b that ballots_invD(5) [OF D(8), of c b w] show ?thesis by simp
  qed
qed

lemma vinv_stand:
  assumes inv: "vinv d k s h" and g: "stands s a t n req"
  shows "vinv d (Suc k) (with_ballot s a n req) (with_candidacy h a t)"
proof (rule vinvI)
  note D = vinvD [OF inv] and n = g [unfolded stands_def]
  note old = stands_no_vote [OF D(4) g]
  let ?s = "with_ballot s a n req" and ?h = "with_candidacy h a t"
  show "deployment_ok d" by (rule D(1))
  show "static_inv d ?s" using D(2) n by (simp add: static_inv_def)
  show "terms_bounded (Suc k) ?s"
    using terms_bounded_Suc [OF D(3)] terms_boundedD(1,2) [OF D(3), of a] n
    by (auto simp: terms_bounded_def)
  have le: "t' \<le> currentTerm (nodes ?s w)" if "(w, t', c) \<in> h_votes ?h" for w t' c
    using votes_invD(2) [OF D(4), of w t' c] that n by (cases "w = a") auto
  show "votes_inv ?s ?h"
    by (rule votes_invI)
      (use votes_invD [OF D(4)] n terms_boundedD(1) [OF D(3), of a] le in \<open>auto split: if_splits\<close>)
  show "leaderless_inv ?s ?h"
    using D(5) n old by (fastforce simp: leaderless_inv_def)
  show "leader_inv ?s ?h" by (rule stands_leader_inv [OF inv g])
  show "vote_msgs_inv ?s ?h"
    using D(7) n vinv_ids(3) [OF inv, of a] by (auto simp: vote_msgs_inv_def)
  show "ballots_inv ?s ?h" by (rule stands_ballots_inv [OF inv g])
  show "append_msgs_inv ?s ?h" using D(9) by (simp add: append_msgs_inv_def)
qed

text \<open>
  The end of a won election. The counted votes are a majority, so the term has no leader yet: its
  electors would have voted for another candidate, or this one would already be leader.
\<close>

definition wins :: "cluster \<Rightarrow> string \<Rightarrow> ballot \<Rightarrow> int \<Rightarrow> Node \<Rightarrow> bool" where
  "wins s c b t n \<longleftrightarrow>
     ballots s c = Some b \<and> nstate (nodes s c) = Candidate \<and> currentTerm (nodes s c) = t \<and>
     el_term b = t \<and> majorityOf (int (length (peers (nodes s c))) + 1) \<le> el_votes b \<and>
     nid n = nid (nodes s c) \<and> peers n = peers (nodes s c) \<and> currentTerm n = t \<and>
     nstate n = Leader \<and> votedFor n = votedFor (nodes s c)"

definition with_leader :: "hist \<Rightarrow> int \<Rightarrow> string \<Rightarrow> hist" where
  "with_leader h t c = h\<lparr>h_lead := (h_lead h)(t \<mapsto> (c, h_tally h c))\<rparr>"

lemma with_leader_simps [simp]:
  "h_votes (with_leader h t c) = h_votes h" "h_tally (with_leader h t c) = h_tally h"
  "h_lead (with_leader h t c) = (h_lead h)(t \<mapsto> (c, h_tally h c))"
  by (simp_all add: with_leader_def)

lemma wins_majority:
  assumes inv: "vinv d k s h" and w: "wins s c b t n"
  shows "is_majority (members s) (h_tally h c)" and "c \<in> h_tally h c"
    and "\<And>q. q \<in> h_tally h c \<Longrightarrow> (q, t, c) \<in> h_votes h"
proof -
  note D = vinvD [OF inv] and n = w [unfolded wins_def]
  have b: "ballots s c = Some b" and t: "el_term b = t" using n by simp_all
  note B = ballots_invD [OF D(8) b]
  show c: "c \<in> h_tally h c" by (rule B(4))
  show v: "\<And>q. q \<in> h_tally h c \<Longrightarrow> (q, t, c) \<in> h_votes h" using B(5) t by simp
  have "h_tally h c \<subseteq> set (members s)" using votes_invD(3) [OF D(4)] v by blast
  moreover from this c have "c \<in> set (members s)" by blast
  then have "length (members s) = length (peers (nodes s c)) + 1" by (rule vinv_ids(4) [OF inv])
  moreover have "majorityOf (int (length (peers (nodes s c))) + 1) \<le> int (card (h_tally h c))"
    using B(1) n by simp
  ultimately show "is_majority (members s) (h_tally h c)" by (rule majorityOf_is_majority)
qed

lemma wins_leaderless:
  assumes inv: "vinv d k s h" and w: "wins s c b t n"
  shows "h_lead h t = None"
proof (rule ccontr)
  assume "h_lead h t \<noteq> None"
  then obtain l Q where L: "h_lead h t = Some (l, Q)" by auto
  note D = leader_invD [OF vinvD(6) [OF inv] L] and m = wins_majority [OF inv w]
  obtain q where "q \<in> Q" and "q \<in> h_tally h c"
    using maj.quorum_common [OF D(1) m(1)] by blast
  with D(4) m(3) have "c = l" by blast
  with D(7) w show False by (auto simp: wins_def)
qed

lemma wins_leader_inv:
  assumes inv: "vinv d k s h" and w: "wins s c b t n"
  shows "leader_inv (set_node s c n) (with_leader h t c)"
proof -
  note D = vinvD [OF inv] and n = w [unfolded wins_def] and m = wins_majority [OF inv w]
  note none = wins_leaderless [OF inv w]
  let ?s = "set_node s c n" and ?h = "with_leader h t c"
  have one: "c' = c" if "(q, t, c') \<in> h_votes h" "q \<in> h_tally h c" for q c'
    using leaderless_invD(1) [OF D(5) none m(3) that(1)] that(2) by blast
  show ?thesis
  proof (rule leader_invI)
    fix t' l Q q c'
    assume L: "h_lead ?h t' = Some (l, Q)"
    show "is_majority (members ?s) Q \<and> l \<in> Q"
      using L m leader_invD(1,2) [OF D(6), of t' l Q] by (auto split: if_splits)
    show "currentTerm (nodes ?s l) = t' \<Longrightarrow> nstate (nodes ?s l) = Leader"
      using L leader_invD(7) [OF D(6), of t' l Q] n by (auto split: if_splits)
    assume q: "q \<in> Q"
    show "(q, t', l) \<in> h_votes ?h"
      using L q m leader_invD(3) [OF D(6), of t' l Q] by (auto split: if_splits)
    show "(q, t', c') \<in> h_votes ?h \<Longrightarrow> c' = l"
      using L q one leader_invD(4) [OF D(6), of t' l Q] by (auto split: if_splits)
    assume t': "currentTerm (nodes ?s q) = t'"
    show "votedFor (nodes ?s q) = nid (nodes ?s l) \<and> (q \<noteq> l \<longrightarrow> nstate (nodes ?s q) = Follower)"
    proof (cases "t' = t")
      case True
      with L have l: "l = c" "Q = h_tally h c" by auto
      have "nstate (nodes s q) = Follower" if "q \<noteq> c"
        using that votes_invD(6) [OF D(4), of q] one [of q q] t' True l q by auto
      moreover have "votedFor (nodes s q) = nid (nodes s c)"
        using leaderless_invD(2) [OF D(5) none m(3), of q] t' True l q n by (auto split: if_splits)
      ultimately show ?thesis using l n votes_invD(5) [OF D(4), of c] by auto
    next
      case False
      with L t' q n show ?thesis
        using leader_invD(5,6) [OF D(6), of t' l Q] by (auto split: if_splits)
    qed
  next
    fix w assume "nstate (nodes ?s w) = Leader"
    then show "\<exists>Q. h_lead ?h (currentTerm (nodes ?s w)) = Some (w, Q)"
      using leader_inv_role [OF D(6), of w] n none by (auto split: if_splits)
  qed
qed

lemma vinv_win:
  assumes inv: "vinv d k s h" and w: "wins s c b t n"
  shows "vinv d k (set_node s c n) (with_leader h t c)"
proof (rule vinvI)
  note D = vinvD [OF inv] and n = w [unfolded wins_def]
  note none = wins_leaderless [OF inv w]
  let ?s = "set_node s c n" and ?h = "with_leader h t c"
  show "deployment_ok d" by (rule D(1))
  show "static_inv d ?s" using D(2) n by (simp add: static_inv_def)
  show "terms_bounded k ?s"
    using D(3) terms_boundedD(1,2) [OF D(3), of c] n by (intro terms_bounded_set_node) simp_all
  show "votes_inv ?s ?h" using D(4) n by (auto simp: votes_inv_def)
  show "leaderless_inv ?s ?h" using D(5) n by (auto simp: leaderless_inv_def)
  show "leader_inv ?s ?h" by (rule wins_leader_inv [OF inv w])
  show "vote_msgs_inv ?s ?h" using D(7) n by (simp add: vote_msgs_inv_def)
  show "ballots_inv ?s ?h" by (rule ballots_inv_frame [OF D(8)]) auto
  have "(a, v, req) \<in> appendReqs s \<Longrightarrow> ar_Term req \<noteq> t" for a v req
    using append_msgs_invD(3) [OF D(9), of a v req] none by auto
  with D(9) show "append_msgs_inv ?s ?h" by (simp add: append_msgs_inv_def)
qed

text \<open>Messages and ballots may change as long as they say what happened.\<close>

lemma vote_msgs_invD:
  assumes "vote_msgs_inv s h"
  shows "(c, v, req) \<in> voteReqs s \<Longrightarrow> vr_CandidateID req = nid (nodes s c)"
    and "(c, v, req) \<in> voteReqs s \<Longrightarrow> v \<noteq> c"
    and "(c, v, req) \<in> voteReqs s \<Longrightarrow> v \<in> set (members s)"
    and "(c, v, req) \<in> voteReqs s \<Longrightarrow> (c, vr_Term req, c) \<in> h_votes h"
    and "(c, v, req, resp) \<in> voteAcks s \<Longrightarrow> (c, v, req) \<in> voteReqs s"
    and "(c, v, req, resp) \<in> voteAcks s \<Longrightarrow> vp_VoteGranted resp \<Longrightarrow> (v, vr_Term req, c) \<in> h_votes h"
  using assms unfolding vote_msgs_inv_def by blast+

lemma vinv_voteAck:
  assumes inv: "vinv d k s h" and "(c, v, req) \<in> voteReqs s" and "vp_Term resp \<le> int k"
    and "vp_VoteGranted resp \<Longrightarrow> (v, vr_Term req, c) \<in> h_votes h"
  shows "vinv d k (s\<lparr>voteAcks := insert (c, v, req, resp) (voteAcks s)\<rparr>) h"
proof (rule vinvI)
  note D = vinvD [OF inv]
  let ?s = "s\<lparr>voteAcks := insert (c, v, req, resp) (voteAcks s)\<rparr>"
  show "terms_bounded k ?s" using D(3) assms(3) by (auto simp: terms_bounded_def)
  show "vote_msgs_inv ?s h" using D(7) assms(2,4) by (auto simp: vote_msgs_inv_def)
  show "ballots_inv ?s h" by (rule ballots_inv_frame [OF D(8)]) auto
qed (use vinvD [OF inv] in \<open>simp_all add: static_inv_def votes_inv_def leaderless_inv_def
      leader_inv_def append_msgs_inv_def\<close>)

lemma vinv_appendAck:
  assumes inv: "vinv d k s h" and "(a, v, req) \<in> appendReqs s" and "ap_Term resp \<le> int k"
  shows "vinv d k (s\<lparr>appendAcks := insert (a, v, req, resp) (appendAcks s)\<rparr>) h"
proof (rule vinvI)
  note D = vinvD [OF inv]
  let ?s = "s\<lparr>appendAcks := insert (a, v, req, resp) (appendAcks s)\<rparr>"
  show "terms_bounded k ?s" using D(3) assms(3) by (auto simp: terms_bounded_def)
  show "append_msgs_inv ?s h" using D(9) assms(2) by (auto simp: append_msgs_inv_def)
  show "ballots_inv ?s h" by (rule ballots_inv_frame [OF D(8)]) auto
qed (use vinvD [OF inv] in \<open>simp_all add: static_inv_def votes_inv_def leaderless_inv_def
      leader_inv_def vote_msgs_inv_def\<close>)

lemma vinv_appendReq:
  assumes inv: "vinv d k s h" and "v \<noteq> a" and "v \<in> set (members s)"
    and "h_lead h (ar_Term req) = Some (a, Q)"
  shows "vinv d k (s\<lparr>appendReqs := insert (a, v, req) (appendReqs s)\<rparr>) h"
proof (rule vinvI)
  note D = vinvD [OF inv]
  let ?s = "s\<lparr>appendReqs := insert (a, v, req) (appendReqs s)\<rparr>"
  show "append_msgs_inv ?s h" using D(9) assms(2-4) by (auto simp: append_msgs_inv_def)
  show "ballots_inv ?s h" by (rule ballots_inv_frame [OF D(8)]) auto
qed (use vinvD [OF inv] in \<open>simp_all add: static_inv_def votes_inv_def leaderless_inv_def
      leader_inv_def vote_msgs_inv_def terms_bounded_def\<close>)

lemma vinv_ballots:
  assumes inv: "vinv d k s h" and "ballots_inv (s\<lparr>ballots := bs\<rparr>) (h\<lparr>h_tally := ta\<rparr>)"
  shows "vinv d k (s\<lparr>ballots := bs\<rparr>) (h\<lparr>h_tally := ta\<rparr>)"
  by (rule vinvI)
    (use vinvD [OF inv] assms(2) in \<open>simp_all add: static_inv_def votes_inv_def leaderless_inv_def
      leader_inv_def vote_msgs_inv_def append_msgs_inv_def terms_bounded_def\<close>)

text \<open>Dropping a ballot, forgetting a pending peer, counting a pending peer's vote.\<close>

lemma vinv_ballot_closed:
  assumes "vinv d k s h"
  shows "vinv d k (s\<lparr>ballots := (ballots s)(c := None)\<rparr>) h"
proof -
  have "ballots_inv (s\<lparr>ballots := (ballots s)(c := None)\<rparr>) (h\<lparr>h_tally := h_tally h\<rparr>)"
  proof (rule ballots_invI)
    fix c' b w
    assume "ballots (s\<lparr>ballots := (ballots s)(c := None)\<rparr>) c' = Some b"
    then have b: "ballots s c' = Some b" by (simp split: if_splits)
    note B = ballots_invD [OF vinvD(8) [OF assms] b]
    show "el_votes b = int (card (h_tally (h\<lparr>h_tally := h_tally h\<rparr>) c')) \<and>
       h_tally (h\<lparr>h_tally := h_tally h\<rparr>) c' \<inter> el_pending b = {} \<and>
       finite (h_tally (h\<lparr>h_tally := h_tally h\<rparr>) c') \<and> c' \<in> h_tally (h\<lparr>h_tally := h_tally h\<rparr>) c'"
      using B(1-4) by simp
    show "w \<in> h_tally (h\<lparr>h_tally := h_tally h\<rparr>) c' \<Longrightarrow>
       (w, el_term b, c') \<in> h_votes (h\<lparr>h_tally := h_tally h\<rparr>)"
      using B(5) by simp
  qed
  from vinv_ballots [OF assms this] show ?thesis by simp
qed

definition counted :: "hist \<Rightarrow> string \<Rightarrow> string \<Rightarrow> bool \<Rightarrow> hist" where
  "counted h c v yes = h\<lparr>h_tally := (h_tally h)(c := (if yes then insert v (h_tally h c) else h_tally h c))\<rparr>"

lemma vinv_ballot_answer:
  assumes inv: "vinv d k s h" and b: "ballots s c = Some b" and v: "v \<in> el_pending b"
    and yes: "yes \<Longrightarrow> (v, el_term b, c) \<in> h_votes h"
  shows "vinv d k (s\<lparr>ballots := (ballots s)(c \<mapsto>
           b\<lparr>el_votes := (if yes then el_votes b + 1 else el_votes b), el_pending := el_pending b - {v}\<rparr>)\<rparr>)
         (counted h c v yes)"
  unfolding counted_def
proof (rule vinv_ballots [OF inv], rule ballots_invI)
  let ?b = "b\<lparr>el_votes := (if yes then el_votes b + 1 else el_votes b), el_pending := el_pending b - {v}\<rparr>"
  let ?s = "s\<lparr>ballots := (ballots s)(c \<mapsto> ?b)\<rparr>"
  let ?h = "h\<lparr>h_tally := (h_tally h)(c := if yes then insert v (h_tally h c) else h_tally h c)\<rparr>"
  note B = ballots_invD [OF vinvD(8) [OF inv] b]
  have fresh: "v \<notin> h_tally h c" using B(2) v by blast
  fix c' b' w
  assume b': "ballots ?s c' = Some b'"
  have other: "ballots s c' = Some b'" if "c' \<noteq> c" using that b' by simp
  have mine: "b' = ?b" if "c' = c" using that b' by simp
  show "el_votes b' = int (card (h_tally ?h c')) \<and> h_tally ?h c' \<inter> el_pending b' = {} \<and>
        finite (h_tally ?h c') \<and> c' \<in> h_tally ?h c'"
  proof (cases "c' = c")
    case True
    with mine B(1-4) fresh show ?thesis by auto
  next
    case False
    with ballots_invD(1-4) [OF vinvD(8) [OF inv] other [OF False]] show ?thesis by simp
  qed
  show "(w, el_term b', c') \<in> h_votes ?h" if "w \<in> h_tally ?h c'"
  proof (cases "c' = c")
    case True
    with mine B(5) that yes show ?thesis by (auto split: if_splits)
  next
    case False
    with ballots_invD(5) [OF vinvD(8) [OF inv] other [OF False]] that show ?thesis by simp
  qed
qed

text \<open>Every event keeps the invariant.\<close>

lemma Timeout_step:
  assumes inv: "vinv d k s h" and k: "int k < max_int" and st: "cluster_step s (Timeout a) s'"
  defines "t \<equiv> currentTerm (nodes s a) + 1"
  obtains n req where "n = fst (startElection_begin (nodes s a))" and "req = snd (startElection_begin (nodes s a))"
    and "s' = with_ballot s a n req" and "stands s a t n req" and "wrap64 t = t"
    and "hist_upd s (Timeout a) s' h =
           (with_candidacy h a t)\<lparr>h_clog := (h_clog h)(a := (h_clog h a)(t := entries (nlog (nodes s a))))\<rparr>"
    and "\<And>c. (a, t, c) \<notin> h_votes h"
  using st
proof (cases rule: TimeoutE)
  case (1 n req)
  from 1(4) have n: "n = fst (startElection_begin (nodes s a))" "req = snd (startElection_begin (nodes s a))"
    by (simp_all add: electionTimerFired_def split: if_splits)
  have w: "wrap64 t = t"
    using terms_boundedD(1,2) [OF vinvD(3) [OF inv], of a] k unfolding t_def by (intro wrap64_incr) simp_all
  have g: "stands s a t n req" using 1(2) w by (simp add: stands_def n node_simps t_def)
  from w have "hist_upd s (Timeout a) s' h =
      (with_candidacy h a t)\<lparr>h_clog := (h_clog h)(a := (h_clog h a)(t := entries (nlog (nodes s a))))\<rparr>"
    by (simp add: 1(1) Let_def n node_simps with_candidacy_def t_def)
  moreover have "(a, t, c) \<notin> h_votes h" for c
    using stands_no_vote [OF vinvD(4) [OF inv] g] by blast
  ultimately show thesis using that [OF n _ g w] by (simp add: 1(1) with_ballot_def)
qed

lemma vinv_Timeout:
  assumes inv: "vinv d k s h" and "int k < max_int" and st: "cluster_step s (Timeout a) s'"
  shows "vinv d (Suc k) s' (hist_upd s (Timeout a) s' h)"
  using assms
proof (cases rule: Timeout_step)
  case (1 n req)
  from vinv_stand [OF inv 1(4)] show ?thesis unfolding 1(6) by (simp add: 1(3) vinv_irrelevant(2))
qed

lemma vinv_RecvVote:
  assumes inv: "vinv d k s h" and st: "cluster_step s (RecvVote c v req) s'"
  shows "vinv d k s' (hist_upd s (RecvVote c v req) s' h)"
  using st
proof (cases rule: RecvVoteE)
  case (1 n resp)
  note D = vinvD [OF inv] and M = vote_msgs_invD(1-4) [OF vinvD(7) [OF inv] 1(2)]
  let ?v = "nodes s v" and ?t = "vr_Term req"
  have n: "n = fst (HandleVoteRequest ?v req)" and r: "resp = snd (HandleVoteRequest ?v req)"
    using 1(3) by simp_all
  have tk: "?t \<le> int k"
    using votes_invD(2) [OF D(4) M(4)] terms_boundedD(2) [OF D(3), of c] by simp
  have nk: "currentTerm n \<le> int k" "vp_Term resp \<le> int k"
    using tk terms_boundedD(2) [OF D(3), of v] HandleVoteRequest_term_bound [of ?v req]
    by (auto simp: n r node_simps)
  let ?h = "hist_upd s (RecvVote c v req) s' h"
  have "vinv d k (set_node s v n) ?h"
  proof (cases "vp_VoteGranted resp")
    case False
    then have "node_move ?v n"
      by (auto simp: node_move_def n r node_simps max_def)
    from vinv_move [OF inv this nk(1)] False show ?thesis by (simp add: r)
  next
    case True
    let ?m = "fst (stepDown ?v ?t)"
    have le: "currentTerm ?v \<le> ?t" and can: "currentTerm ?v < ?t \<or> votedFor ?v = [] \<or> votedFor ?v = vr_CandidateID req"
      using True by (auto simp: r HandleVoteRequest_granted_iff)
    have "vinv d k (set_node s v ?m) h"
      using tk terms_boundedD(2) [OF D(3), of v]
      by (intro vinv_move [OF inv]) (auto simp: node_move_def node_simps max_def)
    moreover have "grants (set_node s v ?m) v c n"
      using M votes_invD(1,3) [OF D(4) M(4)] le can True
      by (auto simp: grants_def n r node_simps max_def)
    ultimately have "vinv d k (set_node (set_node s v ?m) v n) (with_vote h v ?t c)"
      by (rule vinv_grant) (use le in \<open>simp add: node_simps\<close>)
    then show ?thesis using True by (simp add: r with_vote_def)
  qed
  then have "vinv d k ((set_node s v n)\<lparr>voteAcks := insert (c, v, req, resp) (voteAcks (set_node s v n))\<rparr>) ?h"
    by (rule vinv_voteAck) (use 1(2) nk(2) in \<open>auto simp: r\<close>)
  then show ?thesis by (simp add: 1(1))
qed

lemma hist_tally_same [simp]: "h\<lparr>h_tally := (h_tally h)(c := h_tally h c)\<rparr> = h"
  by simp

lemma vinv_VoteAnswer:
  assumes inv: "vinv d k s h" and st: "cluster_step s (VoteAnswer c v req resp) s'"
  shows "vinv d k s' (hist_upd s (VoteAnswer c v req resp) s' h)"
  using st
proof (cases rule: VoteAnswerE)
  case (1 b n m)
  note D = vinvD [OF inv]
  let ?yes = "m \<noteq> el_votes b"
  have facts: "node_move (nodes s c) n \<and> currentTerm n \<le> int k \<and>
      (m = el_votes b \<or> m = el_votes b + 1 \<and> vp_VoteGranted resp)"
    by (cases rule: requestVoteFromPeer_cases [of "Some resp" "el_term b" "nodes s c" "el_votes b"])
      (use 1(6) terms_boundedD(2) [OF D(3), of c] terms_boundedD(3) [OF D(3) 1(4)] in \<open>auto simp: node_move_def node_simps\<close>)
  then have inv': "vinv d k (set_node s c n) h" using vinv_move [OF inv] by blast
  have "(v, el_term b, c) \<in> h_votes h" if ?yes
    using that facts vote_msgs_invD(6) [OF D(7) 1(4)] 1(5) by auto
  from vinv_ballot_answer [OF inv' _ 1(3) this] 1(2)
  have "vinv d k ((set_node s c n)\<lparr>ballots := (ballots s)(c \<mapsto>
           b\<lparr>el_votes := (if ?yes then el_votes b + 1 else el_votes b), el_pending := el_pending b - {v}\<rparr>)\<rparr>)
         (counted h c v ?yes)"
    by simp
  moreover have "(if ?yes then el_votes b + 1 else el_votes b) = m" using facts by auto
  ultimately have "vinv d k s' (counted h c v ?yes)" by (simp add: 1(1))
  moreover have "hist_upd s (VoteAnswer c v req resp) s' h = counted h c v ?yes"
    using 1(2) by (simp add: 1(1) counted_def)
  ultimately show ?thesis by simp
qed

lemma vinv_VoteLost:
  assumes inv: "vinv d k s h" and st: "cluster_step s (VoteLost c v) s'"
  shows "vinv d k s' (hist_upd s (VoteLost c v) s' h)"
  using st
proof (cases rule: VoteLostE)
  case (1 b n m)
  from 1(4) have "n = nodes s c" "m = el_votes b" by (simp_all add: requestVoteFromPeer_def)
  then show ?thesis
    using vinv_ballot_answer [OF inv 1(2,3), of False] by (simp add: 1(1) counted_def)
qed

lemma startElection_finish_cases:
  assumes "startElection_finish n t k = (n', won)"
  shows "n' = n \<or> n' = becomeLeader n \<and> nstate n = Candidate \<and> currentTerm n = t \<and>
     majorityOf (int (length (peers n)) + 1) \<le> k"
  using assms by (auto simp: startElection_finish_def split: if_splits)

lemma vinv_ElectionEnd:
  assumes inv: "vinv d k s h" and st: "cluster_step s (ElectionEnd c) s'"
  shows "vinv d k s' (hist_upd s (ElectionEnd c) s' h)"
  using st
proof (cases rule: ElectionEndE)
  case (1 b n won)
  from startElection_finish_cases [OF 1(4)] consider (lost) "n = nodes s c"
    | (won) "n = becomeLeader (nodes s c)" "nstate (nodes s c) = Candidate"
        "currentTerm (nodes s c) = el_term b"
        "majorityOf (int (length (peers (nodes s c))) + 1) \<le> el_votes b"
    by blast
  then show ?thesis
  proof cases
    case lost
    then show ?thesis using vinv_ballot_closed [OF inv, of c] by (simp add: 1(1))
  next
    case won
    then have "wins s c b (el_term b) n" using 1(2) by (simp add: wins_def node_simps)
    from vinv_ballot_closed [OF vinv_win [OF inv this], of c]
    have "vinv d k s' (with_leader h (el_term b) c)" by (simp add: 1(1))
    then show ?thesis
      using won by (simp add: 1(1) Let_def node_simps with_leader_def)
  qed
qed

lemma HandleStroke_move: "node_move n (fst (HandleStroke n st))"
  by (auto simp: HandleStroke_def Let_def node_move_def node_simps)

lemma HandleStroke_term [node_simps]: "currentTerm (fst (HandleStroke n st)) = currentTerm n"
  by (simp add: HandleStroke_def Let_def node_simps)

lemma vinv_Stroke:
  assumes inv: "vinv d k s h" and st: "cluster_step s (Stroke a str) s'"
  shows "vinv d k s' (hist_upd s (Stroke a str) s' h)"
  using st
proof (cases rule: StrokeE)
  case (1 n err)
  then have n: "n = fst (HandleStroke (nodes s a) str)" by simp
  have "vinv d k s' h"
    unfolding 1(1) by (rule vinv_move [OF inv])
      (use terms_boundedD(2) [OF vinvD(3) [OF inv], of a] in \<open>simp_all add: n HandleStroke_move node_simps\<close>)
  then show ?thesis by (simp add: Let_def)
qed

lemma vinv_SendAppend:
  assumes inv: "vinv d k s h" and st: "cluster_step s (SendAppend a p) s'"
  shows "vinv d k s' (hist_upd s (SendAppend a p) s' h)"
  using st
proof (cases rule: SendAppendE)
  case (1 req)
  then have "nstate (nodes s a) = Leader" and t: "ar_Term req = currentTerm (nodes s a)"
    by (auto simp: appendEntriesRequest_def Let_def split: if_splits option.splits)
  then obtain Q where "h_lead h (ar_Term req) = Some (a, Q)"
    using leader_inv_role [OF vinvD(6) [OF inv], of a] by auto
  moreover have "p \<noteq> a" "p \<in> set (members s)" using 1(2,3) vinv_ids(3) [OF inv, of a] by auto
  ultimately show ?thesis using vinv_appendReq [OF inv] by (simp add: 1(1))
qed

lemma vinv_RecvAppend_node:
  assumes inv: "vinv d k s h" and m: "(a, v, req) \<in> appendReqs s"
  shows "vinv d k (set_node s v (fst (HandleAppendEntries (nodes s v) req))) h"
    and "ar_Term req \<le> int k"
proof -
  note D = vinvD [OF inv] and M = append_msgs_invD(1-3) [OF vinvD(9) [OF inv] m]
  let ?n = "fst (HandleAppendEntries (nodes s v) req)" and ?v = "nodes s v" and ?t = "ar_Term req"
  obtain Q where Q: "h_lead h ?t = Some (a, Q)" using M(3) by blast
  show tk: "?t \<le> int k"
    using leader_invD(2,3) [OF D(6) Q] votes_invD(2) [OF D(4)] terms_boundedD(2) [OF D(3), of a]
    by (meson order_trans)
  have nl: "currentTerm ?v \<noteq> ?t" if "nstate ?v = Leader"
    using leader_inv_role [OF D(6), of v] that Q M(1) by auto
  show "vinv d k (set_node s v ?n) h"
  proof (cases "currentTerm ?v = ?t \<and> nstate ?v = Candidate")
    case True
    then show ?thesis using vinv_concede [OF inv _ _ Q, of v ?n] by (simp add: node_simps)
  next
    case False
    then have "node_move ?v ?n"
      using nl by (cases "nstate ?v") (auto simp: node_move_def node_simps max_def)
    then show ?thesis
      using vinv_move [OF inv, of v ?n] tk terms_boundedD(2) [OF D(3), of v] by (simp add: node_simps)
  qed
qed

lemma HandleAppendEntries_resp_term:
  "snd (HandleAppendEntries n req) = Inr resp \<Longrightarrow> ap_Term resp \<le> max (currentTerm n) (ar_Term req)"
  by (cases rule: HandleAppendEntries_cases [of req n]) (auto simp: HandleAppendEntries_eqs)

lemma vinv_RecvAppend:
  assumes inv: "vinv d k s h" and st: "cluster_step s (RecvAppend a v req) s'"
  shows "vinv d k s' (hist_upd s (RecvAppend a v req) s' h)"
  using st
proof (cases rule: RecvAppendE)
  case (1 n r)
  have n: "n = fst (HandleAppendEntries (nodes s v) req)" and r: "r = snd (HandleAppendEntries (nodes s v) req)"
    using 1(3) by simp_all
  note V = vinv_RecvAppend_node [OF inv 1(2), folded n]
  have "vinv d k s' h"
  proof (cases r)
    case (Inl p)
    with V(1) show ?thesis by (simp add: 1(1))
  next
    case (Inr resp)
    then have "ap_Term resp \<le> max (currentTerm (nodes s v)) (ar_Term req)"
      using HandleAppendEntries_resp_term r by metis
    with V(2) terms_boundedD(2) [OF vinvD(3) [OF inv], of v] have "ap_Term resp \<le> int k" by simp
    with vinv_appendAck [OF V(1)] 1(2) Inr show ?thesis by (simp add: 1(1))
  qed
  then show ?thesis by (simp split: sum.split)
qed

lemma vinv_AppendAnswer:
  assumes inv: "vinv d k s h" and st: "cluster_step s (AppendAnswer a v req resp) s'"
  shows "vinv d k s' (hist_upd s (AppendAnswer a v req resp) s' h)"
  using st
proof (cases rule: AppendAnswerE)
  case 1
  show ?thesis
    unfolding 1(1) hist_upd.simps
    by (rule vinv_move [OF inv])
      (use terms_boundedD(2,4) [OF vinvD(3) [OF inv]] 1(2) in
        \<open>auto simp: node_move_def node_simps max_def\<close>)
qed

lemma runCommitApplier_move:
  "runCommitApplier_step n ap = Some (n', ap') \<Longrightarrow> node_move n n' \<and> currentTerm n' = currentTerm n"
  by (auto simp: node_move_def elim!: runCommitApplier_step_frame)

lemma runCommitNotifier_move:
  "runCommitNotifier_tick n = Some (n', post) \<Longrightarrow> node_move n n' \<and> currentTerm n' = currentTerm n"
  by (auto simp: runCommitNotifier_tick_def node_move_def Let_def split: list.splits)

lemma vinv_Apply:
  assumes inv: "vinv d k s h" and st: "cluster_step s (Apply a) s'"
  shows "vinv d k s' (hist_upd s (Apply a) s' h)"
  using st
  by (cases rule: ApplyE)
    (use terms_boundedD(2) [OF vinvD(3) [OF inv], of a] in
      \<open>auto dest!: runCommitApplier_move intro!: vinv_move [OF inv]\<close>)

lemma vinv_Notify:
  assumes inv: "vinv d k s h" and st: "cluster_step s (Notify a) s'"
  shows "vinv d k s' (hist_upd s (Notify a) s' h)"
  using st
  by (cases rule: NotifyE)
    (use terms_boundedD(2) [OF vinvD(3) [OF inv], of a] in
      \<open>auto dest!: runCommitNotifier_move intro!: vinv_move [OF inv]\<close>)

lemma vinv_step:
  assumes inv: "vinv d k s h" and "int k < max_int" and st: "cluster_step s e s'"
  shows "vinv d (Suc k) s' (hist_upd s e s' h)"
proof (cases e)
  case (Timeout a)
  with st vinv_Timeout [OF inv assms(2)] show ?thesis by blast
next
  case (RecvVote c v req)
  with st vinv_RecvVote [OF inv] show ?thesis by (blast intro: vinv_mono)
next
  case (VoteAnswer c v req resp)
  with st vinv_VoteAnswer [OF inv] show ?thesis by (blast intro: vinv_mono)
next
  case (VoteLost c v)
  with st vinv_VoteLost [OF inv] show ?thesis by (blast intro: vinv_mono)
next
  case (ElectionEnd c)
  with st vinv_ElectionEnd [OF inv] show ?thesis by (blast intro: vinv_mono)
next
  case (Stroke a str)
  with st vinv_Stroke [OF inv] show ?thesis by (blast intro: vinv_mono)
next
  case (SendAppend a p)
  with st vinv_SendAppend [OF inv] show ?thesis by (blast intro: vinv_mono)
next
  case (RecvAppend a v req)
  with st vinv_RecvAppend [OF inv] show ?thesis by (blast intro: vinv_mono)
next
  case (AppendAnswer a v req resp)
  with st vinv_AppendAnswer [OF inv] show ?thesis by (blast intro: vinv_mono)
next
  case (Apply a)
  with st vinv_Apply [OF inv] show ?thesis by (blast intro: vinv_mono)
next
  case (Notify a)
  with st vinv_Notify [OF inv] show ?thesis by (blast intro: vinv_mono)
qed

lemma vinv_init:
  assumes "deployment_ok d"
  shows "vinv d 0 (init_cluster d) init_hist"
  using assms
  by (simp add: vinv_def vinv_parts init_cluster_def init_hist_def NewNode_def)

interpretation vreach: counted_invariant "hstart d" hstep "nat max_int" "\<lambda>k (s, h). vinv d k s h" for d
proof
  fix sh assume "hstart d sh"
  then show "case sh of (s, h) \<Rightarrow> vinv d 0 s h" by (auto simp: hstart_def vinv_init)
next
  fix k sh e sh'
  assume "case sh of (s, h) \<Rightarrow> vinv d k s h" and "hstep sh e sh'" and "k < nat max_int"
  then show "case sh' of (s, h) \<Rightarrow> vinv d (Suc k) s h"
    by (auto simp: hstep_def split: prod.splits intro!: vinv_step)
qed

end
