(* ===== verification/ClusterLogs.thy ===== *)
theory ClusterLogs
  imports ClusterVotes
begin

text \<open>
  The logs of a cluster. Every log, a node's, a candidate's or a leader's, is built from prefixes
  of the logs of the terms' leaders: up to an entry of term \<open>t\<close> it equals what the leader of
  \<open>t\<close> wrote. Log matching follows at once. The invariant also says that every request carries
  a slice of its leader's log up to that log's end, and that a leader's \<open>nextIndex\<close> stays within
  its log, so that a request never starts before the sentinel or beyond the end.
\<close>

section \<open>Logs made of leaders' logs\<close>

definition chained :: "(int \<Rightarrow> LogEntry list) \<Rightarrow> LogEntry list \<Rightarrow> bool" where
  "chained g es \<longleftrightarrow>
     (\<forall>i < length es. i < length (g (le_Term (es ! i))) \<and>
                      take (Suc i) es = take (Suc i) (g (le_Term (es ! i))))"

definition stored :: "(int \<Rightarrow> LogEntry list) \<Rightarrow> int \<Rightarrow> LogEntry list \<Rightarrow> bool" where
  "stored g t es \<longleftrightarrow>
     es \<noteq> [] \<and> hd es = sentinel \<and> indexed es \<and> chained g es \<and> (\<forall>e \<in> set es. le_Term e \<le> t)"

definition extends :: "(int \<Rightarrow> LogEntry list) \<Rightarrow> (int \<Rightarrow> LogEntry list) \<Rightarrow> bool" where
  "extends g g' \<longleftrightarrow> (\<forall>t. \<exists>zs. g' t = g t @ zs)"

lemma chainedD:
  assumes "chained g es" and "i < length es"
  shows "i < length (g (le_Term (es ! i)))" and "take (Suc i) es = take (Suc i) (g (le_Term (es ! i)))"
  using assms by (simp_all add: chained_def)

lemma storedD:
  assumes "stored g t es"
  shows "es \<noteq> []" and "hd es = sentinel" and "indexed es" and "chained g es"
    and "e \<in> set es \<Longrightarrow> le_Term e \<le> t"
  using assms by (simp_all add: stored_def)

lemma stored_nth_term: "stored g t es \<Longrightarrow> i < length es \<Longrightarrow> le_Term (es ! i) \<le> t"
  by (simp add: stored_def)

lemma stored_first: "stored g t es \<Longrightarrow> es ! 0 = sentinel"
  by (metis stored_def hd_conv_nth)

lemma stored_take_1: "stored g t es \<Longrightarrow> take (Suc 0) es = [sentinel]"
  by (metis storedD(1) stored_first take_Suc_conv_app_nth append_Nil length_greater_0_conv take0)

lemma stored_log_ok: "stored g t (entries l) \<Longrightarrow> log_ok l"
  by (simp add: stored_def log_ok_def)

lemma extends_refl [simp]: "extends g g"
  by (simp add: extends_def)

lemma extends_upd: "extends g (g(t := g t @ zs))"
  by (simp add: extends_def)

lemma extendsD: "extends g g' \<Longrightarrow> \<exists>zs. g' t = g t @ zs"
  by (simp add: extends_def)

lemma extends_take: "extends g g' \<Longrightarrow> k \<le> length (g t) \<Longrightarrow> take k (g' t) = take k (g t)"
  using extendsD [of g g' t] by auto

lemma extends_length: "extends g g' \<Longrightarrow> length (g t) \<le> length (g' t)"
  using extendsD [of g g' t] by auto

lemma extends_nth: "extends g g' \<Longrightarrow> i < length (g t) \<Longrightarrow> g' t ! i = g t ! i"
  using extendsD [of g g' t] by (auto simp: nth_append)

lemma extends_slice: "extends g g' \<Longrightarrow> k + m \<le> length (g t) \<Longrightarrow> slice k m (g' t) = slice k m (g t)"
  using extendsD [of g g' t] by (auto simp: slice_def)

lemma chained_extends:
  assumes "chained g es" and "extends g g'"
  shows "chained g' es"
  unfolding chained_def
proof (intro allI impI)
  fix i assume "i < length es"
  with assms(1) chainedD [of g es i] extends_length [OF assms(2), of "le_Term (es ! i)"]
    extends_take [OF assms(2), of "Suc i" "le_Term (es ! i)"]
  show "i < length (g' (le_Term (es ! i))) \<and> take (Suc i) es = take (Suc i) (g' (le_Term (es ! i)))"
    by simp
qed

lemma chained_take: "chained g es \<Longrightarrow> chained g (take k es)"
  by (auto simp: chained_def min_def)

lemma stored_extends: "stored g t es \<Longrightarrow> extends g g' \<Longrightarrow> stored g' t es"
  by (auto simp: stored_def intro: chained_extends)

lemma stored_mono: "stored g t es \<Longrightarrow> t \<le> t' \<Longrightarrow> stored g t' es"
  by (fastforce simp: stored_def)

lemma stored_take: "stored g t es \<Longrightarrow> stored g t (take (Suc k) es)"
  by (auto simp: stored_def chained_take indexed_take dest: in_set_takeD)

lemma stored_snoc:
  assumes "stored g t (g t)" and "le_Term e = t" and "le_Index e = int (length (g t))"
  shows "stored (g(t := g t @ [e])) t (g t @ [e])"
proof -
  let ?g = "g(t := g t @ [e])"
  have old: "chained ?g (g t)" by (rule chained_extends [OF storedD(4) [OF assms(1)] extends_upd])
  have "chained ?g (g t @ [e])"
    unfolding chained_def
  proof (intro allI impI)
    fix i assume i: "i < length (g t @ [e])"
    show "i < length (?g (le_Term ((g t @ [e]) ! i))) \<and>
          take (Suc i) (g t @ [e]) = take (Suc i) (?g (le_Term ((g t @ [e]) ! i)))"
    proof (cases "i < length (g t)")
      case True
      then show ?thesis using chainedD [OF old True] by (simp add: nth_append)
    next
      case False
      then have "(g t @ [e]) ! i = e" using i by (simp add: nth_append)
      then show ?thesis using i assms(2) by simp
    qed
  qed
  moreover have "indexed (g t @ [e])"
    using indexed_snoc [OF storedD(3) [OF assms(1)], of e] assms(3) by (simp add: entry_own_index)
  ultimately show ?thesis using assms(1,2) by (simp add: stored_def)
qed

text \<open>Two such logs match; within one the terms never decrease.\<close>

lemma chained_matching:
  assumes "chained g xs" and "chained g ys"
  shows "matching xs ys"
  unfolding matching_def using assms chainedD(2) by metis

definition tlogs_inv :: "(int \<Rightarrow> LogEntry list) \<Rightarrow> bool" where
  "tlogs_inv g \<longleftrightarrow> g 0 = [sentinel] \<and> (\<forall>t. g t \<noteq> [] \<longrightarrow> stored g t (g t))"

lemma tlogs_invD: "tlogs_inv g \<Longrightarrow> g t \<noteq> [] \<Longrightarrow> stored g t (g t)"
  by (simp add: tlogs_inv_def)

lemma stored_term_le:
  assumes "tlogs_inv g" and "chained g es" and "i < length es" and "j \<le> i"
  shows "le_Term (es ! j) \<le> le_Term (es ! i)"
proof -
  let ?t = "le_Term (es ! i)"
  note c = chainedD [OF assms(2,3)]
  then have "stored g ?t (g ?t)" using tlogs_invD [OF assms(1)] by (metis length_0_conv not_less0)
  then have "le_Term (g ?t ! j) \<le> ?t" using stored_nth_term c(1) assms(4) by simp
  moreover have "es ! j = g ?t ! j"
    using take_eq_nth [OF c(2), of j] c(1) assms(3,4) by simp
  ultimately show ?thesis by simp
qed

section \<open>The invariant\<close>

text \<open>What holds of one node, given the history.\<close>

definition next_ok :: "Node \<Rightarrow> bool" where
  "next_ok n \<longleftrightarrow>
     (\<forall>p \<in> set (peers n). \<exists>i. nextIndex n p = Some i \<and> 1 \<le> i \<and> i \<le> int (length (entries (nlog n))))"

definition node_logs :: "hist \<Rightarrow> string \<Rightarrow> Node \<Rightarrow> bool" where
  "node_logs h a n \<longleftrightarrow>
     stored (h_tlog h) (currentTerm n) (entries (nlog n)) \<and>
     (nstate n = Leader \<longrightarrow> h_tlog h (currentTerm n) = entries (nlog n) \<and> next_ok n) \<and>
     (nstate n = Candidate \<longrightarrow> h_clog h a (currentTerm n) = entries (nlog n))"

text \<open>The logs of the terms: a term has one exactly when it has a leader.\<close>

definition leaders_logs :: "hist \<Rightarrow> bool" where
  "leaders_logs h \<longleftrightarrow>
     tlogs_inv (h_tlog h) \<and> h_lead h 0 = None \<and>
     (\<forall>t. t \<noteq> 0 \<longrightarrow> (h_tlog h t = [] \<longleftrightarrow> h_lead h t = None)) \<and>
     (\<forall>t l Q. h_lead h t = Some (l, Q) \<longrightarrow> (\<exists>zs. h_tlog h t = h_clog h l t @ zs))"

text \<open>The logs candidates stood with, and the requests that advertise them.\<close>

definition candidates_logs :: "hist \<Rightarrow> bool" where
  "candidates_logs h \<longleftrightarrow>
     (\<forall>c t. (c, t, c) \<in> h_votes h \<longrightarrow> stored (h_tlog h) (t - 1) (h_clog h c t))"

definition vote_reqs_logs :: "(string \<times> string \<times> VoteRequest) set \<Rightarrow> hist \<Rightarrow> bool" where
  "vote_reqs_logs R h \<longleftrightarrow>
     (\<forall>c v req. (c, v, req) \<in> R \<longrightarrow>
        vr_LastLogIndex req = int (length (h_clog h c (vr_Term req))) - 1 \<and>
        vr_LastLogTerm req = le_Term (last (h_clog h c (vr_Term req))))"

text \<open>A request of replication carries a slice of the leader's log.\<close>

definition carries :: "(int \<Rightarrow> LogEntry list) \<Rightarrow> AppendEntriesRequest \<Rightarrow> bool" where
  "carries g req \<longleftrightarrow>
     0 \<le> ar_PrevLogIndex req \<and>
     nat (ar_PrevLogIndex req) + length (ar_Entries req) < length (g (ar_Term req)) \<and>
     ar_PrevLogTerm req = le_Term (g (ar_Term req) ! nat (ar_PrevLogIndex req)) \<and>
     ar_Entries req = slice (Suc (nat (ar_PrevLogIndex req))) (length (ar_Entries req)) (g (ar_Term req))"

definition append_reqs_logs :: "(string \<times> string \<times> AppendEntriesRequest) set \<Rightarrow> hist \<Rightarrow> bool" where
  "append_reqs_logs R h \<longleftrightarrow> (\<forall>a v req. (a, v, req) \<in> R \<longrightarrow> carries (h_tlog h) req)"

definition append_acks_ok ::
    "(string \<times> string \<times> AppendEntriesRequest \<times> AppendEntriesResponse) set \<Rightarrow> bool" where
  "append_acks_ok A \<longleftrightarrow>
     (\<forall>a v req resp. (a, v, req, resp) \<in> A \<longrightarrow> ap_ConflictIndex resp \<le> max 0 (ar_PrevLogIndex req))"

definition linv :: "cluster \<Rightarrow> hist \<Rightarrow> bool" where
  "linv s h \<longleftrightarrow>
     leaders_logs h \<and> candidates_logs h \<and> (\<forall>a. node_logs h a (nodes s a)) \<and>
     vote_reqs_logs (voteReqs s) h \<and> append_reqs_logs (appendReqs s) h \<and>
     append_acks_ok (appendAcks s)"

lemma linvI:
  assumes "leaders_logs h" and "candidates_logs h" and "\<And>a. node_logs h a (nodes s a)"
    and "vote_reqs_logs (voteReqs s) h" and "append_reqs_logs (appendReqs s) h"
    and "append_acks_ok (appendAcks s)"
  shows "linv s h"
  using assms by (simp add: linv_def)

lemma linvD:
  assumes "linv s h"
  shows "leaders_logs h" and "candidates_logs h" and "node_logs h a (nodes s a)"
    and "vote_reqs_logs (voteReqs s) h" and "append_reqs_logs (appendReqs s) h"
    and "append_acks_ok (appendAcks s)"
  using assms by (simp_all add: linv_def)

lemma leaders_logsD:
  assumes "leaders_logs h"
  shows "tlogs_inv (h_tlog h)" and "h_lead h 0 = None"
    and "h_lead h t = None \<Longrightarrow> t \<noteq> 0 \<Longrightarrow> h_tlog h t = []"
    and "h_lead h t = Some x \<Longrightarrow> stored (h_tlog h) t (h_tlog h t)"
    and "h_lead h t = Some (l, Q) \<Longrightarrow> \<exists>zs. h_tlog h t = h_clog h l t @ zs"
proof -
  show a: "tlogs_inv (h_tlog h)" "h_lead h 0 = None"
    and "h_lead h t = None \<Longrightarrow> t \<noteq> 0 \<Longrightarrow> h_tlog h t = []"
    and "h_lead h t = Some (l, Q) \<Longrightarrow> \<exists>zs. h_tlog h t = h_clog h l t @ zs"
    using assms by (simp_all add: leaders_logs_def)
  show "stored (h_tlog h) t (h_tlog h t)" if "h_lead h t = Some x"
  proof -
    have "t \<noteq> 0" using that a(2) by auto
    then show ?thesis using that assms a(1) tlogs_invD by (auto simp: leaders_logs_def)
  qed
qed

lemma node_logsD:
  assumes "node_logs h a n"
  shows "stored (h_tlog h) (currentTerm n) (entries (nlog n))"
    and "nstate n = Leader \<Longrightarrow> h_tlog h (currentTerm n) = entries (nlog n)"
    and "nstate n = Leader \<Longrightarrow> next_ok n"
    and "nstate n = Candidate \<Longrightarrow> h_clog h a (currentTerm n) = entries (nlog n)"
  using assms by (simp_all add: node_logs_def)

lemma vote_reqs_logsD:
  assumes "vote_reqs_logs R h" and "(c, v, req) \<in> R"
  shows "vr_LastLogIndex req = int (length (h_clog h c (vr_Term req))) - 1"
    and "vr_LastLogTerm req = le_Term (last (h_clog h c (vr_Term req)))"
  using assms unfolding vote_reqs_logs_def by blast+

lemma candidates_logsD:
  "candidates_logs h \<Longrightarrow> (c, t, c) \<in> h_votes h \<Longrightarrow> stored (h_tlog h) (t - 1) (h_clog h c t)"
  by (simp add: candidates_logs_def)

lemma append_reqs_logsD: "append_reqs_logs R h \<Longrightarrow> (a, v, req) \<in> R \<Longrightarrow> carries (h_tlog h) req"
  unfolding append_reqs_logs_def by blast

lemma carriesD:
  assumes "carries g req"
  shows "0 \<le> ar_PrevLogIndex req"
    and "nat (ar_PrevLogIndex req) + length (ar_Entries req) < length (g (ar_Term req))"
    and "ar_PrevLogTerm req = le_Term (g (ar_Term req) ! nat (ar_PrevLogIndex req))"
    and "ar_Entries req = slice (Suc (nat (ar_PrevLogIndex req))) (length (ar_Entries req)) (g (ar_Term req))"
  using assms by (simp_all add: carries_def)

lemma carries_extends:
  assumes "carries g req" and "extends g g'"
  shows "carries g' req"
proof -
  note C = carriesD [OF assms(1)]
  let ?p = "nat (ar_PrevLogIndex req)" and ?m = "length (ar_Entries req)" and ?t = "ar_Term req"
  have "slice (Suc ?p) ?m (g' ?t) = slice (Suc ?p) ?m (g ?t)"
    using C(2) by (intro extends_slice [OF assms(2)]) simp
  then show ?thesis
    using C extends_length [OF assms(2), of ?t] extends_nth [OF assms(2), of ?p ?t]
    by (simp add: carries_def)
qed

text \<open>
  The history only grows: leaders' logs are extended, votes are added, and the log of a
  recorded candidacy stays.
\<close>

definition hist_grows :: "hist \<Rightarrow> hist \<Rightarrow> bool" where
  "hist_grows h h' \<longleftrightarrow>
     extends (h_tlog h) (h_tlog h') \<and> h_votes h \<subseteq> h_votes h' \<and>
     (\<forall>c t. (c, t, c) \<in> h_votes h \<longrightarrow> h_clog h' c t = h_clog h c t)"

lemma hist_grows_refl [simp]: "hist_grows h h"
  by (simp add: hist_grows_def)

lemma node_logs_grows:
  assumes "node_logs h a n" and "hist_grows h h'"
    and "nstate n = Leader \<Longrightarrow> h_tlog h' (currentTerm n) = h_tlog h (currentTerm n)"
    and "nstate n = Candidate \<Longrightarrow> (a, currentTerm n, a) \<in> h_votes h"
  shows "node_logs h' a n"
  using assms stored_extends by (auto simp: node_logs_def hist_grows_def)

lemma append_reqs_logs_grows:
  "append_reqs_logs R h \<Longrightarrow> hist_grows h h' \<Longrightarrow> append_reqs_logs R h'"
  unfolding append_reqs_logs_def hist_grows_def by (blast intro: carries_extends)

lemma vote_reqs_logs_grows:
  assumes "vote_msgs_inv s h" and "vote_reqs_logs (voteReqs s) h" and "hist_grows h h'"
  shows "vote_reqs_logs (voteReqs s) h'"
  unfolding vote_reqs_logs_def
proof (intro allI impI)
  fix c v req assume r: "(c, v, req) \<in> voteReqs s"
  then have "h_clog h' c (vr_Term req) = h_clog h c (vr_Term req)"
    using vote_msgs_invD(4) [OF assms(1)] assms(3) by (auto simp: hist_grows_def)
  with vote_reqs_logsD [OF assms(2) r]
  show "vr_LastLogIndex req = int (length (h_clog h' c (vr_Term req))) - 1 \<and>
        vr_LastLogTerm req = le_Term (last (h_clog h' c (vr_Term req)))"
    by simp
qed

lemma candidates_logs_grows:
  assumes "candidates_logs h" and "hist_grows h h'"
    and "\<And>c t. (c, t, c) \<in> h_votes h' \<Longrightarrow> (c, t, c) \<notin> h_votes h \<Longrightarrow>
           stored (h_tlog h') (t - 1) (h_clog h' c t)"
  shows "candidates_logs h'"
  unfolding candidates_logs_def
proof (intro allI impI)
  fix c t assume "(c, t, c) \<in> h_votes h'"
  then show "stored (h_tlog h') (t - 1) (h_clog h' c t)"
    using assms stored_extends unfolding candidates_logs_def hist_grows_def
    by (cases "(c, t, c) \<in> h_votes h") fastforce+
qed

section \<open>Events that leave the logs alone\<close>

definition quiet :: "Node \<Rightarrow> Node \<Rightarrow> bool" where
  "quiet m n \<longleftrightarrow>
     nlog n = nlog m \<and> peers n = peers m \<and> currentTerm m \<le> currentTerm n \<and>
     (nstate n \<noteq> Follower \<longrightarrow> nstate n = nstate m \<and> currentTerm n = currentTerm m \<and>
        nextIndex n = nextIndex m \<and> matchIndex n = matchIndex m)"

lemma quiet_refl [simp]: "quiet n n"
  by (simp add: quiet_def)

lemma quiet_set_node: "quiet (nodes s v) n \<Longrightarrow> quiet (nodes s a) (((nodes s)(v := n)) a)"
  by simp

lemma node_logs_quiet:
  assumes "node_logs h a m" and "quiet m n"
  shows "node_logs h a n"
proof -
  have "stored (h_tlog h) (currentTerm n) (entries (nlog n))"
    using assms stored_mono unfolding node_logs_def quiet_def by metis
  then show ?thesis using assms by (auto simp: node_logs_def quiet_def next_ok_def)
qed

lemma linv_quiet:
  assumes inv: "linv s h" and q: "\<And>a. quiet (nodes s a) (nodes s' a)"
    and m: "voteReqs s' = voteReqs s" "appendReqs s' = appendReqs s" "appendAcks s' = appendAcks s"
    and h: "h_tlog h' = h_tlog h" "h_clog h' = h_clog h" "h_lead h' = h_lead h"
      "\<And>c t. (c, t, c) \<in> h_votes h' \<longleftrightarrow> (c, t, c) \<in> h_votes h"
  shows "linv s' h'"
proof (rule linvI)
  note D = linvD [OF inv]
  fix a
  have "node_logs h a (nodes s' a)" by (rule node_logs_quiet [OF D(3) q])
  then show "node_logs h' a (nodes s' a)" by (simp add: node_logs_def h)
qed (use linvD [OF inv] in \<open>simp_all add: m h leaders_logs_def candidates_logs_def
       vote_reqs_logs_def append_reqs_logs_def append_acks_ok_def\<close>)

lemma HandleVoteRequest_quiet: "quiet n (fst (HandleVoteRequest n req))"
  by (simp add: quiet_def node_simps)

lemma requestVoteFromPeer_quiet:
  "requestVoteFromPeer ans t (n, k) = (n', k') \<Longrightarrow> quiet n n'"
  by (cases rule: requestVoteFromPeer_cases [of ans t n k]) (auto simp: quiet_def node_simps)

lemma runCommitApplier_quiet: "runCommitApplier_step n ap = Some (n', ap') \<Longrightarrow> quiet n n'"
  by (auto simp: quiet_def elim!: runCommitApplier_step_frame)

lemma runCommitNotifier_quiet: "runCommitNotifier_tick n = Some (n', post) \<Longrightarrow> quiet n n'"
  by (auto simp: runCommitNotifier_tick_def quiet_def Let_def split: list.splits)

lemma linv_RecvVote:
  assumes inv: "linv s h" and v: "vinv d k s h" and st: "cluster_step s (RecvVote c v req) s'"
  shows "linv s' (hist_upd s (RecvVote c v req) s' h)"
  using st
proof (cases rule: RecvVoteE)
  case (1 n resp)
  have "v \<noteq> c" using vote_msgs_invD(2) [OF vinvD(7) [OF v] 1(2)] .
  moreover have "quiet (nodes s v) n" using HandleVoteRequest_quiet [of "nodes s v" req] 1(3) by simp
  ultimately show ?thesis
    by (intro linv_quiet [OF inv]) (auto simp: 1(1))
qed

lemma linv_VoteAnswer:
  assumes inv: "linv s h" and st: "cluster_step s (VoteAnswer c v req resp) s'"
  shows "linv s' (hist_upd s (VoteAnswer c v req resp) s' h)"
  using st
proof (cases rule: VoteAnswerE)
  case (1 b n m)
  with requestVoteFromPeer_quiet have "quiet (nodes s c) n" by blast
  then show ?thesis by (intro linv_quiet [OF inv]) (auto simp: 1(1))
qed

lemma linv_VoteLost:
  assumes inv: "linv s h" and st: "cluster_step s (VoteLost c v) s'"
  shows "linv s' (hist_upd s (VoteLost c v) s' h)"
  using st
proof (cases rule: VoteLostE)
  case (1 b n m)
  with requestVoteFromPeer_quiet have "quiet (nodes s c) n" by blast
  then show ?thesis by (intro linv_quiet [OF inv]) (auto simp: 1(1))
qed

lemma linv_Apply:
  assumes inv: "linv s h" and st: "cluster_step s (Apply a) s'"
  shows "linv s' (hist_upd s (Apply a) s' h)"
  using st
proof (cases rule: ApplyE)
  case (1 n ap)
  with runCommitApplier_quiet have "quiet (nodes s a) n" by blast
  then show ?thesis by (intro linv_quiet [OF inv]) (auto simp: 1(1))
qed

lemma linv_Notify:
  assumes inv: "linv s h" and st: "cluster_step s (Notify a) s'"
  shows "linv s' (hist_upd s (Notify a) s' h)"
  using st
proof (cases rule: NotifyE)
  case (1 n post)
  with runCommitNotifier_quiet have "quiet (nodes s a) n" by blast
  then show ?thesis by (intro linv_quiet [OF inv]) (auto simp: 1(1))
qed

section \<open>Elections\<close>

lemma active_has_vote: "votes_inv s h \<Longrightarrow> nstate (nodes s a) = Candidate \<Longrightarrow>
    (a, currentTerm (nodes s a), a) \<in> h_votes h"
  by (simp add: votes_invD(6))

lemma leaders_logs_same:
  assumes "leaders_logs h" and "leader_inv s h" and "hist_grows h h'"
    and "h_tlog h' = h_tlog h" and "h_lead h' = h_lead h"
  shows "leaders_logs h'"
proof -
  have "h_clog h' l t = h_clog h l t" if "h_lead h t = Some (l, Q)" for l t Q
    using leader_invD(2,3) [OF assms(2) that] assms(3) by (auto simp: hist_grows_def)
  then show ?thesis using assms(1,4,5) by (auto simp: leaders_logs_def)
qed

lemma linv_Timeout:
  assumes inv: "linv s h" and v: "vinv d k s h" and k: "int k < max_int"
    and st: "cluster_step s (Timeout a) s'"
  shows "linv s' (hist_upd s (Timeout a) s' h)"
  using v k st
proof (cases rule: Timeout_step)
  case (1 n req)
  note D = linvD [OF inv] and V = vinvD [OF v]
  let ?t = "currentTerm (nodes s a) + 1" and ?es = "entries (nlog (nodes s a))"
  define h' where "h' = hist_upd s (Timeout a) s' h"
  have h: "h_votes h' = insert (a, ?t, a) (h_votes h)" "h_tlog h' = h_tlog h" "h_lead h' = h_lead h"
      "h_clog h' = (h_clog h)(a := (h_clog h a)(?t := ?es))"
    unfolding h'_def 1(6) by (simp_all add: with_candidacy_def)
  have gr: "hist_grows h h'" using 1(7) by (auto simp: hist_grows_def h)
  note es = node_logsD(1) [OF D(3), of a]
  have "linv s' h'"
  proof (rule linvI)
    show "leaders_logs h'" by (rule leaders_logs_same [OF D(1) V(6) gr h(2,3)])
    show "candidates_logs h'"
      by (rule candidates_logs_grows [OF D(2) gr]) (use es in \<open>auto simp: h\<close>)
    show "append_reqs_logs (appendReqs s') h'"
      using append_reqs_logs_grows [OF D(5) gr] by (simp add: 1(3))
    show "append_acks_ok (appendAcks s')" using D(6) by (simp add: 1(3))
    have "le_Term (last ?es) = LastTerm (nlog (nodes s a))"
      using stored_log_ok [OF es] by (simp add: rl.last_term_eq)
    then show "vote_reqs_logs (voteReqs s') h'"
      using vote_reqs_logs_grows [OF V(7) D(4) gr]
      by (auto simp: vote_reqs_logs_def 1(1,2,3,5) node_simps h LastIndex_def)
    fix b
    show "node_logs h' b (nodes s' b)"
    proof (cases "b = a")
      case True
      have "stored (h_tlog h) ?t ?es" by (rule stored_mono [OF es]) simp
      then show ?thesis using True by (simp add: 1(1,3,5) node_logs_def node_simps h)
    next
      case False
      have "node_logs h' b (nodes s b)"
        by (rule node_logs_grows [OF D(3) gr]) (simp_all add: h votes_invD(6) [OF V(4)])
      then show ?thesis using False by (simp add: 1(3))
    qed
  qed
  then show ?thesis by (simp add: h'_def)
qed

text \<open>Whoever wins an election starts the log of its term with the log it stood with.\<close>

lemma linv_win:
  assumes inv: "linv s h" and v: "vinv d k s h" and w: "wins s c b t n"
    and n: "n = becomeLeader (nodes s c)" and h': "h_tlog h' = (h_tlog h)(t := entries (nlog n))"
      "h_clog h' = h_clog h" "h_votes h' = h_votes h" "h_lead h' = (h_lead h)(t \<mapsto> (c, Q))"
    and s': "nodes s' = (nodes s)(c := n)" "voteReqs s' = voteReqs s" "appendReqs s' = appendReqs s"
      "appendAcks s' = appendAcks s"
  shows "linv s' h'"
proof (rule linvI)
  note D = linvD [OF inv] and V = vinvD [OF v] and W = w [unfolded wins_def]
  have none: "h_lead h t = None" using wins_leaderless [OF v w] by simp
  have t0: "t \<noteq> 0" using votes_invD(1,6) [OF V(4), of c] W by fastforce
  have empty: "h_tlog h t = []" by (rule leaders_logsD(3) [OF D(1) none t0])
  have ext: "extends (h_tlog h) (h_tlog h')" using empty by (auto simp: extends_def h')
  then have gr: "hist_grows h h'" by (simp add: hist_grows_def h')
  have L: "nlog n = nlog (nodes s c)" by (simp add: n node_simps)
  have cl: "h_clog h c t = entries (nlog n)" using node_logsD(4) [OF D(3), of c] W L by simp
  have es: "stored (h_tlog h') t (entries (nlog n))"
    using stored_extends [OF node_logsD(1) [OF D(3), of c] ext] W L by simp
  have other: "stored (h_tlog h') t' (h_tlog h t')" if "h_tlog h t' \<noteq> []" for t'
    using stored_extends [OF tlogs_invD [OF leaders_logsD(1) [OF D(1)] that] ext] .
  have "tlogs_inv (h_tlog h')"
    using es other t0 leaders_logsD(1) [OF D(1)] by (auto simp: tlogs_inv_def h'(1))
  then show "leaders_logs h'"
    using D(1) t0 cl storedD(1) [OF es] by (auto simp: leaders_logs_def h')
  show "candidates_logs h'" by (rule candidates_logs_grows [OF D(2) gr]) (simp add: h')
  show "append_reqs_logs (appendReqs s') h'" using append_reqs_logs_grows [OF D(5) gr] s' by simp
  show "append_acks_ok (appendAcks s')" using D(6) s' by simp
  show "vote_reqs_logs (voteReqs s') h'" using vote_reqs_logs_grows [OF V(7) D(4) gr] s' by simp
  fix a
  show "node_logs h' a (nodes s' a)"
  proof (cases "a = c")
    case True
    have "next_ok n" using storedD(1) [OF es]
      by (auto simp: next_ok_def n node_simps LastIndex_def Suc_le_eq)
    then show ?thesis using True W es by (simp add: s' node_logs_def h'(1))
  next
    case False
    have "node_logs h' a (nodes s a)"
    proof (rule node_logs_grows [OF D(3) gr])
      show "nstate (nodes s a) = Candidate \<Longrightarrow> (a, currentTerm (nodes s a), a) \<in> h_votes h"
        using votes_invD(6) [OF V(4)] by simp
      assume "nstate (nodes s a) = Leader"
      then have "currentTerm (nodes s a) \<noteq> t" using leader_inv_role [OF V(6), of a] none by auto
      then show "h_tlog h' (currentTerm (nodes s a)) = h_tlog h (currentTerm (nodes s a))"
        by (simp add: h')
    qed
    then show ?thesis using False by (simp add: s')
  qed
qed

lemma linv_ElectionEnd:
  assumes inv: "linv s h" and v: "vinv d k s h" and st: "cluster_step s (ElectionEnd c) s'"
  shows "linv s' (hist_upd s (ElectionEnd c) s' h)"
  using st
proof (cases rule: ElectionEndE)
  case (1 b n won)
  from startElection_finish_cases [OF 1(4)] consider (lost) "n = nodes s c"
    | (won) "n = becomeLeader (nodes s c)" "nstate (nodes s c) = Candidate"
        "currentTerm (nodes s c) = el_term b"
        "majorityOf (int (length (peers (nodes s c))) + 1) \<le> el_votes b"
    by blast
  then show ?thesis
  proof cases
    case lost
    then show ?thesis by (intro linv_quiet [OF inv]) (auto simp: 1(1))
  next
    case won
    then have "wins s c b (el_term b) n" using 1(2) by (simp add: wins_def node_simps)
    from linv_win [OF inv v this won(1)] show ?thesis
      using won by (auto simp: 1(1) Let_def node_simps)
  qed
qed

section \<open>Replication\<close>

lemma HandleStroke_leader:
  "nstate n = Leader \<Longrightarrow> fst (HandleStroke n st) =
     signalNewEntry (n\<lparr>nlog := fst (Append (nlog n) \<lparr>le_Index = 0, le_Term = currentTerm n, le_Stroke = st\<rparr>)\<rparr>)"
  by (simp add: HandleStroke_def Let_def)

lemma HandleStroke_refused: "nstate n \<noteq> Leader \<Longrightarrow> HandleStroke n st = (n, Some ErrNotLeader)"
  by (simp add: HandleStroke_def)

text \<open>What a stroke does when a leader takes it: one entry of its term is added to its log and to the history of the term's log.\<close>

definition leads_stroke :: "cluster \<Rightarrow> hist \<Rightarrow> string \<Rightarrow> LogEntry \<Rightarrow> Node \<Rightarrow> cluster \<Rightarrow> hist \<Rightarrow> bool" where
  "leads_stroke s h a e n s' h' \<longleftrightarrow>
     (let t = currentTerm (nodes s a); es = entries (nlog (nodes s a))
      in nstate (nodes s a) = Leader \<and> h_tlog h t = es \<and> le_Term e = t \<and> le_Index e = int (length es) \<and>
         s' = set_node s a n \<and> entries (nlog n) = es @ [e] \<and> currentTerm n = t \<and> nstate n = Leader \<and>
         peers n = peers (nodes s a) \<and> nextIndex n = nextIndex (nodes s a) \<and> matchIndex n = matchIndex (nodes s a) \<and>
         h_tlog h' = (h_tlog h)(t := es @ [e]) \<and> h_clog h' = h_clog h \<and> h_votes h' = h_votes h \<and> h_lead h' = h_lead h \<and>
         h_acks h' = h_acks h \<union> {(a, t, i) | i. i < Suc (length es)})"

lemma leads_strokeD:
  assumes "leads_stroke s h a e n s' h'"
  shows "nstate (nodes s a) = Leader" and "h_tlog h (currentTerm (nodes s a)) = entries (nlog (nodes s a))"
    and "le_Term e = currentTerm (nodes s a)" and "le_Index e = int (length (entries (nlog (nodes s a))))"
    and "s' = set_node s a n" and "entries (nlog n) = entries (nlog (nodes s a)) @ [e]"
    and "currentTerm n = currentTerm (nodes s a)" and "nstate n = Leader" and "peers n = peers (nodes s a)"
    and "nextIndex n = nextIndex (nodes s a)" and "matchIndex n = matchIndex (nodes s a)"
    and "h_tlog h' = (h_tlog h)(currentTerm (nodes s a) := h_tlog h (currentTerm (nodes s a)) @ [e])"
    and "h_clog h' = h_clog h" and "h_votes h' = h_votes h" and "h_lead h' = h_lead h"
    and "h_acks h' = h_acks h \<union> {(a, currentTerm (nodes s a), i) | i. i < Suc (length (entries (nlog (nodes s a))))}"
  using assms by (simp_all add: leads_stroke_def Let_def)

lemma Stroke_cases:
  assumes "linv s h" and st: "cluster_step s (Stroke a str) s'"
  obtains (refused) n where "s' = set_node s a n" and "n = nodes s a" and "hist_upd s (Stroke a str) s' h = h"
  | (taken) e n where "leads_stroke s h a e n s' (hist_upd s (Stroke a str) s' h)"
  using st
proof (cases rule: StrokeE)
  case (1 n err)
  then have n: "n = fst (HandleStroke (nodes s a) str)" by simp
  show thesis
  proof (cases "nstate (nodes s a) = Leader")
    case False
    then show thesis using 1(1) n refused [of n] by (simp add: HandleStroke_refused)
  next
    case True
    have "h_tlog h (currentTerm (nodes s a)) = entries (nlog (nodes s a))"
      by (rule node_logsD(2) [OF linvD(3) [OF assms(1)] True])
    then show thesis
      using True by (intro taken [of "\<lparr>le_Index = int (length (entries (nlog (nodes s a)))),
          le_Term = currentTerm (nodes s a), le_Stroke = str\<rparr>" n])
        (simp add: leads_stroke_def 1(1) n HandleStroke_leader node_simps log_simps Let_def)
  qed
qed

lemma leads_stroke_stored:
  assumes inv: "linv s h" and v: "vinv d k s h" and S: "leads_stroke s h a e n s' h'"
  shows "extends (h_tlog h) (h_tlog h')" and "hist_grows h h'" and "currentTerm (nodes s a) \<noteq> 0"
    and "stored (h_tlog h') (currentTerm (nodes s a)) (entries (nlog n))" and "\<exists>Q. h_lead h (currentTerm (nodes s a)) = Some (a, Q)"
proof -
  note D = linvD [OF inv] and V = vinvD [OF v] and S = leads_strokeD [OF S]
  obtain Q where Q: "h_lead h (currentTerm (nodes s a)) = Some (a, Q)" using leader_inv_role [OF V(6) S(1)] by blast
  then show "\<exists>Q. h_lead h (currentTerm (nodes s a)) = Some (a, Q)" by blast
  show ext: "extends (h_tlog h) (h_tlog h')" unfolding S(12) by (rule extends_upd)
  then show "hist_grows h h'" by (simp add: hist_grows_def S(13-15))
  show "currentTerm (nodes s a) \<noteq> 0" using Q leaders_logsD(2) [OF D(1)] by auto
  show "stored (h_tlog h') (currentTerm (nodes s a)) (entries (nlog n))"
    using stored_snoc [OF leaders_logsD(4) [OF D(1) Q], of e] S(2,3,4) by (simp add: S(6,12))
qed

lemma leaders_logs_stroke:
  assumes inv: "linv s h" and v: "vinv d k s h" and S: "leads_stroke s h a e n s' h'"
  shows "leaders_logs h'"
proof -
  note D = linvD [OF inv] and G = leads_stroke_stored [OF assms] and S = leads_strokeD [OF S]
  let ?t = "currentTerm (nodes s a)"
  obtain Q where Q: "h_lead h ?t = Some (a, Q)" using G(5) by blast
  have "stored (h_tlog h') t' (h_tlog h t')" if "h_tlog h t' \<noteq> []" for t'
    using stored_extends [OF tlogs_invD [OF leaders_logsD(1) [OF D(1)] that] G(1)] .
  then have "tlogs_inv (h_tlog h')"
    using G(3,4) leaders_logsD(1) [OF D(1)] by (auto simp: tlogs_inv_def S(2,6,12))
  moreover obtain zs where "entries (nlog (nodes s a)) = h_clog h a ?t @ zs" using leaders_logsD(5) [OF D(1) Q] S(2) by auto
  ultimately show ?thesis
    using D(1) G(3) Q unfolding leaders_logs_def S(12-15) by (auto simp: S(2))
qed

lemma node_logs_stroke:
  assumes inv: "linv s h" and v: "vinv d k s h" and S: "leads_stroke s h a e n s' h'"
  shows "node_logs h' b (nodes s' b)"
proof (cases "b = a")
  case True
  note D = linvD [OF inv] and G = leads_stroke_stored [OF assms] and S = leads_strokeD [OF S]
  have "next_ok n" using node_logsD(3) [OF D(3) S(1)] by (force simp: next_ok_def S(6,9,10))
  then show ?thesis using True G(4) by (simp add: S(5) node_logs_def S(2,6,7,8,12))
next
  case False
  note D = linvD [OF inv] and V = vinvD [OF v] and G = leads_stroke_stored [OF assms] and S = leads_strokeD [OF S]
  obtain Q where Q: "h_lead h (currentTerm (nodes s a)) = Some (a, Q)" using G(5) by blast
  have "node_logs h' b (nodes s b)"
  proof (rule node_logs_grows [OF D(3) G(2)])
    show "nstate (nodes s b) = Candidate \<Longrightarrow> (b, currentTerm (nodes s b), b) \<in> h_votes h"
      using votes_invD(6) [OF V(4)] by simp
    assume "nstate (nodes s b) = Leader"
    then have "currentTerm (nodes s b) \<noteq> currentTerm (nodes s a)"
      using leader_inv_role [OF V(6), of b] Q False by auto
    then show "h_tlog h' (currentTerm (nodes s b)) = h_tlog h (currentTerm (nodes s b))" by (simp add: S(12))
  qed
  then show ?thesis using False by (simp add: S(5))
qed

lemma linv_Stroke:
  assumes inv: "linv s h" and v: "vinv d k s h" and st: "cluster_step s (Stroke a str) s'"
  shows "linv s' (hist_upd s (Stroke a str) s' h)"
  using inv st
proof (cases rule: Stroke_cases)
  case (refused n)
  show ?thesis by (rule linv_quiet [OF inv]) (use refused in \<open>auto\<close>)
next
  case (taken e n)
  note D = linvD [OF inv] and G = leads_stroke_stored [OF inv v taken] and S = leads_strokeD [OF taken]
  show ?thesis
  proof (rule linvI)
    show "leaders_logs (hist_upd s (Stroke a str) s' h)" by (rule leaders_logs_stroke [OF inv v taken])
    show "candidates_logs (hist_upd s (Stroke a str) s' h)" by (rule candidates_logs_grows [OF D(2) G(2)]) (simp only: S(14))
    show "node_logs (hist_upd s (Stroke a str) s' h) b (nodes s' b)" for b by (rule node_logs_stroke [OF inv v taken])
    show "append_reqs_logs (appendReqs s') (hist_upd s (Stroke a str) s' h)"
      using append_reqs_logs_grows [OF D(5) G(2)] S(5) by simp
    show "append_acks_ok (appendAcks s')" using D(6) S(5) by simp
    show "vote_reqs_logs (voteReqs s') (hist_upd s (Stroke a str) s' h)"
      using vote_reqs_logs_grows [OF vinvD(7) [OF v] D(4) G(2)] S(5) by simp
  qed
qed

lemma linv_frame:
  assumes inv: "linv s h" and n: "\<And>a. node_logs h a (nodes s' a)"
    and m: "voteReqs s' = voteReqs s" "append_reqs_logs (appendReqs s') h"
      "append_acks_ok (appendAcks s')"
    and h: "h_tlog h' = h_tlog h" "h_clog h' = h_clog h" "h_lead h' = h_lead h" "h_votes h' = h_votes h"
  shows "linv s' h'"
  using inv n m by (simp add: linv_def leaders_logs_def candidates_logs_def node_logs_def
      vote_reqs_logs_def append_reqs_logs_def h)

lemma appendEntriesRequest_leader:
  assumes "appendEntriesRequest n p = Some req" and "next_ok n" and "p \<in> set (peers n)"
    and "indexed (entries (nlog n))" and "g (currentTerm n) = entries (nlog n)"
  shows "carries g req" and "ar_Term req = currentTerm n" and "ar_LeaderCommit req = commitIndex n"
    and "ar_PrevLogIndex req + int (length (ar_Entries req)) = LastIndex (nlog n)"
    and "nstate n = Leader"
proof -
  let ?es = "entries (nlog n)"
  obtain i where i: "nextIndex n p = Some i" "1 \<le> i" "i \<le> int (length ?es)"
    using assms(2,3) by (auto simp: next_ok_def)
  then have req: "ar_Term req = currentTerm n" "ar_PrevLogIndex req = i - 1" "nstate n = Leader"
      "ar_PrevLogTerm req = Term (nlog n) (i - 1)" "ar_Entries req = GetFrom (nlog n) i"
      "ar_LeaderCommit req = commitIndex n"
    using assms(1) by (auto simp: appendEntriesRequest_def Let_def split: if_splits)
  then show "ar_Term req = currentTerm n" and "ar_LeaderCommit req = commitIndex n"
    and "nstate n = Leader" by simp_all
  have ents: "GetFrom (nlog n) i = drop (nat i) ?es" using i by (simp add: rl.get_from_eq)
  then show "ar_PrevLogIndex req + int (length (ar_Entries req)) = LastIndex (nlog n)"
    using i by (simp add: req LastIndex_def)
  have "Suc (nat (i - 1)) = nat i" using i(2) by simp
  then show "carries g req"
    using i by (simp add: carries_def req ents assms(5) slice_def Term_def)
qed

lemma linv_SendAppend:
  assumes inv: "linv s h" and st: "cluster_step s (SendAppend a p) s'"
  shows "linv s' (hist_upd s (SendAppend a p) s' h)"
  using st
proof (cases rule: SendAppendE)
  case (1 req)
  note D = linvD [OF inv]
  have "nstate (nodes s a) = Leader" using 1(4) by (auto simp: appendEntriesRequest_def split: if_splits)
  note N = node_logsD(2,3) [OF D(3) this] and S = storedD(3) [OF node_logsD(1) [OF D(3), of a]]
  have "carries (h_tlog h) req" using 1(3,4) N S by (intro appendEntriesRequest_leader(1))
  then show ?thesis
    using D(3,5,6) by (intro linv_frame [OF inv]) (auto simp: 1(1) append_reqs_logs_def)
qed

text \<open>The consistency check makes sure that the slice continues the follower's log.\<close>

lemma consistent_prefix:
  assumes "carries g req" and "stored g t (entries l)" and "stored g (ar_Term req) (g (ar_Term req))"
    and "prevConflict l req = None"
  shows "Suc (nat (ar_PrevLogIndex req)) \<le> length (entries l)"
    and "take (Suc (nat (ar_PrevLogIndex req))) (entries l) =
         take (Suc (nat (ar_PrevLogIndex req))) (g (ar_Term req))"
proof -
  note C = carriesD [OF assms(1)]
  let ?p = "nat (ar_PrevLogIndex req)" and ?G = "g (ar_Term req)"
  have "Suc ?p \<le> length (entries l) \<and> take (Suc ?p) (entries l) = take (Suc ?p) ?G"
  proof (cases "ar_PrevLogIndex req = 0")
    case True
    then show ?thesis
      using stored_take_1 [OF assms(2)] stored_take_1 [OF assms(3)] storedD(1) [OF assms(2)]
      by (simp add: Suc_le_eq)
  next
    case False
    with C(1) assms(4) have "GetEntry l (ar_PrevLogIndex req) = (entries l ! ?p, True)"
        and p: "?p < length (entries l)" and "le_Term (entries l ! ?p) = ar_PrevLogTerm req"
      by (auto simp: prevConflict_def GetEntry_def split: if_splits)
    then have "take (Suc ?p) (entries l) = take (Suc ?p) ?G"
      using C(2,3) by (intro matchingD [OF chained_matching [OF storedD(4) [OF assms(2)] storedD(4) [OF assms(3)]]])
        simp_all
    then show ?thesis using p by simp
  qed
  then show "Suc ?p \<le> length (entries l)" and "take (Suc ?p) (entries l) = take (Suc ?p) ?G"
    by simp_all
qed

lemma prevConflict_bound:
  "prevConflict l req = Some ci \<Longrightarrow> 0 \<le> ar_PrevLogIndex req \<and> ci \<le> ar_PrevLogIndex req"
  by (auto simp: prevConflict_def GetEntry_def LastIndex_def split: if_splits)

definition merged_with :: "(int \<Rightarrow> LogEntry list) \<Rightarrow> Node \<Rightarrow> AppendEntriesRequest \<Rightarrow> LogEntry list" where
  "merged_with g n req =
     merged (Suc (nat (ar_PrevLogIndex req))) (length (ar_Entries req)) (entries (nlog n)) (g (ar_Term req))"

lemma HandleAppendEntries_log:
  assumes "carries g req" and "stored g t (entries (nlog n))"
    and "stored g (ar_Term req) (g (ar_Term req))"
  shows "entries (nlog (fst (HandleAppendEntries n req))) = entries (nlog n) \<or>
         currentTerm n \<le> ar_Term req \<and> prevConflict (nlog n) req = None \<and>
         entries (nlog (fst (HandleAppendEntries n req))) = merged_with g n req"
proof (cases rule: HandleAppendEntries_cases [of req n])
  case (stored l)
  note P = consistent_prefix [OF assms stored(2)]
  have "fst (AppendEntries (nlog n) (ar_Entries req) (commitIndex n)) =
          (nlog n)\<lparr>entries := merged_with g n req\<rparr>"
    using AppendEntries_slice [OF storedD(3) [OF assms(3)] P(1), of "length (ar_Entries req)" "commitIndex n"]
      stored(3) carriesD(4) [OF assms(1), symmetric] by (auto simp: merged_with_def)
  then show ?thesis
    using stored by (simp add: HandleAppendEntries_store node_simps)
next
  case (panicked l p)
  note P = consistent_prefix [OF assms panicked(2)]
  have "l = nlog n"
    using AppendEntries_slice [OF storedD(3) [OF assms(3)] P(1), of "length (ar_Entries req)" "commitIndex n"]
      panicked(3) carriesD(4) [OF assms(1), symmetric] by auto
  then show ?thesis using panicked by (simp add: HandleAppendEntries_panic node_simps)
qed (simp_all add: HandleAppendEntries_eqs node_simps)

lemma merged_stored:
  assumes "carries g req" and "stored g t (entries (nlog n))"
    and "stored g (ar_Term req) (g (ar_Term req))" and "prevConflict (nlog n) req = None"
    and "t \<le> ar_Term req"
  shows "stored g (ar_Term req) (merged_with g n req)"
proof -
  note P = consistent_prefix [OF assms(1-4)]
  have m: "matching (entries (nlog n)) (g (ar_Term req))"
    using chained_matching storedD(4) assms(2,3) by blast
  from merged_cases [OF m P(2,1), of "length (ar_Entries req)"] carriesD(2) [OF assms(1)]
  have "merged_with g n req = entries (nlog n) \<or>
        merged_with g n req = take (Suc (nat (ar_PrevLogIndex req) + length (ar_Entries req))) (g (ar_Term req))"
    by (auto simp: merged_with_def)
  then show ?thesis using stored_take [OF assms(3)] stored_mono [OF assms(2,5)] by metis
qed

lemma linv_RecvAppend:
  assumes inv: "linv s h" and v: "vinv d k s h" and st: "cluster_step s (RecvAppend a v req) s'"
  shows "linv s' (hist_upd s (RecvAppend a v req) s' h)"
  using st
proof (cases rule: RecvAppendE)
  case (1 n r)
  note D = linvD [OF inv] and V = vinvD [OF v]
  have n: "n = fst (HandleAppendEntries (nodes s v) req)" and r: "r = snd (HandleAppendEntries (nodes s v) req)"
    using 1(3) by simp_all
  note C = append_reqs_logsD [OF D(5) 1(2)]
  obtain Q where Q: "h_lead h (ar_Term req) = Some (a, Q)" using append_msgs_invD(3) [OF V(9) 1(2)] by blast
  note G = leaders_logsD(4) [OF D(1) Q] and E = node_logsD(1) [OF D(3), of v]
  have "node_logs h v n"
  proof (cases "currentTerm (nodes s v) \<le> ar_Term req")
    case False
    then show ?thesis using D(3) [of v] by (simp add: n HandleAppendEntries_stale)
  next
    case True
    have "stored (h_tlog h) (ar_Term req) (entries (nlog n))"
      using HandleAppendEntries_log [OF C E G] merged_stored [OF C E G _ True] stored_mono [OF E True] n
      by metis
    then show ?thesis using True by (simp add: node_logs_def n node_simps)
  qed
  moreover have "ap_ConflictIndex resp \<le> max 0 (ar_PrevLogIndex req)" if "r = Inr resp" for resp
    using that prevConflict_bound
    by (cases rule: HandleAppendEntries_cases [of req "nodes s v"])
      (fastforce simp: r HandleAppendEntries_eqs)+
  then have "append_acks_ok (appendAcks s')"
    using D(6) by (auto simp: 1(1) append_acks_ok_def split: sum.split)
  ultimately show ?thesis
    using D(3,5) by (intro linv_frame [OF inv]) (auto simp: 1(1) split: sum.split)
qed

text \<open>An answer moves the leader's \<open>nextIndex\<close> within the leader's log.\<close>

lemma appendEntriesAnswer_cases:
  obtains (down) "currentTerm n < ap_Term resp" and
      "appendEntriesAnswer n p req resp = becomeFollower n (ap_Term resp) []"
  | (ignored) "ap_Term resp \<le> currentTerm n" and "appendEntriesAnswer n p req resp = n"
  | (success) "ap_Term resp \<le> currentTerm n" and "nstate n = Leader" and "currentTerm n = ar_Term req"
      and "ap_Success resp" and "ar_Entries req \<noteq> []"
      and "appendEntriesAnswer n p req resp = advanceCommitIndex
        (n\<lparr>nextIndex := (nextIndex n)(p \<mapsto> le_Index (last (ar_Entries req)) + 1),
           matchIndex := (matchIndex n)(p \<mapsto> le_Index (last (ar_Entries req)))\<rparr>)"
  | (heartbeat) "ap_Term resp \<le> currentTerm n" and "nstate n = Leader" and "currentTerm n = ar_Term req"
      and "ap_Success resp" and "ar_Entries req = []"
      and "appendEntriesAnswer n p req resp = advanceCommitIndex n"
  | (rewind) i where "ap_Term resp \<le> currentTerm n" and "nstate n = Leader" and "currentTerm n = ar_Term req"
      and "\<not> ap_Success resp" and "1 \<le> i" and "i = ap_ConflictIndex resp \<or> i = map_get (nextIndex n) p - 1"
      and "appendEntriesAnswer n p req resp = n\<lparr>nextIndex := (nextIndex n)(p \<mapsto> i)\<rparr>"
proof -
  note def = appendEntriesAnswer_def stepDown_def Let_def
  consider "currentTerm n < ap_Term resp"
    | "ap_Term resp \<le> currentTerm n" "\<not> (nstate n = Leader \<and> currentTerm n = ar_Term req)"
    | (s) "ap_Term resp \<le> currentTerm n" "nstate n = Leader" "currentTerm n = ar_Term req" "ap_Success resp"
    | (f) "ap_Term resp \<le> currentTerm n" "nstate n = Leader" "currentTerm n = ar_Term req" "\<not> ap_Success resp"
    by linarith
  then show thesis
  proof cases
    case 1
    then show ?thesis by (intro down) (simp_all add: def)
  next
    case 2
    then show ?thesis by (intro ignored) (auto simp: def)
  next
    case s
    show ?thesis
    proof (cases "ar_Entries req = []")
      case True
      then show ?thesis by (intro heartbeat) (use s in \<open>simp_all add: def\<close>)
    next
      case False
      then show ?thesis by (intro success) (use s in \<open>simp_all add: def last_conv_nth\<close>)
    qed
  next
    case f
    consider "ap_ConflictIndex resp > 0" | "\<not> ap_ConflictIndex resp > 0" "map_get (nextIndex n) p > 1"
      | "\<not> ap_ConflictIndex resp > 0" "\<not> map_get (nextIndex n) p > 1" by blast
    then show ?thesis
    proof cases
      case 1
      then show ?thesis by (intro rewind [of "ap_ConflictIndex resp"]) (use f in \<open>simp_all add: def\<close>)
    next
      case 2
      then show ?thesis
        by (intro rewind [of "map_get (nextIndex n) p - 1"]) (use f in \<open>simp_all add: def\<close>)
    next
      case 3
      then show ?thesis by (intro ignored) (use f in \<open>simp_all add: def\<close>)
    qed
  qed
qed

lemma carries_last:
  assumes "carries g req" and "indexed (g (ar_Term req))" and "ar_Entries req \<noteq> []"
  shows "le_Index (last (ar_Entries req)) = ar_PrevLogIndex req + int (length (ar_Entries req))"
proof -
  note C = carriesD [OF assms(1)]
  let ?p = "nat (ar_PrevLogIndex req)" and ?m = "length (ar_Entries req)" and ?G = "g (ar_Term req)"
  have "positioned (Suc ?p) (ar_Entries req)" using positioned_slice [OF assms(2)] C(4) by metis
  moreover have "?m - 1 < ?m" using assms(3) by simp
  ultimately have "le_Index (ar_Entries req ! (?m - 1)) = int (Suc ?p + (?m - 1))"
    unfolding positioned_def by blast
  then show ?thesis using C(1) \<open>?m - 1 < ?m\<close> by (simp add: last_conv_nth assms(3))
qed

lemma answer_next_ok:
  assumes ok: "next_ok n" and p: "p \<in> set (peers n)" and T: "g (currentTerm n) = entries (nlog n)"
    and C: "carries g req" and ix: "indexed (g (ar_Term req))"
    and ci: "ap_ConflictIndex resp \<le> max 0 (ar_PrevLogIndex req)"
    and up: "ap_Term resp \<le> currentTerm n"
  shows "next_ok (appendEntriesAnswer n p req resp)"
proof (cases rule: appendEntriesAnswer_cases [of n resp p req])
  case success
  let ?m = "ar_PrevLogIndex req + int (length (ar_Entries req))"
  have "0 \<le> ?m" "?m < int (length (entries (nlog n)))"
    using carriesD(1,2) [OF C] T success(3) by auto
  then show ?thesis
    using ok by (auto simp: success(6) next_ok_def node_simps carries_last [OF C ix success(5)])
next
  case heartbeat
  then show ?thesis using ok by (simp add: next_ok_def node_simps)
next
  case (rewind i)
  obtain j where "nextIndex n p = Some j" "j \<le> int (length (entries (nlog n)))"
    using ok p by (auto simp: next_ok_def)
  moreover have "ar_PrevLogIndex req < int (length (entries (nlog n)))" "0 < length (entries (nlog n))"
    using carriesD(1,2) [OF C] T rewind(3) by auto
  ultimately have "i \<le> int (length (entries (nlog n)))"
    using rewind(6) ci by (auto simp: map_get_def)
  then show ?thesis using ok rewind(5) by (auto simp: rewind(7) next_ok_def)
qed (use ok up in simp_all)

lemma linv_AppendAnswer:
  assumes inv: "linv s h" and v: "vinv d k s h" and st: "cluster_step s (AppendAnswer a v req resp) s'"
  shows "linv s' (hist_upd s (AppendAnswer a v req resp) s' h)"
  using st
proof (cases rule: AppendAnswerE)
  case 1
  note D = linvD [OF inv] and V = vinvD [OF v]
  let ?n = "nodes s a" and ?n' = "appendEntriesAnswer (nodes s a) v req resp"
  have r: "(a, v, req) \<in> appendReqs s" by (rule append_msgs_invD(4) [OF V(9) 1(2)])
  obtain Q where Q: "h_lead h (ar_Term req) = Some (a, Q)" using append_msgs_invD(3) [OF V(9) r] by blast
  have a: "a \<in> set (members s)"
    using votes_invD(4) [OF V(4)] leader_invD(2,3) [OF V(6) Q] by blast
  have peer: "v \<in> set (peers ?n)"
    using vinv_ids(3) [OF v a] append_msgs_invD(1,2) [OF V(9) r] by simp
  note G = storedD(3) [OF leaders_logsD(4) [OF D(1) Q]] and C = append_reqs_logsD [OF D(5) r]
  have "ap_ConflictIndex resp \<le> max 0 (ar_PrevLogIndex req)"
    using D(6) 1(2) unfolding append_acks_ok_def by blast
  note nx = answer_next_ok [OF _ peer _ C G this]
  have "stored (h_tlog h) (currentTerm ?n') (entries (nlog ?n'))"
    by (rule stored_mono [of _ "currentTerm ?n"]) (use node_logsD(1) [OF D(3), of a] in \<open>simp_all add: node_simps\<close>)
  moreover have "currentTerm ?n' = currentTerm ?n \<and> nstate ?n' = nstate ?n \<or> nstate ?n' = Follower"
    by (auto simp: node_simps)
  moreover have "next_ok ?n'" if "nstate ?n' = Leader"
  proof (rule nx)
    have l: "nstate ?n = Leader" and t: "\<not> currentTerm ?n < ap_Term resp"
      using that by (auto simp: node_simps split: if_splits)
    show "next_ok ?n" and "h_tlog h (currentTerm ?n) = entries (nlog ?n)" and "ap_Term resp \<le> currentTerm ?n"
      using node_logsD(2,3) [OF D(3) l] t by simp_all
  qed
  ultimately have "node_logs h a ?n'"
    using D(3) [of a] unfolding node_logs_def by (auto simp: node_simps)
  then show ?thesis
    using D(3,5,6) by (intro linv_frame [OF inv]) (auto simp: 1(1))
qed

section \<open>Reachable clusters\<close>

lemma linv_step:
  assumes inv: "linv s h" and v: "vinv d k s h" and k: "int k < max_int" and st: "cluster_step s e s'"
  shows "linv s' (hist_upd s e s' h)"
proof (cases e)
  case (Timeout a)
  with st linv_Timeout [OF inv v k] show ?thesis by blast
next
  case (RecvVote c v req)
  with st linv_RecvVote [OF inv assms(2)] show ?thesis by blast
next
  case (VoteAnswer c v req resp)
  with st linv_VoteAnswer [OF inv] show ?thesis by blast
next
  case (VoteLost c v)
  with st linv_VoteLost [OF inv] show ?thesis by blast
next
  case (ElectionEnd c)
  with st linv_ElectionEnd [OF inv v] show ?thesis by blast
next
  case (Stroke a str)
  with st linv_Stroke [OF inv v] show ?thesis by blast
next
  case (SendAppend a p)
  with st linv_SendAppend [OF inv] show ?thesis by blast
next
  case (RecvAppend a v req)
  with st linv_RecvAppend [OF inv assms(2)] show ?thesis by blast
next
  case (AppendAnswer a v req resp)
  with st linv_AppendAnswer [OF inv assms(2)] show ?thesis by blast
next
  case (Apply a)
  with st linv_Apply [OF inv] show ?thesis by blast
next
  case (Notify a)
  with st linv_Notify [OF inv] show ?thesis by blast
qed

lemma linv_init: "linv (init_cluster d) init_hist"
proof -
  have s: "stored (\<lambda>t. if t = 0 then [sentinel] else []) 0 [sentinel]"
    by (simp add: stored_def chained_def indexed_def sentinel_def)
  have "entries NewLog = [sentinel]" by (simp add: NewLog_def sentinel_def)
  then show ?thesis
    using s by (simp add: linv_def init_cluster_def init_hist_def leaders_logs_def tlogs_inv_def
        candidates_logs_def node_logs_def vote_reqs_logs_def append_reqs_logs_def append_acks_ok_def
        NewNode_def)
qed

interpretation lreach: counted_invariant "hstart d" hstep "nat max_int"
  "\<lambda>k (s, h). vinv d k s h \<and> linv s h" for d
proof
  fix sh assume "hstart d sh"
  then show "case sh of (s, h) \<Rightarrow> vinv d 0 s h \<and> linv s h"
    by (auto simp: hstart_def vinv_init linv_init)
next
  fix k sh e sh'
  assume "case sh of (s, h) \<Rightarrow> vinv d k s h \<and> linv s h" and "hstep sh e sh'" and "k < nat max_int"
  then show "case sh' of (s, h) \<Rightarrow> vinv d (Suc k) s h \<and> linv s h"
    by (auto simp: hstep_def split: prod.splits intro!: vinv_step linv_step)
qed

end
