(* ===== verification/ClusterQuorums.thy ===== *)
theory ClusterQuorums
  imports ClusterLogs
begin

text \<open>
  Acknowledgements and elections: why an entry that a majority has confirmed is in the log of every
  later leader. An entry is identified by its term and position. It can be \<open>blocked\<close>: a majority
  has moved past its term without having confirmed it, so it will never be committed. The invariant
  says of every confirmed entry that the confirming node still holds it, that every candidate the
  node later voted for holds it, and that every later leader holds it, unless it is blocked. A
  confirmed majority excludes the latter, since two majorities meet.
\<close>

section \<open>Entries of a term's leader\<close>

definition valid_entry :: "hist \<Rightarrow> int \<Rightarrow> nat \<Rightarrow> bool" where
  "valid_entry h t i \<longleftrightarrow> i < length (h_tlog h t) \<and> le_Term (h_tlog h t ! i) = t"

definition contains :: "LogEntry list \<Rightarrow> int \<Rightarrow> nat \<Rightarrow> bool" where
  "contains es t i \<longleftrightarrow> i < length es \<and> le_Term (es ! i) = t"

definition blocked :: "cluster \<Rightarrow> hist \<Rightarrow> int \<Rightarrow> nat \<Rightarrow> bool" where
  "blocked s h t i \<longleftrightarrow>
     (\<exists>Q. is_majority (members s) Q \<and> (\<forall>q \<in> Q. t < currentTerm (nodes s q) \<and> (q, t, i) \<notin> h_acks h))"

definition committed :: "cluster \<Rightarrow> hist \<Rightarrow> int \<Rightarrow> nat \<Rightarrow> bool" where
  "committed s h t i \<longleftrightarrow>
     valid_entry h t i \<and> (\<exists>Q. is_majority (members s) Q \<and> (\<forall>q \<in> Q. (q, t, i) \<in> h_acks h))"

lemma committed_not_blocked: "committed s h t i \<Longrightarrow> \<not> blocked s h t i"
  unfolding committed_def blocked_def using maj.quorum_common by blast

lemma blockedI:
  "is_majority (members s) Q \<Longrightarrow> (\<And>q. q \<in> Q \<Longrightarrow> t < currentTerm (nodes s q)) \<Longrightarrow>
   (\<And>q. q \<in> Q \<Longrightarrow> (q, t, i) \<notin> h_acks h) \<Longrightarrow> blocked s h t i"
  unfolding blocked_def by blast

lemma contains_take:
  assumes "contains es t i" and "chained g es"
  shows "take (Suc i) es = take (Suc i) (g t)" and "i < length (g t)" and "le_Term (g t ! i) = t"
proof -
  have "i < length es" "le_Term (es ! i) = t" using assms(1) by (simp_all add: contains_def)
  with chainedD [OF assms(2), of i] show "take (Suc i) es = take (Suc i) (g t)" "i < length (g t)"
    by simp_all
  then show "le_Term (g t ! i) = t"
    using \<open>i < length es\<close> \<open>le_Term (es ! i) = t\<close> take_Suc_eq_nth by metis
qed

lemma contains_by_take:
  assumes "contains es t i" and "take (Suc i) es' = take (Suc i) es"
  shows "contains es' t i"
proof -
  have i: "i < length es" "i < length es'"
    using assms take_eq_length [of "Suc i" es es'] by (auto simp: contains_def)
  then show ?thesis using assms take_Suc_eq_nth [of i es' es] by (simp add: contains_def)
qed

lemma contains_append: "contains es t i \<Longrightarrow> contains (es @ zs) t i"
  by (simp add: contains_def nth_append)

lemma valid_contains: "valid_entry h t i \<longleftrightarrow> contains (h_tlog h t) t i"
  by (simp add: valid_entry_def contains_def)

section \<open>The invariant\<close>

definition acks_bounded :: "cluster \<Rightarrow> hist \<Rightarrow> bool" where
  "acks_bounded s h \<longleftrightarrow>
     (\<forall>v t i. (v, t, i) \<in> h_acks h \<longrightarrow> t \<le> currentTerm (nodes s v) \<and> i < length (h_tlog h t))"

definition acked_kept :: "cluster \<Rightarrow> hist \<Rightarrow> bool" where
  "acked_kept s h \<longleftrightarrow>
     (\<forall>v t i. (v, t, i) \<in> h_acks h \<longrightarrow> valid_entry h t i \<longrightarrow>
        contains (entries (nlog (nodes s v))) t i \<or> blocked s h t i)"

definition voted_kept :: "cluster \<Rightarrow> hist \<Rightarrow> bool" where
  "voted_kept s h \<longleftrightarrow>
     (\<forall>v T c t i. (v, T, c) \<in> h_votes h \<longrightarrow> t < T \<longrightarrow> (v, t, i) \<in> h_acks h \<longrightarrow> valid_entry h t i \<longrightarrow>
        contains (h_clog h c T) t i \<or> blocked s h t i)"

definition elected_kept :: "cluster \<Rightarrow> hist \<Rightarrow> bool" where
  "elected_kept s h \<longleftrightarrow>
     (\<forall>T t i. h_lead h T \<noteq> None \<longrightarrow> t < T \<longrightarrow> valid_entry h t i \<longrightarrow>
        contains (h_tlog h T) t i \<or> blocked s h t i)"

definition leader_acks :: "cluster \<Rightarrow> hist \<Rightarrow> bool" where
  "leader_acks s h \<longleftrightarrow>
     (\<forall>a. nstate (nodes s a) = Leader \<longrightarrow>
        (\<forall>i. valid_entry h (currentTerm (nodes s a)) i \<longrightarrow> (a, currentTerm (nodes s a), i) \<in> h_acks h) \<and>
        (\<forall>p \<in> set (peers (nodes s a)). \<forall>i. 0 < i \<longrightarrow> int i \<le> map_get (matchIndex (nodes s a)) p \<longrightarrow>
           (p, currentTerm (nodes s a), i) \<in> h_acks h))"

definition success_acks ::
    "(string \<times> string \<times> AppendEntriesRequest \<times> AppendEntriesResponse) set \<Rightarrow> hist \<Rightarrow> bool" where
  "success_acks A h \<longleftrightarrow>
     (\<forall>a v req resp i. (a, v, req, resp) \<in> A \<longrightarrow> ap_Success resp \<longrightarrow>
        int i \<le> ar_PrevLogIndex req + int (length (ar_Entries req)) \<longrightarrow> (v, ar_Term req, i) \<in> h_acks h)"

text \<open>Nobody votes for a candidate before that candidate has voted for itself.\<close>

definition votes_backed :: "hist \<Rightarrow> bool" where
  "votes_backed h \<longleftrightarrow> (\<forall>v t c. (v, t, c) \<in> h_votes h \<longrightarrow> (c, t, c) \<in> h_votes h)"

definition qinv :: "cluster \<Rightarrow> hist \<Rightarrow> bool" where
  "qinv s h \<longleftrightarrow>
     acks_bounded s h \<and> acked_kept s h \<and> voted_kept s h \<and> elected_kept s h \<and> leader_acks s h \<and>
     success_acks (appendAcks s) h \<and> votes_backed h"

lemma qinvD:
  assumes "qinv s h"
  shows "acks_bounded s h" and "acked_kept s h" and "voted_kept s h" and "elected_kept s h"
    and "leader_acks s h" and "success_acks (appendAcks s) h" and "votes_backed h"
  using assms by (simp_all add: qinv_def)

lemma acks_boundedD:
  assumes "acks_bounded s h" and "(v, t, i) \<in> h_acks h"
  shows "t \<le> currentTerm (nodes s v)" and "i < length (h_tlog h t)"
  using assms unfolding acks_bounded_def by blast+

lemma acked_keptD:
  "acked_kept s h \<Longrightarrow> (v, t, i) \<in> h_acks h \<Longrightarrow> valid_entry h t i \<Longrightarrow>
   contains (entries (nlog (nodes s v))) t i \<or> blocked s h t i"
  unfolding acked_kept_def by blast

lemma voted_keptD:
  "voted_kept s h \<Longrightarrow> (v, T, c) \<in> h_votes h \<Longrightarrow> t < T \<Longrightarrow> (v, t, i) \<in> h_acks h \<Longrightarrow> valid_entry h t i \<Longrightarrow>
   contains (h_clog h c T) t i \<or> blocked s h t i"
  unfolding voted_kept_def by blast

lemma elected_keptD:
  "elected_kept s h \<Longrightarrow> h_lead h T \<noteq> None \<Longrightarrow> t < T \<Longrightarrow> valid_entry h t i \<Longrightarrow>
   contains (h_tlog h T) t i \<or> blocked s h t i"
  unfolding elected_kept_def by blast

lemma leader_acksD:
  assumes "leader_acks s h" and "nstate (nodes s a) = Leader"
  shows "valid_entry h (currentTerm (nodes s a)) i \<Longrightarrow> (a, currentTerm (nodes s a), i) \<in> h_acks h"
    and "p \<in> set (peers (nodes s a)) \<Longrightarrow> 0 < i \<Longrightarrow> int i \<le> map_get (matchIndex (nodes s a)) p \<Longrightarrow>
         (p, currentTerm (nodes s a), i) \<in> h_acks h"
  using assms unfolding leader_acks_def by blast+

section \<open>Progress\<close>

text \<open>
  Every event makes progress: terms and leaders' logs grow, and a node confirms only entries of
  a term it has not passed. A blocked entry stays blocked.
\<close>

definition progress :: "cluster \<Rightarrow> hist \<Rightarrow> cluster \<Rightarrow> hist \<Rightarrow> bool" where
  "progress s h s' h' \<longleftrightarrow>
     members s' = members s \<and> (\<forall>v. currentTerm (nodes s v) \<le> currentTerm (nodes s' v)) \<and>
     extends (h_tlog h) (h_tlog h') \<and> h_acks h \<subseteq> h_acks h' \<and>
     (\<forall>v t i. (v, t, i) \<in> h_acks h' \<longrightarrow> (v, t, i) \<notin> h_acks h \<longrightarrow> currentTerm (nodes s v) \<le> t)"

lemma progressD:
  assumes "progress s h s' h'"
  shows "members s' = members s" and "currentTerm (nodes s v) \<le> currentTerm (nodes s' v)"
    and "extends (h_tlog h) (h_tlog h')" and "h_acks h \<subseteq> h_acks h'"
    and "(v, t, i) \<in> h_acks h' \<Longrightarrow> t < currentTerm (nodes s v) \<Longrightarrow> (v, t, i) \<in> h_acks h"
  using assms unfolding progress_def by (blast, blast, blast, blast, meson not_le)

lemma blocked_progress:
  assumes "blocked s h t i" and "progress s h s' h'"
  shows "blocked s' h' t i"
proof -
  note P = progressD [OF assms(2)]
  obtain Q where Q: "is_majority (members s) Q" "\<And>q. q \<in> Q \<Longrightarrow> t < currentTerm (nodes s q)"
      "\<And>q. q \<in> Q \<Longrightarrow> (q, t, i) \<notin> h_acks h"
    using assms(1) unfolding blocked_def by blast
  show ?thesis
  proof (rule blockedI)
    show "is_majority (members s') Q" using Q(1) P(1) by simp
    show "t < currentTerm (nodes s' q)" if "q \<in> Q" for q using Q(2) [OF that] P(2) [of q] by simp
    show "(q, t, i) \<notin> h_acks h'" if "q \<in> Q" for q using Q(2,3) [OF that] P(5) by blast
  qed
qed

lemma valid_progress:
  assumes "progress s h s' h'" and "i < length (h_tlog h t)"
  shows "valid_entry h' t i \<longleftrightarrow> valid_entry h t i"
  using extends_nth [OF progressD(3) [OF assms(1)] assms(2)] extends_length [OF progressD(3) [OF assms(1)], of t]
    assms(2) by (auto simp: valid_entry_def)

lemma committed_progress:
  assumes "committed s h t i" and "progress s h s' h'"
  shows "committed s' h' t i"
proof -
  have "i < length (h_tlog h t)" using assms(1) by (simp add: committed_def valid_entry_def)
  from valid_progress [OF assms(2) this] assms(1) progressD(1,4) [OF assms(2)]
  show ?thesis unfolding committed_def by (metis subsetD)
qed

text \<open>One lemma per part of the invariant: what an event has to show.\<close>

lemma acks_bounded_step:
  assumes "acks_bounded s h" and "progress s h s' h'"
    and "\<And>v t i. (v, t, i) \<in> h_acks h' \<Longrightarrow> (v, t, i) \<notin> h_acks h \<Longrightarrow>
           t \<le> currentTerm (nodes s' v) \<and> i < length (h_tlog h' t)"
  shows "acks_bounded s' h'"
  unfolding acks_bounded_def
proof (intro allI impI)
  fix v t i assume a: "(v, t, i) \<in> h_acks h'"
  show "t \<le> currentTerm (nodes s' v) \<and> i < length (h_tlog h' t)"
  proof (cases "(v, t, i) \<in> h_acks h")
    case True
    with acks_boundedD [OF assms(1) True] progressD(2) [OF assms(2), of v]
      extends_length [OF progressD(3) [OF assms(2)], of t]
    show ?thesis by linarith
  qed (use a assms(3) in blast)
qed

lemma acked_kept_step:
  assumes inv: "acked_kept s h" "acks_bounded s h" and P: "progress s h s' h'"
    and old: "\<And>v t i. (v, t, i) \<in> h_acks h \<Longrightarrow> valid_entry h t i \<Longrightarrow>
           contains (entries (nlog (nodes s v))) t i \<Longrightarrow>
           contains (entries (nlog (nodes s' v))) t i \<or> blocked s' h' t i"
    and new: "\<And>v t i. (v, t, i) \<in> h_acks h' \<Longrightarrow> (v, t, i) \<notin> h_acks h \<Longrightarrow> valid_entry h' t i \<Longrightarrow>
           contains (entries (nlog (nodes s' v))) t i"
  shows "acked_kept s' h'"
  unfolding acked_kept_def
proof (intro allI impI)
  fix v t i assume a: "(v, t, i) \<in> h_acks h'" and va: "valid_entry h' t i"
  show "contains (entries (nlog (nodes s' v))) t i \<or> blocked s' h' t i"
  proof (cases "(v, t, i) \<in> h_acks h")
    case True
    with va valid_progress [OF P acks_boundedD(2) [OF inv(2)]] have vo: "valid_entry h t i" by blast
    from acked_keptD [OF inv(1) True this] show ?thesis
      using old [OF True vo] blocked_progress [OF _ P] by blast
  qed (use a va new in blast)
qed

lemma voted_kept_step:
  assumes inv: "voted_kept s h" "acks_bounded s h" "votes_inv s h" and P: "progress s h s' h'"
    and backed: "votes_backed h"
    and old: "\<And>T c. (c, T, c) \<in> h_votes h \<Longrightarrow> h_clog h' c T = h_clog h c T"
    and new: "\<And>v T c t i. (v, T, c) \<in> h_votes h' \<Longrightarrow> (v, T, c) \<notin> h_votes h \<Longrightarrow> t < T \<Longrightarrow>
           (v, t, i) \<in> h_acks h' \<Longrightarrow> valid_entry h' t i \<Longrightarrow>
           contains (h_clog h' c T) t i \<or> blocked s' h' t i"
  shows "voted_kept s' h'"
  unfolding voted_kept_def
proof (intro allI impI)
  fix v T c t i
  assume vo: "(v, T, c) \<in> h_votes h'" and t: "t < T" and a: "(v, t, i) \<in> h_acks h'"
    and va: "valid_entry h' t i"
  show "contains (h_clog h' c T) t i \<or> blocked s' h' t i"
  proof (cases "(v, T, c) \<in> h_votes h")
    case True
    then have "t < currentTerm (nodes s v)" using votes_invD(2) [OF inv(3) True] t by simp
    then have a': "(v, t, i) \<in> h_acks h" using progressD(5) [OF P a] by blast
    then have "valid_entry h t i" using va valid_progress [OF P acks_boundedD(2) [OF inv(2)]] by blast
    moreover have "(c, T, c) \<in> h_votes h" using backed True unfolding votes_backed_def by blast
    ultimately show ?thesis
      using voted_keptD [OF inv(1) True t a'] old blocked_progress [OF _ P] by auto
  qed (use vo t a va new in blast)
qed

lemma elected_kept_step:
  assumes inv: "elected_kept s h" and P: "progress s h s' h'"
    and fresh: "\<And>T t i. h_lead h T \<noteq> None \<Longrightarrow> t < T \<Longrightarrow> valid_entry h' t i \<Longrightarrow> length (h_tlog h t) \<le> i \<Longrightarrow>
           blocked s' h' t i"
    and new: "\<And>T t i. h_lead h' T \<noteq> None \<Longrightarrow> h_lead h T = None \<Longrightarrow> t < T \<Longrightarrow> valid_entry h' t i \<Longrightarrow>
           contains (h_tlog h' T) t i \<or> blocked s' h' t i"
  shows "elected_kept s' h'"
  unfolding elected_kept_def
proof (intro allI impI)
  fix T t i
  assume l: "h_lead h' T \<noteq> None" and t: "t < T" and va: "valid_entry h' t i"
  show "contains (h_tlog h' T) t i \<or> blocked s' h' t i"
  proof (cases "h_lead h T = None")
    case False
    show ?thesis
    proof (cases "i < length (h_tlog h t)")
      case True
      with va valid_progress [OF P] have "valid_entry h t i" by blast
      from elected_keptD [OF inv False t this] show ?thesis
        using blocked_progress [OF _ P] extendsD [OF progressD(3) [OF P], of T] contains_append by metis
    qed (use fresh [OF False t va] in simp)
  qed (use new [OF l _ t va] in blast)
qed

lemma leader_acks_quiet:
  assumes "leader_acks s h" and "h_acks h \<subseteq> h_acks h'" and "h_tlog h' = h_tlog h"
    and "\<And>a. nstate (nodes s' a) = Leader \<Longrightarrow> nstate (nodes s a) = Leader \<and>
           currentTerm (nodes s' a) = currentTerm (nodes s a) \<and> peers (nodes s' a) = peers (nodes s a) \<and>
           matchIndex (nodes s' a) = matchIndex (nodes s a)"
  shows "leader_acks s' h'"
  unfolding leader_acks_def
proof (intro allI impI)
  fix a assume "nstate (nodes s' a) = Leader"
  note S = assms(4) [OF this]
  have "valid_entry h' t i = valid_entry h t i" for t i by (simp add: valid_entry_def assms(3))
  then show "(\<forall>i. valid_entry h' (currentTerm (nodes s' a)) i \<longrightarrow> (a, currentTerm (nodes s' a), i) \<in> h_acks h') \<and>
        (\<forall>p \<in> set (peers (nodes s' a)). \<forall>i. 0 < i \<longrightarrow> int i \<le> map_get (matchIndex (nodes s' a)) p \<longrightarrow>
           (p, currentTerm (nodes s' a), i) \<in> h_acks h')"
    using leader_acksD [OF assms(1)] S assms(2) by auto
qed

text \<open>What an event has to keep: it makes progress, and the invariant holds after it.\<close>

definition qstep :: "cluster \<Rightarrow> hist \<Rightarrow> cluster \<Rightarrow> hist \<Rightarrow> bool" where
  "qstep s h s' h' \<longleftrightarrow> progress s h s' h' \<and> qinv s' h'"

lemma qstepI:
  assumes "progress s h s' h'" and "acks_bounded s' h'" and "acked_kept s' h'" and "voted_kept s' h'"
    and "elected_kept s' h'" and "leader_acks s' h'" and "success_acks (appendAcks s') h'"
    and "votes_backed h'"
  shows "qstep s h s' h'"
  using assms by (simp add: qstep_def qinv_def)

text \<open>Events that change no log, no vote and no acknowledgement.\<close>

lemma qinv_frame:
  assumes inv: "qinv s h" and v: "votes_inv s h"
    and n: "\<And>a. nlog (nodes s' a) = nlog (nodes s a)"
      "\<And>a. currentTerm (nodes s a) \<le> currentTerm (nodes s' a)"
    and m: "members s' = members s" "success_acks (appendAcks s') h" "leader_acks s' h'"
    and h: "h_tlog h' = h_tlog h" "h_acks h' = h_acks h" "h_clog h' = h_clog h" "h_lead h' = h_lead h"
      "h_votes h' = h_votes h"
  shows "qstep s h s' h'"
proof (rule qstepI)
  note D = qinvD [OF inv]
  have P: "progress s h s' h'" using n by (simp add: progress_def m h)
  show "progress s h s' h'" by (rule P)
  show "acks_bounded s' h'" by (rule acks_bounded_step [OF D(1) P]) (simp add: h)
  show "acked_kept s' h'" by (rule acked_kept_step [OF D(2,1) P]) (simp_all add: h n)
  show "voted_kept s' h'" by (rule voted_kept_step [OF D(3,1) v P D(7)]) (simp_all add: h)
  show "elected_kept s' h'" by (rule elected_kept_step [OF D(4) P]) (simp_all add: h valid_entry_def)
  show "leader_acks s' h'" by (rule m(3))
  show "success_acks (appendAcks s') h'" using m(2) by (simp add: success_acks_def h)
  show "votes_backed h'" using D(7) by (simp add: votes_backed_def h)
qed

lemma qinv_quiet:
  assumes inv: "qinv s h" and v: "votes_inv s h" and q: "\<And>a. quiet (nodes s a) (nodes s' a)"
    and m: "members s' = members s" "success_acks (appendAcks s') h"
    and h: "h_tlog h' = h_tlog h" "h_acks h' = h_acks h" "h_clog h' = h_clog h" "h_lead h' = h_lead h"
      "h_votes h' = h_votes h"
  shows "qstep s h s' h'"
proof (rule qinv_frame [OF inv v _ _ m _ h])
  note Q = q [unfolded quiet_def]
  show "nlog (nodes s' a) = nlog (nodes s a)" "currentTerm (nodes s a) \<le> currentTerm (nodes s' a)" for a
    using Q by simp_all
  show "leader_acks s' h'"
    by (rule leader_acks_quiet [OF qinvD(5) [OF inv]]) (use Q in \<open>auto simp: h\<close>)
qed

section \<open>Votes\<close>

text \<open>
  The up-to-date check. If the voter holds an entry, the candidate holds it: either the logs
  end in the same term and the candidate's is no shorter, or the candidate's ends in an entry of a
  later leader, whose log holds the entry.
\<close>

lemma up_to_date_contains:
  assumes g: "tlogs_inv g" and es: "stored g u es" and cl: "stored g w cl" and e: "contains es t i"
    and utd: "logUpToDate \<lparr>entries = es\<rparr> req" "vr_LastLogIndex req = int (length cl) - 1"
      "vr_LastLogTerm req = le_Term (last cl)"
    and later: "t < le_Term (last cl) \<Longrightarrow> contains (g (le_Term (last cl))) t i \<or> B"
  shows "contains cl t i \<or> B"
proof -
  let ?T = "le_Term (last cl)"
  note ne = storedD(1) [OF es] storedD(1) [OF cl] and ch = storedD(4) [OF es] storedD(4) [OF cl]
  define m where "m = length cl - 1"
  have m: "m < length cl" "last cl = cl ! m" using ne(2) by (simp_all add: m_def last_conv_nth)
  have i: "i < length es" "le_Term (es ! i) = t" using e by (simp_all add: contains_def)
  have last: "LastTerm \<lparr>entries = es\<rparr> = le_Term (es ! (length es - 1))" by (simp add: LastTerm_def)
  have tl: "t \<le> LastTerm \<lparr>entries = es\<rparr>"
    unfolding last using stored_term_le [OF g ch(1), of "length es - 1" i] i by simp
  show ?thesis
  proof (cases "t < ?T")
    case True
    from later [OF this] show ?thesis
    proof
      assume c: "contains (g ?T) t i"
      note cm = chainedD [OF ch(2) m(1), folded m(2)]
      have "g ?T \<noteq> []" using cm(1) by auto
      then have gT: "chained g (g ?T)" using tlogs_invD [OF g] storedD(4) by blast
      have "g ?T ! m = cl ! m" using take_Suc_eq_nth [OF cm(2)] cm(1) m(1) by simp
      then have "\<not> m \<le> i"
        using stored_term_le [OF g gT, of i m] c True m(2) by (auto simp: contains_def)
      then have "i < m" by simp
      then have "take (Suc i) cl = take (Suc i) (g ?T)" using take_eq_mono [OF cm(2)] by simp
      from contains_by_take [OF c this] show ?thesis ..
    qed simp
  next
    case False
    then have T: "LastTerm \<lparr>entries = es\<rparr> = ?T" "length es \<le> length cl"
      using utd tl by (auto simp: logUpToDate_def LastIndex_def)
    define j where "j = length es - 1"
    have j: "j < length es" "i \<le> j" using i by (simp_all add: j_def)
    note cm = chainedD [OF ch(2) m(1), folded m(2)]
    have "le_Term (es ! j) = ?T" using T(1) last by (simp add: j_def)
    from chainedD [OF ch(1) j(1)] this have "take (Suc j) es = take (Suc j) (g ?T)" by simp
    moreover have "take (Suc j) cl = take (Suc j) (g ?T)"
      by (rule take_eq_mono [OF cm(2)]) (use T(2) j in \<open>simp add: j_def m_def\<close>)
    ultimately have "take (Suc j) cl = take (Suc j) es" by simp
    then have "take (Suc i) cl = take (Suc i) es" by (rule take_eq_mono) (use j in simp)
    from contains_by_take [OF e this] show ?thesis ..
  qed
qed

lemma stored_term_nonneg: "tlogs_inv g \<Longrightarrow> stored g u es \<Longrightarrow> contains es t i \<Longrightarrow> 0 \<le> t"
  using stored_term_le [of g es i 0] stored_first [of g u es] storedD(4) [of g u es]
  by (auto simp: contains_def sentinel_def)

lemma granted_contains:
  assumes q: "qinv s h" and l: "linv s h" and m: "vote_msgs_inv s h"
    and r: "(c, v, req) \<in> voteReqs s" and utd: "logUpToDate (nlog (nodes s v)) req"
    and a: "(v, t, i) \<in> h_acks h" and va: "valid_entry h t i"
  shows "contains (h_clog h c (vr_Term req)) t i \<or> blocked s h t i"
proof (rule disjE [OF acked_keptD [OF qinvD(2) [OF q] a va]])
  assume e: "contains (entries (nlog (nodes s v))) t i"
  note D = linvD [OF l] and g = leaders_logsD(1) [OF linvD(1) [OF l]]
  let ?cl = "h_clog h c (vr_Term req)"
  note es = node_logsD(1) [OF D(3), of v] and lq = vote_reqs_logsD [OF D(4) r]
  have cl: "stored (h_tlog h) (vr_Term req - 1) ?cl"
    by (rule candidates_logsD [OF D(2) vote_msgs_invD(4) [OF m r]])
  have "contains (h_tlog h (le_Term (last ?cl))) t i \<or> blocked s h t i" if "t < le_Term (last ?cl)"
  proof (rule elected_keptD [OF qinvD(4) [OF q] _ that va])
    have "last ?cl = ?cl ! (length ?cl - 1)" "length ?cl - 1 < length ?cl"
      using storedD(1) [OF cl] by (simp_all add: last_conv_nth)
    then have "h_tlog h (le_Term (last ?cl)) \<noteq> []"
      using chainedD(1) [OF storedD(4) [OF cl]] by fastforce
    moreover have "le_Term (last ?cl) \<noteq> 0" using stored_term_nonneg [OF g es e] that by simp
    ultimately show "h_lead h (le_Term (last ?cl)) \<noteq> None" using leaders_logsD(3) [OF D(1)] by blast
  qed
  moreover have "logUpToDate \<lparr>entries = entries (nlog (nodes s v))\<rparr> req"
    using utd by (simp add: logUpToDate_def LastTerm_def LastIndex_def)
  ultimately show ?thesis by (intro up_to_date_contains [OF g es cl e _ lq])
qed simp

lemma qinv_RecvVote:
  assumes q: "qinv s h" and l: "linv s h" and v: "vinv d k s h" and st: "cluster_step s (RecvVote c v req) s'"
  shows "qstep s h s' (hist_upd s (RecvVote c v req) s' h)"
  using st
proof (cases rule: RecvVoteE)
  case (1 n resp)
  note D = qinvD [OF q] and V = vinvD [OF v]
  define h' where "h' = hist_upd s (RecvVote c v req) s' h"
  let ?yes = "vp_VoteGranted (snd (HandleVoteRequest (nodes s v) req))"
  have h: "h_tlog h' = h_tlog h" "h_acks h' = h_acks h" "h_clog h' = h_clog h" "h_lead h' = h_lead h"
      "h_votes h' = (if ?yes then insert (v, vr_Term req, c) (h_votes h) else h_votes h)"
    by (simp_all add: h'_def)
  have qt: "quiet (nodes s v) n" using HandleVoteRequest_quiet [of "nodes s v" req] 1(3) by simp
  then have Q: "quiet (nodes s a) (nodes s' a)" for a by (simp add: 1(1))
  have P: "progress s h s' h'"
    using Q by (simp add: progress_def h quiet_def) (simp add: 1(1))
  have "qstep s h s' h'"
  proof (rule qstepI)
    show "progress s h s' h'" by (rule P)
    show "acks_bounded s' h'" by (rule acks_bounded_step [OF D(1) P]) (simp add: h)
    show "acked_kept s' h'"
      by (rule acked_kept_step [OF D(2,1) P]) (use Q in \<open>simp_all add: h quiet_def\<close>)
    show "voted_kept s' h'"
    proof (rule voted_kept_step [OF D(3,1) V(4) P D(7)])
      fix w T c' t i
      assume "(w, T, c') \<in> h_votes h'" "(w, T, c') \<notin> h_votes h" and t: "t < T"
        and "(w, t, i) \<in> h_acks h'" "valid_entry h' t i"
      then have *: "w = v" "T = vr_Term req" "c' = c" ?yes "(v, t, i) \<in> h_acks h" "valid_entry h t i"
        by (auto simp: h valid_entry_def split: if_splits)
      then have "logUpToDate (nlog (nodes s v)) req" by (simp add: HandleVoteRequest_granted_iff)
      from granted_contains [OF q l V(7) 1(2) this *(5,6)]
      show "contains (h_clog h' c' T) t i \<or> blocked s' h' t i"
        using blocked_progress [OF _ P] by (auto simp: h *)
    qed (simp add: h)
    show "elected_kept s' h'" by (rule elected_kept_step [OF D(4) P]) (simp_all add: h valid_entry_def)
    show "leader_acks s' h'"
      by (rule leader_acks_quiet [OF D(5)]) (use Q in \<open>auto simp: h quiet_def\<close>)
    show "success_acks (appendAcks s') h'" using D(6) by (simp add: success_acks_def h 1(1))
    show "votes_backed h'"
      using D(7) vote_msgs_invD(4) [OF V(7) 1(2)] by (auto simp: votes_backed_def h)
  qed
  then show ?thesis by (simp add: h'_def)
qed

lemma qinv_Timeout:
  assumes q: "qinv s h" and l: "linv s h" and v: "vinv d k s h" and k: "int k < max_int"
    and st: "cluster_step s (Timeout a) s'"
  shows "qstep s h s' (hist_upd s (Timeout a) s' h)"
  using v k st
proof (cases rule: Timeout_step)
  case (1 n req)
  note D = qinvD [OF q] and V = vinvD [OF v]
  let ?t = "currentTerm (nodes s a) + 1" and ?es = "entries (nlog (nodes s a))"
  define h' where "h' = hist_upd s (Timeout a) s' h"
  have h: "h_votes h' = insert (a, ?t, a) (h_votes h)" "h_tlog h' = h_tlog h" "h_lead h' = h_lead h"
      "h_clog h' = (h_clog h)(a := (h_clog h a)(?t := ?es))" "h_acks h' = h_acks h"
    unfolding h'_def 1(6) by (simp_all add: with_candidacy_def)
  have N: "nodes s' = (nodes s)(a := n)" "currentTerm n = ?t" "nstate n = Candidate" "nlog n = nlog (nodes s a)"
    by (simp_all add: 1(1,3,5) node_simps)
  have P: "progress s h s' h'" by (simp add: progress_def h N) (simp add: 1(3))
  have "qstep s h s' h'"
  proof (rule qstepI)
    show "progress s h s' h'" by (rule P)
    show "acks_bounded s' h'" by (rule acks_bounded_step [OF D(1) P]) (simp add: h)
    show "acked_kept s' h'" by (rule acked_kept_step [OF D(2,1) P]) (auto simp: h N)
    show "voted_kept s' h'"
    proof (rule voted_kept_step [OF D(3,1) V(4) P D(7)])
      show "h_clog h' c T = h_clog h c T" if "(c, T, c) \<in> h_votes h" for c T
        using that 1(7) by (auto simp: h)
      fix w T c' t i
      assume "(w, T, c') \<in> h_votes h'" "(w, T, c') \<notin> h_votes h" and t: "t < T"
        and "(w, t, i) \<in> h_acks h'" "valid_entry h' t i"
      then have *: "w = a" "T = ?t" "c' = a" "(a, t, i) \<in> h_acks h" "valid_entry h t i"
        by (auto simp: h valid_entry_def)
      from acked_keptD [OF D(2) *(4,5)] show "contains (h_clog h' c' T) t i \<or> blocked s' h' t i"
        using blocked_progress [OF _ P] by (auto simp: h *)
    qed
    show "elected_kept s' h'" by (rule elected_kept_step [OF D(4) P]) (simp_all add: h valid_entry_def)
    show "leader_acks s' h'"
      by (rule leader_acks_quiet [OF D(5)]) (auto simp: h N split: if_splits)
    show "success_acks (appendAcks s') h'" using D(6) by (simp add: success_acks_def h 1(3))
    show "votes_backed h'" using D(7) by (auto simp: votes_backed_def h)
  qed
  then show ?thesis by (simp add: h'_def)
qed

text \<open>
  The end of a won election: the voters are a majority. Either one of them has confirmed the entry,
  and then the candidate's log holds it, or the voters block it.
\<close>

text \<open>What winning an election changes: the winner becomes leader, and its log becomes the log of its term.\<close>

definition crowned :: "cluster \<Rightarrow> hist \<Rightarrow> string \<Rightarrow> int \<Rightarrow> cluster \<Rightarrow> hist \<Rightarrow> bool" where
  "crowned s h c T s' h' \<longleftrightarrow>
     (let n = becomeLeader (nodes s c)
      in nodes s' = (nodes s)(c := n) \<and> members s' = members s \<and> appendAcks s' = appendAcks s \<and>
         h_tlog h' = (h_tlog h)(T := entries (nlog (nodes s c))) \<and> h_clog h' = h_clog h \<and> h_votes h' = h_votes h \<and>
         (\<exists>x. h_lead h' = (h_lead h)(T \<mapsto> x)) \<and> h_acks h' = h_acks h)"

lemma crownedD:
  assumes "crowned s h c T s' h'"
  shows "nodes s' = (nodes s)(c := becomeLeader (nodes s c))" and "members s' = members s" and "appendAcks s' = appendAcks s"
    and "h_tlog h' = (h_tlog h)(T := entries (nlog (nodes s c)))" and "h_clog h' = h_clog h" and "h_votes h' = h_votes h"
    and "\<exists>x. h_lead h' = (h_lead h)(T \<mapsto> x)" and "h_acks h' = h_acks h"
  using assms by (simp_all add: crowned_def Let_def)

lemma crowned_facts:
  assumes l: "linv s h" and v: "vinv d k s h" and w: "wins s c b T n" and C: "crowned s h c T s' h'"
  shows "h_tlog h T = []" and "h_clog h c T = entries (nlog (nodes s c))" and "valid_entry h' t i = valid_entry h t i"
    and "progress s h s' h'"
proof -
  note V = vinvD [OF v] and L = linvD [OF l] and W = w [unfolded wins_def] and C = crownedD [OF C]
  have none: "h_lead h T = None" by (rule wins_leaderless [OF v w])
  have vote: "(c, T, c) \<in> h_votes h" using votes_invD(6) [OF V(4), of c] W by auto
  have t0: "T \<noteq> 0" using votes_invD(1) [OF V(4) vote] by simp
  show empty: "h_tlog h T = []" by (rule leaders_logsD(3) [OF L(1) none t0])
  show cl: "h_clog h c T = entries (nlog (nodes s c))" using node_logsD(4) [OF L(3), of c] W by simp
  have young: "stored (h_tlog h) (T - 1) (entries (nlog (nodes s c)))"
    using candidates_logsD [OF L(2) vote] cl by simp
  show "valid_entry h' t i = valid_entry h t i"
    using stored_nth_term [OF young, of i] empty by (auto simp: valid_entry_def C(4))
  have "extends (h_tlog h) (h_tlog h')" using empty by (auto simp: extends_def C(4))
  then show "progress s h s' h'" by (auto simp: progress_def C(1,2,8) node_simps)
qed

lemma elected_kept_win:
  assumes q: "qinv s h" and l: "linv s h" and v: "vinv d k s h" and w: "wins s c b T n" and C: "crowned s h c T s' h'"
  shows "elected_kept s' h'"
proof (rule elected_kept_step)
  note D = qinvD [OF q] and V = vinvD [OF v] and F = crowned_facts [OF l v w C] and M = wins_majority [OF v w]
  show "elected_kept s h" "progress s h s' h'" by (rule D(4), rule F(4))
  fix T' t i
  assume va: "valid_entry h' t i"
  then have vo: "valid_entry h t i" by (simp add: F(3))
  show "blocked s' h' t i" if "length (h_tlog h t) \<le> i" using vo that by (simp add: valid_entry_def)
  assume "h_lead h' T' \<noteq> None" "h_lead h T' = None" and t: "t < T'"
  then have T: "T' = T" using crownedD(7) [OF C] by (auto split: if_splits)
  show "contains (h_tlog h' T') t i \<or> blocked s' h' t i"
  proof (cases "\<exists>u \<in> h_tally h c. (u, t, i) \<in> h_acks h")
    case True
    then obtain u where "u \<in> h_tally h c" and u: "(u, t, i) \<in> h_acks h" by blast
    from voted_keptD [OF D(3) M(3) [OF this(1)] _ u vo] t T F(2)
    show ?thesis using blocked_progress [OF _ F(4)] by (auto simp: crownedD(4) [OF C])
  next
    case False
    have "blocked s h t i"
      by (rule blockedI [OF M(1)]) (use False t T votes_invD(2) [OF V(4) M(3)] in \<open>force+\<close>)
    then show ?thesis using blocked_progress [OF _ F(4)] by blast
  qed
qed

lemma leader_acks_win:
  assumes q: "qinv s h" and l: "linv s h" and v: "vinv d k s h" and w: "wins s c b T n" and C: "crowned s h c T s' h'"
  shows "leader_acks s' h'"
  unfolding leader_acks_def
proof (intro allI impI conjI ballI)
  note D = qinvD [OF q] and W = w [unfolded wins_def] and F = crowned_facts [OF l v w C] and C = crownedD [OF C]
  fix a i assume a: "nstate (nodes s' a) = Leader"
  show "(a, currentTerm (nodes s' a), i) \<in> h_acks h'" if "valid_entry h' (currentTerm (nodes s' a)) i"
  proof (cases "a = c")
    case True
    then have "valid_entry h T i" using that F(3) W by (simp add: C(1) node_simps)
    then show ?thesis by (simp add: valid_entry_def F(1))
  next
    case False
    with that a leader_acksD(1) [OF D(5), of a i] F(3) show ?thesis by (simp add: C(1,8))
  qed
  show "(p, currentTerm (nodes s' a), i) \<in> h_acks h'"
    if "p \<in> set (peers (nodes s' a))" "0 < i" "int i \<le> map_get (matchIndex (nodes s' a)) p" for p
  proof (cases "a = c")
    case True
    with that show ?thesis by (simp add: C(1) node_simps map_get_def)
  next
    case False
    with that a leader_acksD(2) [OF D(5), of a p i] show ?thesis by (simp add: C(1,8))
  qed
qed

lemma qinv_win:
  assumes q: "qinv s h" and l: "linv s h" and v: "vinv d k s h" and w: "wins s c b T n" and C: "crowned s h c T s' h'"
  shows "qstep s h s' h'"
proof (rule qstepI)
  note D = qinvD [OF q] and P = crowned_facts(4) [OF l v w C] and N = crownedD [OF C]
  show "progress s h s' h'" by (rule P)
  show "acks_bounded s' h'" by (rule acks_bounded_step [OF D(1) P]) (simp add: N(8))
  show "acked_kept s' h'" by (rule acked_kept_step [OF D(2,1) P]) (auto simp: N(1,8) node_simps)
  show "voted_kept s' h'" by (rule voted_kept_step [OF D(3,1) vinvD(4) [OF v] P D(7)]) (simp_all add: N(5,6))
  show "elected_kept s' h'" by (rule elected_kept_win [OF assms])
  show "leader_acks s' h'" by (rule leader_acks_win [OF assms])
  show "success_acks (appendAcks s') h'" using D(6) by (simp add: success_acks_def N(3,8))
  show "votes_backed h'" using D(7) by (simp add: votes_backed_def N(6))
qed

lemma qinv_ElectionEnd:
  assumes q: "qinv s h" and l: "linv s h" and v: "vinv d k s h" and st: "cluster_step s (ElectionEnd c) s'"
  shows "qstep s h s' (hist_upd s (ElectionEnd c) s' h)"
  using st
proof (cases rule: ElectionEndE)
  case (1 b n won)
  from startElection_finish_cases [OF 1(4)] consider (lost) "n = nodes s c"
    | (won) "n = becomeLeader (nodes s c)" "nstate (nodes s c) = Candidate"
        "currentTerm (nodes s c) = el_term b"
        "majorityOf (int (length (peers (nodes s c))) + 1) \<le> el_votes b"
    by blast
  then show ?thesis
  proof cases
    case lost
    then show ?thesis
      using qinvD(6) [OF q] by (intro qinv_quiet [OF q vinvD(4) [OF v]]) (auto simp: 1(1))
  next
    case won
    then have "wins s c b (el_term b) n" using 1(2) by (simp add: wins_def node_simps)
    moreover have "crowned s h c (el_term b) s' (hist_upd s (ElectionEnd c) s' h)"
      using won by (auto simp: crowned_def 1(1) Let_def node_simps)
    ultimately show ?thesis by (rule qinv_win [OF q l v])
  qed
qed

lemma qinv_VoteAnswer:
  assumes q: "qinv s h" and v: "vinv d k s h" and st: "cluster_step s (VoteAnswer c v req resp) s'"
  shows "qstep s h s' (hist_upd s (VoteAnswer c v req resp) s' h)"
  using st
proof (cases rule: VoteAnswerE)
  case (1 b n m)
  with requestVoteFromPeer_quiet have "quiet (nodes s c) n" by blast
  then show ?thesis
    using qinvD(6) [OF q] by (intro qinv_quiet [OF q vinvD(4) [OF v]]) (auto simp: 1(1))
qed

lemma qinv_VoteLost:
  assumes q: "qinv s h" and v: "vinv d k s h" and st: "cluster_step s (VoteLost c v) s'"
  shows "qstep s h s' (hist_upd s (VoteLost c v) s' h)"
  using st
proof (cases rule: VoteLostE)
  case (1 b n m)
  with requestVoteFromPeer_quiet have "quiet (nodes s c) n" by blast
  then show ?thesis
    using qinvD(6) [OF q] by (intro qinv_quiet [OF q vinvD(4) [OF v]]) (auto simp: 1(1))
qed

lemma qinv_Apply:
  assumes q: "qinv s h" and v: "vinv d k s h" and st: "cluster_step s (Apply a) s'"
  shows "qstep s h s' (hist_upd s (Apply a) s' h)"
  using st
proof (cases rule: ApplyE)
  case (1 n ap)
  with runCommitApplier_quiet have "quiet (nodes s a) n" by blast
  then show ?thesis
    using qinvD(6) [OF q] by (intro qinv_quiet [OF q vinvD(4) [OF v]]) (auto simp: 1(1))
qed

lemma qinv_Notify:
  assumes q: "qinv s h" and v: "vinv d k s h" and st: "cluster_step s (Notify a) s'"
  shows "qstep s h s' (hist_upd s (Notify a) s' h)"
  using st
proof (cases rule: NotifyE)
  case (1 n post)
  with runCommitNotifier_quiet have "quiet (nodes s a) n" by blast
  then show ?thesis
    using qinvD(6) [OF q] by (intro qinv_quiet [OF q vinvD(4) [OF v]]) (auto simp: 1(1))
qed

lemma qinv_SendAppend:
  assumes q: "qinv s h" and v: "vinv d k s h" and st: "cluster_step s (SendAppend a p) s'"
  shows "qstep s h s' (hist_upd s (SendAppend a p) s' h)"
  using st
proof (cases rule: SendAppendE)
  case (1 req)
  then show ?thesis
    using qinvD(6) [OF q] by (intro qinv_quiet [OF q vinvD(4) [OF v]]) auto
qed

section \<open>Replication\<close>

lemma leads_stroke_new:
  assumes "leads_stroke s h a e n s' h'"
  shows "(u, t, i) \<in> h_acks h' \<Longrightarrow> (u, t, i) \<notin> h_acks h \<Longrightarrow>
      u = a \<and> t = currentTerm (nodes s a) \<and> i < Suc (length (entries (nlog (nodes s a))))"
    and "valid_entry h' t i \<Longrightarrow> length (h_tlog h t) \<le> i \<Longrightarrow>
      t = currentTerm (nodes s a) \<and> i = length (entries (nlog (nodes s a)))"
  using leads_strokeD(2,12,16) [OF assms] by (auto simp: valid_entry_def split: if_splits)

lemma leads_stroke_progress:
  assumes "linv s h" and "vinv d k s h" and S: "leads_stroke s h a e n s' h'"
  shows "progress s h s' h'"
  using leads_stroke_stored(1) [OF assms] leads_stroke_new(1) [OF S] leads_strokeD(5,7,16) [OF S]
  unfolding progress_def by auto

lemma acks_stroke:
  assumes q: "qinv s h" and P: "progress s h s' h'" and S: "leads_stroke s h a e n s' h'"
  shows "acks_bounded s' h'" and "acked_kept s' h'"
proof -
  note D = qinvD [OF q] and N = leads_strokeD [OF S] and new = leads_stroke_new(1) [OF S]
  show "acks_bounded s' h'"
  proof (rule acks_bounded_step [OF D(1) P])
    fix u t i assume "(u, t, i) \<in> h_acks h'" "(u, t, i) \<notin> h_acks h"
    from new [OF this] show "t \<le> currentTerm (nodes s' u) \<and> i < length (h_tlog h' t)"
      by (simp add: N(2,5,7,12))
  qed
  show "acked_kept s' h'"
  proof (rule acked_kept_step [OF D(2,1) P])
    show "contains (entries (nlog (nodes s' u))) t i \<or> blocked s' h' t i"
      if "contains (entries (nlog (nodes s u))) t i" for u t i
      using that contains_append by (auto simp: N(5,6))
    show "contains (entries (nlog (nodes s' u))) t i"
      if "(u, t, i) \<in> h_acks h'" "(u, t, i) \<notin> h_acks h" "valid_entry h' t i" for u t i
      using new [OF that(1,2)] that(3) by (simp add: N(2,5,6,12) valid_contains)
  qed
qed

lemma elected_kept_stroke:
  assumes q: "qinv s h" and v: "vinv d k s h" and P: "progress s h s' h'" and S: "leads_stroke s h a e n s' h'"
  shows "elected_kept s' h'"
proof (rule elected_kept_step [OF qinvD(4) [OF q] P])
  note V = vinvD [OF v] and N = leads_strokeD [OF S]
  show "contains (h_tlog h' T') t i \<or> blocked s' h' t i"
    if "h_lead h' T' \<noteq> None" "h_lead h T' = None" for T' t i
    using that by (simp add: N(15))
  fix T' t i
  assume "h_lead h T' \<noteq> None" and t: "t < T'" and f: "valid_entry h' t i" "length (h_tlog h t) \<le> i"
  then obtain c Q where Q: "h_lead h T' = Some (c, Q)" by auto
  note M = leader_invD [OF V(6) Q]
  have late: "t < currentTerm (nodes s u)" if "u \<in> Q" for u
    using votes_invD(2) [OF V(4) M(3) [OF that]] t by simp
  show "blocked s' h' t i"
  proof (rule blockedI)
    show "is_majority (members s') Q" using M(1) by (simp add: N(5))
    fix u assume u: "u \<in> Q"
    show "t < currentTerm (nodes s' u)" using late [OF u] by (auto simp: N(5,7))
    have "(u, t, i) \<notin> h_acks h" using acks_boundedD(2) [OF qinvD(1) [OF q]] f(2) by fastforce
    then show "(u, t, i) \<notin> h_acks h'"
      using leads_stroke_new(1) [OF S] leads_stroke_new(2) [OF S f] late [OF u] by blast
  qed
qed

lemma leader_acks_stroke:
  assumes q: "qinv s h" and v: "vinv d k s h" and S: "leads_stroke s h a e n s' h'"
  shows "leader_acks s' h'"
  unfolding leader_acks_def
proof (intro allI impI conjI ballI)
  note D = qinvD [OF q] and V = vinvD [OF v] and N = leads_strokeD [OF S]
  fix b i assume b: "nstate (nodes s' b) = Leader"
  have l: "nstate (nodes s b) = Leader" and same: "currentTerm (nodes s' b) = currentTerm (nodes s b)"
      "peers (nodes s' b) = peers (nodes s b)" "matchIndex (nodes s' b) = matchIndex (nodes s b)"
    using b N(1,7,9,11) by (auto simp: N(5) split: if_splits)
  show "(p, currentTerm (nodes s' b), i) \<in> h_acks h'"
    if "p \<in> set (peers (nodes s' b))" "0 < i" "int i \<le> map_get (matchIndex (nodes s' b)) p" for p
    using leader_acksD(2) [OF D(5) l, of p i] that by (simp add: same N(16))
  assume va: "valid_entry h' (currentTerm (nodes s' b)) i"
  show "(b, currentTerm (nodes s' b), i) \<in> h_acks h'"
  proof (cases "b = a")
    case True
    then show ?thesis using va same(1) by (simp add: N(2,12,16) valid_entry_def)
  next
    case False
    then have "currentTerm (nodes s b) \<noteq> currentTerm (nodes s a)"
      using leader_inv_role [OF V(6) l] leader_inv_role [OF V(6) N(1)] by auto
    then have "valid_entry h (currentTerm (nodes s b)) i" using va by (simp add: same N(12) valid_entry_def)
    then show ?thesis using leader_acksD(1) [OF D(5) l] by (simp add: same N(16))
  qed
qed

lemma qinv_Stroke:
  assumes q: "qinv s h" and l: "linv s h" and v: "vinv d k s h" and st: "cluster_step s (Stroke a str) s'"
  shows "qstep s h s' (hist_upd s (Stroke a str) s' h)"
  using l st
proof (cases rule: Stroke_cases)
  case (refused n)
  show ?thesis by (rule qinv_quiet [OF q vinvD(4) [OF v]]) (use refused qinvD(6) [OF q] in \<open>auto\<close>)
next
  case (taken e n)
  note D = qinvD [OF q] and N = leads_strokeD [OF taken] and P = leads_stroke_progress [OF l v taken]
  show ?thesis
  proof (rule qstepI [OF P])
    show "voted_kept s' (hist_upd s (Stroke a str) s' h)"
      by (rule voted_kept_step [OF D(3,1) vinvD(4) [OF v] P D(7)]) (simp_all only: N(13,14))
    show "success_acks (appendAcks s') (hist_upd s (Stroke a str) s' h)"
      using D(6) unfolding success_acks_def N(16) by (auto simp: N(5))
    show "votes_backed (hist_upd s (Stroke a str) s' h)" using D(7) unfolding votes_backed_def N(14) .
  qed (intro acks_stroke [OF q P taken] elected_kept_stroke [OF q v P taken] leader_acks_stroke [OF q v taken])+
qed

lemma HandleAppendEntries_success:
  assumes C: "carries g req" and E: "stored g t (entries (nlog n))"
    and G: "stored g (ar_Term req) (g (ar_Term req))"
    and r: "snd (HandleAppendEntries n req) = Inr resp" "ap_Success resp"
  shows "currentTerm n \<le> ar_Term req" and "prevConflict (nlog n) req = None"
    and "entries (nlog (fst (HandleAppendEntries n req))) = merged_with g n req"
proof -
  have "currentTerm n \<le> ar_Term req \<and> prevConflict (nlog n) req = None \<and>
        entries (nlog (fst (HandleAppendEntries n req))) = merged_with g n req"
  proof (cases rule: HandleAppendEntries_cases [of req n])
    case (stored l)
    note P = consistent_prefix [OF C E G stored(2)]
    have "l = (nlog n)\<lparr>entries := merged_with g n req\<rparr>"
      using AppendEntries_slice [OF storedD(3) [OF G] P(1), of "length (ar_Entries req)" "commitIndex n"]
        stored(3) carriesD(4) [OF C, symmetric] by (auto simp: merged_with_def)
    then show ?thesis using stored by (simp add: HandleAppendEntries_store node_simps)
  qed (use r in \<open>auto simp: HandleAppendEntries_eqs\<close>)
  then show "currentTerm n \<le> ar_Term req" and "prevConflict (nlog n) req = None"
    and "entries (nlog (fst (HandleAppendEntries n req))) = merged_with g n req" by simp_all
qed

lemma merged_with_take:
  assumes C: "carries g req" and E: "stored g t (entries (nlog n))"
    and G: "stored g (ar_Term req) (g (ar_Term req))" and P: "prevConflict (nlog n) req = None"
    and k: "k \<le> Suc (nat (ar_PrevLogIndex req) + length (ar_Entries req))"
  shows "take k (merged_with g n req) = take k (g (ar_Term req))" and "k \<le> length (merged_with g n req)"
proof -
  let ?k = "Suc (nat (ar_PrevLogIndex req))" and ?m = "length (ar_Entries req)"
  have m: "matching (entries (nlog n)) (g (ar_Term req))" using chained_matching storedD(4) E G by blast
  have "take (?k + ?m) (merged_with g n req) = take (?k + ?m) (g (ar_Term req))"
    "?k + ?m \<le> length (merged_with g n req)"
    unfolding merged_with_def
    using merged_take [OF m consistent_prefix(2,1) [OF C E G P], of ?m] carriesD(2) [OF C] by simp_all
  then show "take k (merged_with g n req) = take k (g (ar_Term req))" "k \<le> length (merged_with g n req)"
    using k take_eq_mono [of "?k + ?m" _ _ k] by simp_all
qed

lemma merged_with_keeps:
  assumes C: "carries g req" and E: "stored g t (entries (nlog n))"
    and G: "stored g (ar_Term req) (g (ar_Term req))" and P: "prevConflict (nlog n) req = None"
    and c: "take c (entries (nlog n)) = take c (g (ar_Term req))" "c \<le> length (entries (nlog n))"
  shows "take c (merged_with g n req) = take c (entries (nlog n))" and "c \<le> length (merged_with g n req)"
proof -
  have m: "matching (entries (nlog n)) (g (ar_Term req))" using chained_matching storedD(4) E G by blast
  have "Suc (nat (ar_PrevLogIndex req)) + length (ar_Entries req) \<le> length (g (ar_Term req))"
    using carriesD(2) [OF C] by simp
  note M = merged_keeps [OF m consistent_prefix(2,1) [OF C E G P] this c]
  then show "take c (merged_with g n req) = take c (entries (nlog n))" "c \<le> length (merged_with g n req)"
    using c(1) by (simp_all add: merged_with_def)
qed

lemma HandleAppendEntries_contains:
  assumes C: "carries g req" and E: "stored g t' (entries (nlog n))"
    and G: "stored g (ar_Term req) (g (ar_Term req))"
    and e: "contains (entries (nlog n)) t i" and s: "contains (g (ar_Term req)) t i"
  shows "contains (entries (nlog (fst (HandleAppendEntries n req)))) t i"
proof -
  have tk: "take (Suc i) (entries (nlog n)) = take (Suc i) (g (ar_Term req))"
    using contains_take(1) [OF e storedD(4) [OF E]] contains_take(1) [OF s storedD(4) [OF G]] by simp
  have "Suc i \<le> length (entries (nlog n))" using e by (simp add: contains_def)
  from merged_with_keeps(1) [OF C E G _ tk this] contains_by_take [OF e]
  show ?thesis using HandleAppendEntries_log [OF C E G] e by metis
qed

text \<open>
  A request of term \<open>T\<close> reaches a node that has confirmed an entry: the sender's log holds the
  entry, since it is its own or the sender was elected later, so the node keeps it.
\<close>

lemma RecvAppend_keeps:
  assumes q: "qinv s h" and l: "linv s h" and v: "vinv d k s h" and m: "(a, v, req) \<in> appendReqs s"
    and a: "(v, t, i) \<in> h_acks h" and va: "valid_entry h t i"
    and e: "contains (entries (nlog (nodes s v))) t i"
  shows "contains (entries (nlog (fst (HandleAppendEntries (nodes s v) req)))) t i \<or> blocked s h t i"
proof (cases "currentTerm (nodes s v) \<le> ar_Term req")
  case False
  then show ?thesis using e by (simp add: HandleAppendEntries_stale)
next
  case True
  note D = linvD [OF l] and V = vinvD [OF v] and A = qinvD [OF q]
  obtain Q where Q: "h_lead h (ar_Term req) = Some (a, Q)" using append_msgs_invD(3) [OF V(9) m] by blast
  note C = append_reqs_logsD [OF D(5) m] and G = leaders_logsD(4) [OF D(1) Q]
  note E = node_logsD(1) [OF D(3), of v]
  have "contains (h_tlog h (ar_Term req)) t i \<or> blocked s h t i"
  proof (cases "t = ar_Term req")
    case True
    then show ?thesis using va by (simp add: valid_contains)
  next
    case False
    then have "t < ar_Term req" using True acks_boundedD(1) [OF A(1) a] by simp
    with elected_keptD [OF A(4) _ this va] Q show ?thesis by simp
  qed
  then show ?thesis using HandleAppendEntries_contains [OF C E G e] by blast
qed

lemma qinv_RecvAppend_refused:
  assumes q: "qinv s h" and l: "linv s h" and v: "vinv d k s h" and st: "cluster_step s (RecvAppend a v req) s'"
    and r: "\<And>resp. snd (HandleAppendEntries (nodes s v) req) = Inr resp \<Longrightarrow> \<not> ap_Success resp"
  shows "qstep s h s' h"
  using st
proof (cases rule: RecvAppendE)
  case (1 n r')
  note D = qinvD [OF q] and V = vinvD [OF v]
  let ?n = "fst (HandleAppendEntries (nodes s v) req)"
  have N: "nodes s' = (nodes s)(v := ?n)" "members s' = members s" using 1(3) by (simp_all add: 1(1))
  have P: "progress s h s' h" by (simp add: progress_def N node_simps)
  show ?thesis
  proof (rule qstepI)
    show "progress s h s' h" by (rule P)
    show "acks_bounded s' h" by (rule acks_bounded_step [OF D(1) P]) simp
    show "acked_kept s' h"
    proof (rule acked_kept_step [OF D(2,1) P])
      fix w t i
      assume w: "(w, t, i) \<in> h_acks h" "valid_entry h t i" "contains (entries (nlog (nodes s w))) t i"
      show "contains (entries (nlog (nodes s' w))) t i \<or> blocked s' h t i"
      proof (cases "w = v")
        case True
        with RecvAppend_keeps [OF q l v 1(2), of t i] w blocked_progress [OF _ P] show ?thesis
          by (auto simp: N)
      qed (use w in \<open>simp add: N\<close>)
    qed simp
    show "voted_kept s' h" by (rule voted_kept_step [OF D(3,1) V(4) P D(7)]) simp_all
    show "elected_kept s' h" by (rule elected_kept_step [OF D(4) P]) (simp_all add: valid_entry_def)
    show "leader_acks s' h"
      by (rule leader_acks_quiet [OF D(5)]) (auto simp: N node_simps split: if_splits)
    show "votes_backed h" by (rule D(7))
    have "\<not> ap_Success resp" if "r' = Inr resp" for resp using r that 1(3) by simp
    then show "success_acks (appendAcks s') h"
      using D(6) by (auto simp: success_acks_def 1(1) split: sum.splits)
  qed
qed

lemma RecvAppend_acked_kept:
  assumes q: "qinv s h" and l: "linv s h" and v: "vinv d k s h" and m: "(a, v, req) \<in> appendReqs s"
    and r: "snd (HandleAppendEntries (nodes s v) req) = Inr resp" "ap_Success resp"
    and N: "nodes s' = (nodes s)(v := fst (HandleAppendEntries (nodes s v) req))" and P: "progress s h s' h'"
    and g: "h_tlog h' = h_tlog h"
    and new: "\<And>u t i. (u, t, i) \<in> h_acks h' \<Longrightarrow> (u, t, i) \<notin> h_acks h \<Longrightarrow>
           u = v \<and> t = ar_Term req \<and> i \<le> nat (ar_PrevLogIndex req) + length (ar_Entries req)"
  shows "acked_kept s' h'"
proof -
  note L = linvD [OF l]
  obtain Q where Q: "h_lead h (ar_Term req) = Some (a, Q)" using append_msgs_invD(3) [OF vinvD(9) [OF v] m] by blast
  note C = append_reqs_logsD [OF L(5) m] and G = leaders_logsD(4) [OF L(1) Q] and E = node_logsD(1) [OF L(3), of v]
  note S = HandleAppendEntries_success [OF C E G r]
  let ?T = "ar_Term req"
  show ?thesis
  proof (rule acked_kept_step [OF qinvD(2) [OF q] qinvD(1) [OF q] P])
    fix w t i
    assume w: "(w, t, i) \<in> h_acks h" "valid_entry h t i" "contains (entries (nlog (nodes s w))) t i"
    show "contains (entries (nlog (nodes s' w))) t i \<or> blocked s' h' t i"
    proof (cases "w = v")
      case True
      with RecvAppend_keeps [OF q l v m, of t i] w blocked_progress [OF _ P] show ?thesis
        by (auto simp: N)
    qed (use w in \<open>simp add: N\<close>)
  next
    fix w t i
    assume a: "(w, t, i) \<in> h_acks h'" "(w, t, i) \<notin> h_acks h" and va: "valid_entry h' t i"
    have "take (Suc i) (merged_with (h_tlog h) (nodes s v) req) = take (Suc i) (h_tlog h ?T)"
      using new [OF a] by (intro merged_with_take(1) [OF C E G S(2)]) simp
    moreover have "contains (h_tlog h ?T) ?T i" using va new [OF a] by (simp add: valid_contains g)
    ultimately show "contains (entries (nlog (nodes s' w))) t i"
      using contains_by_take new [OF a] by (simp add: N S(3))
  qed
qed

lemma qinv_RecvAppend_stored:
  assumes q: "qinv s h" and l: "linv s h" and v: "vinv d k s h" and st: "cluster_step s (RecvAppend a v req) s'"
    and r: "snd (HandleAppendEntries (nodes s v) req) = Inr resp" "ap_Success resp"
    and h': "h_tlog h' = h_tlog h" "h_clog h' = h_clog h" "h_votes h' = h_votes h" "h_lead h' = h_lead h"
      "h_acks h' = h_acks h \<union> {(v, ar_Term req, i) | i.
                     int i \<le> ar_PrevLogIndex req + int (length (ar_Entries req))}"
  shows "qstep s h s' h'"
  using st
proof (cases rule: RecvAppendE)
  case (1 n r')
  note D = qinvD [OF q] and V = vinvD [OF v] and L = linvD [OF l]
  let ?n = "fst (HandleAppendEntries (nodes s v) req)" and ?T = "ar_Term req"
  have N: "nodes s' = (nodes s)(v := ?n)" "members s' = members s" using 1(3) by (simp_all add: 1(1))
  obtain Q where Q: "h_lead h ?T = Some (a, Q)" using append_msgs_invD(3) [OF V(9) 1(2)] by blast
  note C = append_reqs_logsD [OF L(5) 1(2)] and G = leaders_logsD(4) [OF L(1) Q]
  note E = node_logsD(1) [OF L(3), of v]
  note S = HandleAppendEntries_success [OF C E G r]
  have new: "u = v \<and> t = ?T \<and> i \<le> nat (ar_PrevLogIndex req) + length (ar_Entries req)"
    if "(u, t, i) \<in> h_acks h'" "(u, t, i) \<notin> h_acks h" for u t i
    using that carriesD(1) [OF C] by (auto simp: h')
  have P: "progress s h s' h'"
    unfolding progress_def using new S(1) h'(5) by (auto simp: N node_simps h'(1))
  show ?thesis
  proof (rule qstepI)
    show "progress s h s' h'" by (rule P)
    show "acks_bounded s' h'"
    proof (rule acks_bounded_step [OF D(1) P])
      fix u t i assume "(u, t, i) \<in> h_acks h'" "(u, t, i) \<notin> h_acks h"
      from new [OF this] show "t \<le> currentTerm (nodes s' u) \<and> i < length (h_tlog h' t)"
        using carriesD(2) [OF C] by (simp add: N h' node_simps)
    qed
    show "acked_kept s' h'"
      by (rule RecvAppend_acked_kept [OF q l v 1(2) r N(1) P h'(1)]) (rule new)
    show "voted_kept s' h'" by (rule voted_kept_step [OF D(3,1) V(4) P D(7)]) (simp_all add: h')
    show "elected_kept s' h'" by (rule elected_kept_step [OF D(4) P]) (simp_all add: valid_entry_def h')
    show "leader_acks s' h'"
      by (rule leader_acks_quiet [OF D(5)]) (use S(1) in \<open>auto simp: N h' node_simps split: if_splits\<close>)
    show "votes_backed h'" using D(7) by (simp add: votes_backed_def h')
    have "appendAcks s' = insert (a, v, req, resp) (appendAcks s)" using 1(3) r by (simp add: 1(1))
    then show "success_acks (appendAcks s') h'"
      using D(6) unfolding success_acks_def h'(5) by auto
  qed
qed

lemma qinv_RecvAppend:
  assumes q: "qinv s h" and l: "linv s h" and v: "vinv d k s h" and st: "cluster_step s (RecvAppend a v req) s'"
  shows "qstep s h s' (hist_upd s (RecvAppend a v req) s' h)"
proof (cases "\<exists>resp. snd (HandleAppendEntries (nodes s v) req) = Inr resp \<and> ap_Success resp")
  case True
  then obtain resp where "snd (HandleAppendEntries (nodes s v) req) = Inr resp" "ap_Success resp" by blast
  then show ?thesis by (intro qinv_RecvAppend_stored [OF q l v st]) simp_all
next
  case False
  then have "hist_upd s (RecvAppend a v req) s' h = h" by (auto split: sum.split)
  then show ?thesis using qinv_RecvAppend_refused [OF q l v st] False by simp
qed

lemma AppendAnswer_match:
  assumes q: "qinv s h" and l: "linv s h" and v: "vinv d k s h" and m: "(a, v, req, resp) \<in> appendAcks s"
    and that: "nstate (nodes s a) = Leader" "p \<in> set (peers (nodes s a))" "0 < i"
      "int i \<le> map_get (matchIndex (appendEntriesAnswer (nodes s a) v req resp)) p"
      "ap_Term resp \<le> currentTerm (nodes s a)"
  shows "(p, currentTerm (nodes s a), i) \<in> h_acks h"
  using that(5)
proof (cases rule: appendEntriesAnswer_cases [of "nodes s a" resp v req])
  case success
  note D = qinvD [OF q] and V = vinvD [OF v] and L = linvD [OF l]
  let ?n = "nodes s a" and ?n' = "appendEntriesAnswer (nodes s a) v req resp"
  have r: "(a, v, req) \<in> appendReqs s" by (rule append_msgs_invD(4) [OF V(9) m])
  obtain Q where Q: "h_lead h (ar_Term req) = Some (a, Q)" using append_msgs_invD(3) [OF V(9) r] by blast
  note G = storedD(3) [OF leaders_logsD(4) [OF L(1) Q]] and C = append_reqs_logsD [OF L(5) r]
  have mi: "matchIndex ?n' = (matchIndex ?n)(v \<mapsto> ar_PrevLogIndex req + int (length (ar_Entries req)))"
    using success by (simp add: node_simps carries_last [OF C G success(5)])
  show ?thesis
  proof (cases "p = v")
    case True
    then show ?thesis using D(6) m success(3,4) that(4) mi unfolding success_acks_def by auto
  next
    case False
    then show ?thesis using leader_acksD(2) [OF D(5) that(1-3)] that(4) mi by simp
  qed
qed (use leader_acksD(2) [OF qinvD(5) [OF q] that(1-3)] that(4) in \<open>simp_all add: node_simps\<close>)

lemma qinv_AppendAnswer:
  assumes q: "qinv s h" and l: "linv s h" and v: "vinv d k s h"
    and st: "cluster_step s (AppendAnswer a v req resp) s'"
  shows "qstep s h s' (hist_upd s (AppendAnswer a v req resp) s' h)"
  using st
proof (cases rule: AppendAnswerE)
  case 1
  note D = qinvD [OF q] and V = vinvD [OF v]
  let ?n = "nodes s a"
  have "leader_acks s' h"
    unfolding leader_acks_def
  proof (intro allI impI conjI ballI)
    fix b i assume b: "nstate (nodes s' b) = Leader"
    have ld: "nstate (nodes s b) = Leader" and same: "currentTerm (nodes s' b) = currentTerm (nodes s b)"
        "peers (nodes s' b) = peers (nodes s b)" and le: "b = a \<Longrightarrow> ap_Term resp \<le> currentTerm ?n"
      using b by (auto simp: 1(1) node_simps split: if_splits)
    show "valid_entry h (currentTerm (nodes s' b)) i \<Longrightarrow> (b, currentTerm (nodes s' b), i) \<in> h_acks h"
      using leader_acksD(1) [OF D(5) ld] same by simp
    fix p assume p: "p \<in> set (peers (nodes s' b))" "0 < i" "int i \<le> map_get (matchIndex (nodes s' b)) p"
    show "(p, currentTerm (nodes s' b), i) \<in> h_acks h"
    proof (cases "b = a")
      case True
      then show ?thesis using AppendAnswer_match [OF q l v 1(2), of p i] ld same p le by (simp add: 1(1) node_simps)
    next
      case False
      then show ?thesis using leader_acksD(2) [OF D(5) ld, of p i] p by (simp add: 1(1))
    qed
  qed
  then show ?thesis
    using D(6) by (intro qinv_frame [OF q V(4)]) (auto simp: 1(1) node_simps)
qed

section \<open>Reachable clusters\<close>

lemma qinv_step:
  assumes q: "qinv s h" and l: "linv s h" and v: "vinv d k s h" and k: "int k < max_int"
    and st: "cluster_step s e s'"
  shows "qstep s h s' (hist_upd s e s' h)"
proof (cases e)
  case (Timeout a)
  with st qinv_Timeout [OF q l v k] show ?thesis by blast
next
  case (RecvVote c v req)
  with st qinv_RecvVote [OF q l assms(3)] show ?thesis by blast
next
  case (VoteAnswer c v req resp)
  with st qinv_VoteAnswer [OF q assms(3)] show ?thesis by blast
next
  case (VoteLost c v)
  with st qinv_VoteLost [OF q assms(3)] show ?thesis by blast
next
  case (ElectionEnd c)
  with st qinv_ElectionEnd [OF q l v] show ?thesis by blast
next
  case (Stroke a str)
  with st qinv_Stroke [OF q l v] show ?thesis by blast
next
  case (SendAppend a p)
  with st qinv_SendAppend [OF q v] show ?thesis by blast
next
  case (RecvAppend a v req)
  with st qinv_RecvAppend [OF q l assms(3)] show ?thesis by blast
next
  case (AppendAnswer a v req resp)
  with st qinv_AppendAnswer [OF q l assms(3)] show ?thesis by blast
next
  case (Apply a)
  with st qinv_Apply [OF q v] show ?thesis by blast
next
  case (Notify a)
  with st qinv_Notify [OF q v] show ?thesis by blast
qed

lemma qinv_init: "qinv (init_cluster d) init_hist"
  by (simp add: qinv_def acks_bounded_def acked_kept_def voted_kept_def elected_kept_def leader_acks_def
      success_acks_def votes_backed_def init_cluster_def init_hist_def NewNode_def)

text \<open>Leader completeness, on the history: a later leader's log holds every committed entry.\<close>

lemma committed_in_later_leader:
  assumes "qinv s h" and "committed s h t i" and "h_lead h T \<noteq> None" and "t \<le> T"
  shows "contains (h_tlog h T) t i"
proof (cases "t = T")
  case True
  then show ?thesis using assms(2) by (simp add: committed_def valid_contains)
next
  case False
  then have "t < T" using assms(4) by simp
  from elected_keptD [OF qinvD(4) [OF assms(1)] assms(3) this] assms(2) committed_not_blocked
  show ?thesis unfolding committed_def by blast
qed

end
