(* ===== verification/ClusterCommit.thy ===== *)
theory ClusterCommit
  imports ClusterQuorums
begin

text \<open>
  Commitment. Every node's log up to its commit index is part of one common sequence of entries,
  the ledger: the log of some term's leader up to an entry that a majority has confirmed. The
  commit index a request carries is covered by the entries the request brings, since a leader
  always sends its log to the end; \<open>HandleAppendEntries\<close> relies on this, because it bounds the
  commit index by the end of the follower's log and not by the last entry of the request.

  What the applier queues and the notifier posts is a part of the ledger, in its order.
\<close>

section \<open>The ledger\<close>

definition agreed :: "cluster \<Rightarrow> hist \<Rightarrow> int \<Rightarrow> LogEntry list \<Rightarrow> nat \<Rightarrow> bool" where
  "agreed s h T es c \<longleftrightarrow>
     c < length es \<and>
     (c = 0 \<or> (\<exists>t i. t \<le> T \<and> committed s h t i \<and> c \<le> i \<and> take (Suc c) es = take (Suc c) (h_tlog h t)))"

definition ledger :: "cluster \<Rightarrow> hist \<Rightarrow> nat \<Rightarrow> LogEntry \<Rightarrow> bool" where
  "ledger s h i e \<longleftrightarrow> (\<exists>t j. committed s h t j \<and> i \<le> j \<and> h_tlog h t ! i = e)"

definition invs :: "deployment \<Rightarrow> nat \<Rightarrow> cluster \<Rightarrow> hist \<Rightarrow> bool" where
  "invs d k s h \<longleftrightarrow> vinv d k s h \<and> linv s h \<and> qinv s h"

lemma invsD:
  assumes "invs d k s h"
  shows "vinv d k s h" and "linv s h" and "qinv s h"
  using assms by (simp_all add: invs_def)

lemma committed_bound: "committed s h t i \<Longrightarrow> i < length (h_tlog h t)"
  by (simp add: committed_def valid_entry_def)

lemma committed_has_leader:
  assumes "invs d k s h" and "committed s h t i" and "t \<noteq> 0"
  shows "h_lead h t \<noteq> None"
  using leaders_logsD(3) [OF linvD(1) [OF invsD(2) [OF assms(1)]], of t] committed_bound [OF assms(2)] assms(3)
  by (metis list.size(3) not_less0)

lemma leader_term_pos:
  assumes "invs d k s h" and "h_lead h t \<noteq> None"
  shows "1 \<le> t"
proof -
  obtain l Q where Q: "h_lead h t = Some (l, Q)" using assms(2) by auto
  note V = vinvD [OF invsD(1) [OF assms(1)]]
  from leader_invD(2,3) [OF V(6) Q] votes_invD(1) [OF V(4)] show ?thesis by blast
qed

text \<open>Two committed entries lie in one sequence.\<close>

lemma committed_prefix:
  assumes inv: "invs d k s h" and c: "committed s h t i" "committed s h t' i'" and le: "t \<le> t'"
  shows "take (Suc i) (h_tlog h t') = take (Suc i) (h_tlog h t)" and "i < length (h_tlog h t')"
proof -
  have "take (Suc i) (h_tlog h t') = take (Suc i) (h_tlog h t) \<and> i < length (h_tlog h t')"
  proof (cases "t = t'")
    case True
    then show ?thesis using committed_bound [OF c(1)] by simp
  next
    case False
    then have "t' \<noteq> 0"
      using committed_has_leader [OF inv c(1)] leader_term_pos [OF inv, of t] le by fastforce
    then have l: "h_lead h t' \<noteq> None" by (rule committed_has_leader [OF inv c(2)])
    then obtain x where "h_lead h t' = Some x" by blast
    then have ch: "chained (h_tlog h) (h_tlog h t')"
      using leaders_logsD(4) [OF linvD(1) [OF invsD(2) [OF inv]]] storedD(4) by blast
    have "contains (h_tlog h t') t i" by (rule committed_in_later_leader [OF invsD(3) [OF inv] c(1) l le])
    from contains_take(1) [OF this ch] this show ?thesis by (simp add: contains_def)
  qed
  then show "take (Suc i) (h_tlog h t') = take (Suc i) (h_tlog h t)" "i < length (h_tlog h t')" by simp_all
qed

lemma committed_agree:
  assumes inv: "invs d k s h" and c: "committed s h t i" "committed s h t' i'" and m: "m \<le> i" "m \<le> i'"
  shows "take (Suc m) (h_tlog h t) = take (Suc m) (h_tlog h t')"
proof (cases "t \<le> t'")
  case True
  from take_eq_mono [OF committed_prefix(1) [OF inv c True], of "Suc m"] m show ?thesis by simp
next
  case False
  then have "t' \<le> t" by simp
  from take_eq_mono [OF committed_prefix(1) [OF inv c(2,1) this], of "Suc m"] m show ?thesis by simp
qed

lemma ledger_unique:
  assumes inv: "invs d k s h" and "ledger s h i e" and "ledger s h i e'"
  shows "e = e'"
proof -
  obtain t j where 1: "committed s h t j" "i \<le> j" "h_tlog h t ! i = e"
    using assms(2) unfolding ledger_def by blast
  obtain t' j' where 2: "committed s h t' j'" "i \<le> j'" "h_tlog h t' ! i = e'"
    using assms(3) unfolding ledger_def by blast
  from take_Suc_eq_nth [OF committed_agree [OF inv 1(1) 2(1) 1(2) 2(2)]]
  show ?thesis using 1 2 committed_bound [OF 1(1)] committed_bound [OF 2(1)] by simp
qed

lemma ledger_progress:
  assumes "ledger s h i e" and P: "progress s h s' h'"
  shows "ledger s' h' i e"
proof -
  obtain t j where 1: "committed s h t j" "i \<le> j" "h_tlog h t ! i = e"
    using assms(1) unfolding ledger_def by blast
  have "h_tlog h' t ! i = h_tlog h t ! i"
    using extends_nth [OF progressD(3) [OF P]] committed_bound [OF 1(1)] 1(2) by simp
  then show ?thesis using committed_progress [OF 1(1) P] 1 unfolding ledger_def by metis
qed

lemma agreed_ledger:
  assumes "agreed s h T es c" and "0 < i" and "i \<le> c"
  shows "ledger s h i (es ! i)"
proof -
  have "c \<noteq> 0" using assms(2,3) by simp
  then obtain t j where 1: "committed s h t j" "c \<le> j" "take (Suc c) es = take (Suc c) (h_tlog h t)"
    and c: "c < length es" using assms(1) unfolding agreed_def by blast
  have "es ! i = h_tlog h t ! i"
    using take_eq_nth [OF 1(3), of i] c assms(3) committed_bound [OF 1(1)] 1(2) by simp
  then show ?thesis using 1(1,2) assms(3) unfolding ledger_def by (metis order_trans)
qed

lemma agreed_leader:
  assumes inv: "invs d k s h" and a: "agreed s h T es c" and es: "stored (h_tlog h) u es"
    and l: "h_lead h T' \<noteq> None" and le: "T \<le> T'"
  shows "take (Suc c) es = take (Suc c) (h_tlog h T')" and "c < length (h_tlog h T')"
proof -
  obtain x where "h_lead h T' = Some x" using l by blast
  then have G: "stored (h_tlog h) T' (h_tlog h T')"
    using leaders_logsD(4) [OF linvD(1) [OF invsD(2) [OF inv]]] by blast
  have "take (Suc c) es = take (Suc c) (h_tlog h T') \<and> c < length (h_tlog h T')"
  proof (cases "c = 0")
    case True
    then show ?thesis using stored_take_1 [OF es] stored_take_1 [OF G] storedD(1) [OF G] by simp
  next
    case False
    then obtain t i where 1: "t \<le> T" "committed s h t i" "c \<le> i"
        "take (Suc c) es = take (Suc c) (h_tlog h t)"
      using a unfolding agreed_def by blast
    have "t \<le> T'" using 1(1) le by simp
    note e = committed_in_later_leader [OF invsD(3) [OF inv] 1(2) l this]
    have "take (Suc i) (h_tlog h T') = take (Suc i) (h_tlog h t)"
      by (rule contains_take(1) [OF e storedD(4) [OF G]])
    from take_eq_mono [OF this, of "Suc c"] 1(3,4) e show ?thesis by (simp add: contains_def)
  qed
  then show "take (Suc c) es = take (Suc c) (h_tlog h T')" "c < length (h_tlog h T')" by simp_all
qed

lemma agreed_agree:
  assumes inv: "invs d k s h" and a: "agreed s h T es c" "agreed s h T' es' c'"
    and st: "stored (h_tlog h) u es" "stored (h_tlog h) u' es'" and m: "m \<le> c" "m \<le> c'"
  shows "take (Suc m) es = take (Suc m) es'"
proof (cases "m = 0")
  case True
  then show ?thesis using stored_take_1 [OF st(1)] stored_take_1 [OF st(2)] by simp
next
  case False
  then obtain t i where 1: "committed s h t i" "c \<le> i" "take (Suc c) es = take (Suc c) (h_tlog h t)"
    using a(1) m unfolding agreed_def by auto
  from False obtain t' i' where 2: "committed s h t' i'" "c' \<le> i'" "take (Suc c') es' = take (Suc c') (h_tlog h t')"
    using a(2) m unfolding agreed_def by auto
  have "take (Suc m) (h_tlog h t) = take (Suc m) (h_tlog h t')"
    using committed_agree [OF inv 1(1) 2(1)] m 1(2) 2(2) by simp
  then show ?thesis
    using take_eq_mono [OF 1(3), of "Suc m"] take_eq_mono [OF 2(3), of "Suc m"] m by simp
qed

lemma agreed_progress:
  assumes a: "agreed s h T es c" and P: "progress s h s' h'" and "T \<le> T'"
    and es: "take (Suc c) es' = take (Suc c) es"
  shows "agreed s' h' T' es' c"
proof -
  have c: "c < length es" using a by (simp add: agreed_def)
  then have c': "c < length es'" using take_eq_length [OF es [symmetric]] by simp
  show ?thesis
  proof (cases "c = 0")
    case False
    then obtain t i where 1: "t \<le> T" "committed s h t i" "c \<le> i"
        "take (Suc c) es = take (Suc c) (h_tlog h t)"
      using a unfolding agreed_def by blast
    have "take (Suc c) (h_tlog h' t) = take (Suc c) (h_tlog h t)"
      using committed_bound [OF 1(2)] 1(3) by (intro extends_take [OF progressD(3) [OF P]]) simp
    with 1 committed_progress [OF 1(2) P] c' assms(3) es show ?thesis
      unfolding agreed_def by (metis order_trans)
  qed (use c' in \<open>simp add: agreed_def\<close>)
qed

section \<open>The invariant\<close>

text \<open>
  The last entry the applier has sent to the commit channel is that at \<open>lastApplied\<close>, or the next one, when the applier has sent it and not yet
  set \<open>lastApplied\<close>. The channel holds the latest entries sent: a slice of the log that ends there.
\<close>

definition last_queued :: "applier \<Rightarrow> Node \<Rightarrow> int" where
  "last_queued ap n = (case ap of AtSend i ci ph \<Rightarrow> if ph = Sent then i else lastApplied n | _ \<Rightarrow> lastApplied n)"

definition channel_ok :: "Node \<Rightarrow> int \<Rightarrow> bool" where
  "channel_ok n k \<longleftrightarrow>
     length (commitCh n) \<le> nat k \<and>
     commitCh n = slice (Suc (nat k) - length (commitCh n)) (length (commitCh n)) (entries (nlog n))"

text \<open>Where the applier is: at the entry after \<open>lastApplied\<close>, which is committed, with that entry in hand.\<close>

fun in_hand :: "send_phase \<Rightarrow> LogEntry option" where
  "in_hand (TrySend e) = Some e"
| "in_hand (DropOldest e) = Some e"
| "in_hand (SendNow e) = Some e"
| "in_hand Sent = None"

definition applier_ok :: "applier \<Rightarrow> Node \<Rightarrow> bool" where
  "applier_ok ap n \<longleftrightarrow>
     (case ap of
        AwaitTick \<Rightarrow> True
      | AtLoop i ci \<Rightarrow> i = lastApplied n + 1 \<and> ci \<le> commitIndex n
      | AtSend i ci ph \<Rightarrow>
          i = lastApplied n + 1 \<and> i \<le> ci \<and> ci \<le> commitIndex n \<and> (\<forall>e. in_hand ph = Some e \<longrightarrow> e = entries (nlog n) ! nat i))"

definition node_commit :: "cluster \<Rightarrow> hist \<Rightarrow> applier \<Rightarrow> Node \<Rightarrow> bool" where
  "node_commit s h ap n \<longleftrightarrow>
     0 \<le> lastApplied n \<and> lastApplied n \<le> commitIndex n \<and> channel_ok n (last_queued ap n) \<and>
     agreed s h (currentTerm n) (entries (nlog n)) (nat (commitIndex n)) \<and> applier_ok ap n"

lemma last_queued_same: "lastApplied n = lastApplied m \<Longrightarrow> last_queued ap n = last_queued ap m"
  by (simp add: last_queued_def split: applier.split)

lemma last_queued_bounds:
  assumes "applier_ok ap n" and "lastApplied n \<le> commitIndex n"
  shows "lastApplied n \<le> last_queued ap n" and "last_queued ap n \<le> commitIndex n" and "last_queued ap n \<le> lastApplied n + 1"
  using assms by (auto simp: applier_ok_def last_queued_def split: applier.splits)

definition reqs_commit :: "cluster \<Rightarrow> hist \<Rightarrow> bool" where
  "reqs_commit s h \<longleftrightarrow>
     (\<forall>a v req. (a, v, req) \<in> appendReqs s \<longrightarrow>
        0 \<le> ar_LeaderCommit req \<and>
        ar_LeaderCommit req \<le> ar_PrevLogIndex req + int (length (ar_Entries req)) \<and>
        agreed s h (ar_Term req) (h_tlog h (ar_Term req)) (nat (ar_LeaderCommit req)))"

definition notice_entry :: "CommitNotification \<Rightarrow> LogEntry" where
  "notice_entry cn = \<lparr>le_Index = cn_Index cn, le_Term = cn_Term cn, le_Stroke = cn_Stroke cn\<rparr>"

definition notices_by :: "string \<Rightarrow> (string \<times> CommitNotification) list \<Rightarrow> int list" where
  "notices_by a ns = map (\<lambda>(_, cn). cn_Index cn) (filter (\<lambda>(b, _). b = a) ns)"

definition notices_commit :: "cluster \<Rightarrow> hist \<Rightarrow> bool" where
  "notices_commit s h \<longleftrightarrow>
     (\<forall>a cn. (a, cn) \<in> set (notified s) \<longrightarrow>
        0 < cn_Index cn \<and> ledger s h (nat (cn_Index cn)) (notice_entry cn)) \<and>
     (\<forall>a. sorted_wrt (<) (notices_by a (notified s)) \<and>
        (\<forall>i \<in> set (notices_by a (notified s)).
           i \<le> last_queued (appliers s a) (nodes s a) - int (length (commitCh (nodes s a)))))"

definition cinv :: "cluster \<Rightarrow> hist \<Rightarrow> bool" where
  "cinv s h \<longleftrightarrow> (\<forall>a. node_commit s h (appliers s a) (nodes s a)) \<and> reqs_commit s h \<and> notices_commit s h"

lemma cinvD:
  assumes "cinv s h"
  shows "node_commit s h (appliers s a) (nodes s a)" and "reqs_commit s h" and "notices_commit s h"
  using assms by (simp_all add: cinv_def)

lemma node_commitD:
  assumes "node_commit s h ap n"
  shows "0 \<le> lastApplied n" and "lastApplied n \<le> commitIndex n" and "channel_ok n (last_queued ap n)"
    and "agreed s h (currentTerm n) (entries (nlog n)) (nat (commitIndex n))" and "applier_ok ap n"
    and "0 \<le> last_queued ap n" and "last_queued ap n \<le> commitIndex n"
  using assms last_queued_bounds [of ap n] by (auto simp: node_commit_def)

lemma reqs_commitD:
  assumes "reqs_commit s h" and "(a, v, req) \<in> appendReqs s"
  shows "0 \<le> ar_LeaderCommit req"
    and "ar_LeaderCommit req \<le> ar_PrevLogIndex req + int (length (ar_Entries req))"
    and "agreed s h (ar_Term req) (h_tlog h (ar_Term req)) (nat (ar_LeaderCommit req))"
  using assms unfolding reqs_commit_def by blast+

lemma slice_take: "slice k m xs = drop k (take (k + m) xs)"
  by (simp add: slice_def drop_take)

lemma slice_within: "take c xs = take c ys \<Longrightarrow> k + m \<le> c \<Longrightarrow> slice k m xs = slice k m ys"
  by (metis slice_take take_eq_mono)

lemma channel_ok_drop:
  assumes "channel_ok n k"
  shows "\<exists>j. commitCh n = drop j (take (nat k + 1) (entries (nlog n)))"
proof -
  have l: "length (commitCh n) \<le> nat k"
    and s: "commitCh n = slice (Suc (nat k) - length (commitCh n)) (length (commitCh n)) (entries (nlog n))"
    using assms by (simp_all add: channel_ok_def)
  have "Suc (nat k) - length (commitCh n) + length (commitCh n) = nat k + 1" using l by simp
  then show ?thesis using s unfolding slice_take by metis
qed

lemma channel_ok_log:
  assumes "channel_ok m k" and "commitCh n = commitCh m"
    and "take (Suc c) (entries (nlog n)) = take (Suc c) (entries (nlog m))" and "nat k \<le> c"
  shows "channel_ok n k"
proof -
  let ?k = "Suc (nat k) - length (commitCh m)" and ?l = "length (commitCh m)"
  have "?l \<le> nat k" using assms(1) by (simp add: channel_ok_def)
  then have "slice ?k ?l (entries (nlog n)) = slice ?k ?l (entries (nlog m))"
    using assms(4) by (intro slice_within [OF assms(3)]) simp
  then show ?thesis using assms(1,2) by (simp add: channel_ok_def)
qed

lemma applier_ok_log:
  assumes ok: "applier_ok ap m" and l: "lastApplied n = lastApplied m" "0 \<le> lastApplied m"
    and c: "commitIndex m \<le> commitIndex n" "nat (commitIndex m) < length (entries (nlog m))"
    and es: "take (Suc (nat (commitIndex m))) (entries (nlog n)) = take (Suc (nat (commitIndex m))) (entries (nlog m))"
  shows "applier_ok ap n" and "last_queued ap n = last_queued ap m"
proof -
  have "entries (nlog n) ! nat i = entries (nlog m) ! nat i" if "0 \<le> i" "i \<le> commitIndex m" for i
    using take_eq_nth [OF es, of "nat i"] take_eq_length [OF es [symmetric]] c(2) that by simp
  then show "applier_ok ap n" using ok l c(1) by (auto simp: applier_ok_def split: applier.splits)
  show "last_queued ap n = last_queued ap m" by (rule last_queued_same [OF l(1)])
qed

text \<open>A node that keeps its log up to the commit index, and whose commit index grows to an agreed position.\<close>

lemma node_commit_grow:
  assumes nc: "node_commit s h ap m"
    and f: "commitIndex m \<le> commitIndex n" "lastApplied n = lastApplied m" "commitCh n = commitCh m"
    and es: "take (Suc (nat (commitIndex m))) (entries (nlog n)) =
             take (Suc (nat (commitIndex m))) (entries (nlog m))"
    and ag: "agreed s' h' (currentTerm n) (entries (nlog n)) (nat (commitIndex n))"
  shows "node_commit s' h' ap n"
proof -
  note N = node_commitD [OF nc]
  have "nat (commitIndex m) < length (entries (nlog m))" using N(4) by (simp add: agreed_def)
  note A = applier_ok_log [OF N(5) f(2) N(1) f(1) this es]
  have "channel_ok n (last_queued ap n)"
    unfolding A(2) by (rule channel_ok_log [OF N(3) f(3) es]) (use N(7) in \<open>simp add: nat_mono\<close>)
  then show ?thesis using A(1) N(1,2) f ag by (simp add: node_commit_def)
qed

text \<open>A node that keeps its log up to the commit index, and the commit index itself.\<close>

lemma node_commit_move:
  assumes nc: "node_commit s h ap m" and P: "progress s h s' h'" and t: "currentTerm m \<le> currentTerm n"
    and f: "commitIndex n = commitIndex m" "lastApplied n = lastApplied m" "commitCh n = commitCh m"
    and es: "take (Suc (nat (commitIndex m))) (entries (nlog n)) =
             take (Suc (nat (commitIndex m))) (entries (nlog m))"
  shows "node_commit s' h' ap n"
proof (rule node_commit_grow [OF nc _ f(2,3) es])
  show "agreed s' h' (currentTerm n) (entries (nlog n)) (nat (commitIndex n))"
    using agreed_progress [OF node_commitD(4) [OF nc] P t es] f by simp
qed (use f in simp)

lemma reqs_commit_progress:
  assumes r: "reqs_commit s h" and l: "append_reqs_logs (appendReqs s) h" and P: "progress s h s' h'"
    and "appendReqs s' = appendReqs s"
  shows "reqs_commit s' h'"
  unfolding reqs_commit_def
proof (intro allI impI conjI)
  fix a v req assume "(a, v, req) \<in> appendReqs s'"
  then have q: "(a, v, req) \<in> appendReqs s" using assms(4) by simp
  note R = reqs_commitD [OF r q]
  show "0 \<le> ar_LeaderCommit req"
    "ar_LeaderCommit req \<le> ar_PrevLogIndex req + int (length (ar_Entries req))" by (rule R(1), rule R(2))
  have "Suc (nat (ar_LeaderCommit req)) \<le> length (h_tlog h (ar_Term req))"
    using R(3) by (simp add: agreed_def)
  then show "agreed s' h' (ar_Term req) (h_tlog h' (ar_Term req)) (nat (ar_LeaderCommit req))"
    by (intro agreed_progress [OF R(3) P] extends_take [OF progressD(3) [OF P]]) simp
qed

lemma notices_commit_progress:
  assumes n: "notices_commit s h" and P: "progress s h s' h'" and e: "notified s' = notified s"
    and up: "\<And>a. last_queued (appliers s a) (nodes s a) - int (length (commitCh (nodes s a))) \<le>
               last_queued (appliers s' a) (nodes s' a) - int (length (commitCh (nodes s' a)))"
  shows "notices_commit s' h'"
proof -
  have "i \<le> last_queued (appliers s' a) (nodes s' a) - int (length (commitCh (nodes s' a)))"
    if "i \<in> set (notices_by a (notified s))" for a i
    using n that up [of a] unfolding notices_commit_def by (meson order_trans)
  then show ?thesis using n ledger_progress [OF _ P] unfolding notices_commit_def e by blast
qed

text \<open>Every event except those that change commit indices, channels or messages.\<close>

lemma cinv_move:
  assumes c: "cinv s h" and l: "linv s h" and P: "progress s h s' h'"
    and n: "\<And>a. commitIndex (nodes s' a) = commitIndex (nodes s a)"
      "\<And>a. lastApplied (nodes s' a) = lastApplied (nodes s a)"
      "\<And>a. commitCh (nodes s' a) = commitCh (nodes s a)"
      "\<And>a. \<exists>zs. entries (nlog (nodes s' a)) = entries (nlog (nodes s a)) @ zs"
    and m: "appendReqs s' = appendReqs s" "notified s' = notified s" "appliers s' = appliers s"
  shows "cinv s' h'"
  unfolding cinv_def
proof (intro conjI allI)
  fix a
  note N = cinvD(1) [OF c, of a]
  obtain zs where "entries (nlog (nodes s' a)) = entries (nlog (nodes s a)) @ zs" using n(4) by blast
  moreover have "Suc (nat (commitIndex (nodes s a))) \<le> length (entries (nlog (nodes s a)))"
    using node_commitD(4) [OF N] by (simp add: agreed_def)
  ultimately show "node_commit s' h' (appliers s' a) (nodes s' a)"
    unfolding m(3) by (intro node_commit_move [OF N P progressD(2) [OF P]] n) simp
next
  show "reqs_commit s' h'" by (rule reqs_commit_progress [OF cinvD(2) [OF c] linvD(5) [OF l] P m(1)])
  show "notices_commit s' h'"
    by (rule notices_commit_progress [OF cinvD(3) [OF c] P m(2)]) (simp add: n m(3) last_queued_same [OF n(2)])
qed

section \<open>Replication\<close>

lemma cinv_SendAppend:
  assumes c: "cinv s h" and inv: "invs d k s h" and st: "cluster_step s (SendAppend a p) s'"
    and P: "progress s h s' h"
  shows "cinv s' h"
  using st
proof (cases rule: SendAppendE)
  case (1 req)
  note L = linvD [OF invsD(2) [OF inv]]
  have l: "nstate (nodes s a) = Leader" using 1(4) by (auto simp: appendEntriesRequest_def split: if_splits)
  note N = node_logsD(2,3) [OF L(3) l] and S = storedD(3) [OF node_logsD(1) [OF L(3), of a]]
  note R = appendEntriesRequest_leader [of "nodes s a" p req "h_tlog h", OF 1(4) N(2) 1(3) S N(1)]
  note C = node_commitD [OF cinvD(1) [OF c, of a]]
  have ag: "agreed s h (ar_Term req) (h_tlog h (ar_Term req)) (nat (ar_LeaderCommit req))"
    using C(4) N(1) by (simp add: R(2,3))
  then have "nat (commitIndex (nodes s a)) < length (entries (nlog (nodes s a)))"
    by (simp add: R(2,3) agreed_def N(1))
  then have "ar_LeaderCommit req \<le> ar_PrevLogIndex req + int (length (ar_Entries req))"
    using C(1,2) by (simp add: R(3,4) LastIndex_def nat_less_iff)
  moreover have "agreed s' h t es i = agreed s h t es i" for t es i
    by (simp add: agreed_def committed_def 1(1))
  moreover have "ledger s' h i e = ledger s h i e" for i e by (simp add: ledger_def committed_def 1(1))
  moreover have "0 \<le> ar_LeaderCommit req" using C(1,2) R(3) by simp
  ultimately show ?thesis
    using c ag by (auto simp: cinv_def reqs_commit_def notices_commit_def node_commit_def 1(1))
qed

text \<open>
  A delivered request never makes the follower panic: the slice agrees with the follower's log up to
  the follower's commit index.
\<close>

lemma RecvAppend_committed_prefix:
  assumes c: "cinv s h" and inv: "invs d k s h" and m: "(a, v, req) \<in> appendReqs s"
    and t: "currentTerm (nodes s v) \<le> ar_Term req"
  shows "take (Suc (nat (commitIndex (nodes s v)))) (entries (nlog (nodes s v))) =
         take (Suc (nat (commitIndex (nodes s v)))) (h_tlog h (ar_Term req))"
proof -
  note L = linvD [OF invsD(2) [OF inv]] and V = vinvD [OF invsD(1) [OF inv]]
  obtain Q where "h_lead h (ar_Term req) = Some (a, Q)" using append_msgs_invD(3) [OF V(9) m] by blast
  then show ?thesis
    using agreed_leader(1) [OF inv node_commitD(4) [OF cinvD(1) [OF c, of v]] node_logsD(1) [OF L(3), of v] _ t]
    by blast
qed

lemma RecvAppend_stores:
  assumes c: "cinv s h" and inv: "invs d k s h" and m: "(a, v, req) \<in> appendReqs s"
    and t: "currentTerm (nodes s v) \<le> ar_Term req" and pc: "prevConflict (nlog (nodes s v)) req = None"
  shows "AppendEntries (nlog (nodes s v)) (ar_Entries req) (commitIndex (nodes s v)) =
         ((nlog (nodes s v))\<lparr>entries := merged_with (h_tlog h) (nodes s v) req\<rparr>, None)"
proof -
  note L = linvD [OF invsD(2) [OF inv]] and V = vinvD [OF invsD(1) [OF inv]]
  obtain Q where Q: "h_lead h (ar_Term req) = Some (a, Q)" using append_msgs_invD(3) [OF V(9) m] by blast
  note C = append_reqs_logsD [OF L(5) m] and G = leaders_logsD(4) [OF L(1) Q] and E = node_logsD(1) [OF L(3), of v]
  from AppendEntries_slice_no_panic [OF storedD(3) [OF G] consistent_prefix(1) [OF C E G pc],
      of "commitIndex (nodes s v)" "length (ar_Entries req)"]
    RecvAppend_committed_prefix [OF c inv m t] carriesD(4) [OF C, symmetric]
  show ?thesis by (simp add: merged_with_def)
qed

lemma RecvAppend_no_panic:
  assumes c: "cinv s h" and inv: "invs d k s h" and m: "(a, v, req) \<in> appendReqs s"
  shows "\<exists>resp. snd (HandleAppendEntries (nodes s v) req) = Inr resp"
proof (cases rule: HandleAppendEntries_cases [of req "nodes s v"])
  case (panicked l p)
  with RecvAppend_stores [OF c inv m] show ?thesis by simp
qed (simp_all add: HandleAppendEntries_eqs)

lemma RecvAppend_stored_commit:
  assumes c: "cinv s h" and inv: "invs d k s h" and m: "(a, v, req) \<in> appendReqs s"
    and P: "progress s h s' h'"
    and t: "currentTerm (nodes s v) \<le> ar_Term req" and pc: "prevConflict (nlog (nodes s v)) req = None"
  shows "node_commit s' h' (appliers s v) (fst (HandleAppendEntries (nodes s v) req))"
proof -
  note L = linvD [OF invsD(2) [OF inv]] and V = vinvD [OF invsD(1) [OF inv]]
  obtain Q where Q: "h_lead h (ar_Term req) = Some (a, Q)" using append_msgs_invD(3) [OF V(9) m] by blast
  note C = append_reqs_logsD [OF L(5) m] and G = leaders_logsD(4) [OF L(1) Q] and E = node_logsD(1) [OF L(3), of v]
  note nc = cinvD(1) [OF c, of v] and R = reqs_commitD [OF cinvD(2) [OF c] m]
  let ?n = "nodes s v" and ?n' = "fst (HandleAppendEntries (nodes s v) req)"
  note N = node_commitD [OF nc]
  let ?M = "merged_with (h_tlog h) ?n req" and ?lc = "ar_LeaderCommit req" and ?c = "commitIndex ?n"
  let ?l = "(nlog ?n)\<lparr>entries := ?M\<rparr>"
  have F: "entries (nlog ?n') = ?M" "currentTerm ?n' = ar_Term req" "lastApplied ?n' = lastApplied ?n"
      "commitCh ?n' = commitCh ?n" "commitIndex ?n' = (if ?c < ?lc then min ?lc (LastIndex ?l) else ?c)"
    using t pc RecvAppend_stores [OF c inv m t pc]
    by (simp_all add: HandleAppendEntries_store node_simps followCommit_commitIndex)
  have keep: "take (Suc (nat ?c)) ?M = take (Suc (nat ?c)) (entries (nlog ?n))"
    using N(4) by (intro merged_with_keeps(1) [OF C E G pc RecvAppend_committed_prefix [OF c inv m t]])
      (simp add: agreed_def)
  show ?thesis
  proof (cases "?c < ?lc")
    case False
    with F t keep show ?thesis by (intro node_commit_move [OF nc P]) simp_all
  next
    case True
    let ?b = "Suc (nat (ar_PrevLogIndex req) + length (ar_Entries req))"
    have b: "Suc (nat ?lc) \<le> ?b" using R(1,2) carriesD(1) [OF C] by linarith
    note M = merged_with_take [OF C E G pc b]
    have ci: "commitIndex ?n' = ?lc" using F(5) True M(2) R(1) by (simp add: LastIndex_def)
    have "agreed s' h' (currentTerm ?n') (entries (nlog ?n')) (nat ?lc)"
      by (rule agreed_progress [OF R(3) P]) (simp_all add: F M(1))
    then show ?thesis by (intro node_commit_grow [OF nc]) (use True keep in \<open>simp_all add: F(1,3,4) ci\<close>)
  qed
qed

lemma RecvAppend_node_commit:
  assumes c: "cinv s h" and inv: "invs d k s h" and m: "(a, v, req) \<in> appendReqs s"
    and P: "progress s h s' h'"
  shows "node_commit s' h' (appliers s v) (fst (HandleAppendEntries (nodes s v) req))"
proof -
  note nc = cinvD(1) [OF c, of v]
  let ?n = "nodes s v"
  show ?thesis
  proof (cases rule: HandleAppendEntries_cases [of req ?n])
    case stale
    then show ?thesis by (intro node_commit_move [OF nc P]) (simp_all add: HandleAppendEntries_stale)
  next
    case (conflict ci)
    then show ?thesis
      by (intro node_commit_move [OF nc P]) (simp_all add: HandleAppendEntries_conflict node_simps)
  next
    case (panicked l p)
    with RecvAppend_stores [OF c inv m] show ?thesis by simp
  next
    case (stored l)
    show ?thesis by (rule RecvAppend_stored_commit [OF c inv m P stored(1,2)])
  qed
qed

lemma cinv_RecvAppend:
  assumes c: "cinv s h" and inv: "invs d k s h" and st: "cluster_step s (RecvAppend a v req) s'"
    and P: "progress s h s' h'"
  shows "cinv s' h'"
  using st
proof (cases rule: RecvAppendE)
  case (1 n r)
  let ?n' = "fst (HandleAppendEntries (nodes s v) req)"
  have N: "nodes s' = (nodes s)(v := ?n')" "appendReqs s' = appendReqs s" "notified s' = notified s" "appliers s' = appliers s"
    using 1(3) by (simp_all add: 1(1))
  have other: "node_commit s' h' (appliers s b) (nodes s b)" for b
    by (rule node_commit_move [OF cinvD(1) [OF c] P]) simp_all
  have "node_commit s' h' (appliers s' b) (nodes s' b)" for b
    using other RecvAppend_node_commit [OF c inv 1(2) P] by (simp add: N)
  moreover have "notices_commit s' h'"
    by (rule notices_commit_progress [OF cinvD(3) [OF c] P N(3)]) (simp add: N node_simps last_queued_def split: applier.split)
  ultimately show ?thesis
    using reqs_commit_progress [OF cinvD(2) [OF c] linvD(5) [OF invsD(2) [OF inv]] P N(2)]
    by (simp add: cinv_def)
qed

text \<open>The leader counts itself and the peers whose confirmed index is high enough.\<close>

lemma committable_committed:
  assumes inv: "invs d k s h" and a: "a \<in> set (members s)" and l: "nstate (nodes s a) = Leader"
    and i: "0 < idx" "idx \<le> LastIndex (nlog (nodes s a))" and co: "committable (nodes s a) idx"
  shows "committed s h (currentTerm (nodes s a)) (nat idx)"
proof -
  let ?n = "nodes s a"
  let ?F = "filter (\<lambda>p. map_get (matchIndex ?n) p \<ge> idx) (peers ?n)"
  let ?Q = "insert a (set ?F)"
  note L = linvD [OF invsD(2) [OF inv]] and D = qinvD [OF invsD(3) [OF inv]]
  note I = vinv_ids(3-5) [OF invsD(1) [OF inv] a]
  have va: "valid_entry h (currentTerm ?n) (nat idx)"
    using co i by (auto simp: committable_def valid_entry_def node_logsD(2) [OF L(3) l] Term_def LastIndex_def
        split: if_splits)
  have "a \<notin> set ?F" using I(1) by simp
  moreover have "distinct ?F" using I(3) by simp
  ultimately have "card ?Q = 1 + length ?F" using distinct_card [of ?F] by simp
  then have "majorityOf (int (length (peers ?n)) + 1) \<le> int (card ?Q)"
    using co by (simp add: committable_def replicaCount_def)
  moreover have "?Q \<subseteq> set (members s)" using I(1) a by auto
  ultimately have maj: "is_majority (members s) ?Q" using majorityOf_is_majority I(2) by blast
  have "(q, currentTerm ?n, nat idx) \<in> h_acks h" if "q \<in> ?Q" for q
  proof (cases "q = a")
    case True
    then show ?thesis using leader_acksD(1) [OF D(5) l va] by simp
  next
    case False
    then show ?thesis using that i(1) by (intro leader_acksD(2) [OF D(5) l]) simp_all
  qed
  then show ?thesis using va maj unfolding committed_def by blast
qed

lemma appendEntriesAnswer_commit:
  "commitIndex (appendEntriesAnswer n p req resp) = commitIndex n \<or>
   commitIndex n < commitIndex (appendEntriesAnswer n p req resp) \<and>
   commitIndex (appendEntriesAnswer n p req resp) \<le> LastIndex (nlog n) \<and>
   nstate (appendEntriesAnswer n p req resp) = Leader \<and>
   committable (appendEntriesAnswer n p req resp) (commitIndex (appendEntriesAnswer n p req resp))"
proof -
  have adv: "commitIndex (advanceCommitIndex m) = commitIndex m \<or>
      commitIndex m < commitIndex (advanceCommitIndex m) \<and>
      commitIndex (advanceCommitIndex m) \<le> LastIndex (nlog m) \<and>
      committable (advanceCommitIndex m) (commitIndex (advanceCommitIndex m))" for m
    using advanceCommitIndex_cases [of m] advanceCommitIndex_eq [of m] committable_commitIndex by metis
  show ?thesis
  proof (cases rule: appendEntriesAnswer_cases [of n resp p req])
    case success
    let ?m = "n\<lparr>nextIndex := (nextIndex n)(p \<mapsto> le_Index (last (ar_Entries req)) + 1),
                matchIndex := (matchIndex n)(p \<mapsto> le_Index (last (ar_Entries req)))\<rparr>"
    show ?thesis using adv [of ?m] success(2) unfolding success(6) by (simp add: node_simps)
  next
    case heartbeat
    show ?thesis using adv [of n] heartbeat(2) unfolding heartbeat(6) by (simp add: node_simps)
  qed (simp_all add: node_simps)
qed

lemma AppendAnswer_node_commit:
  assumes c: "cinv s h" and inv': "invs d k' s' h'" and P: "progress s h s' h'" and a: "a \<in> set (members s')"
    and n': "nodes s' a = appendEntriesAnswer (nodes s a) v req resp"
  shows "node_commit s' h' (appliers s a) (appendEntriesAnswer (nodes s a) v req resp)"
proof -
  let ?n = "nodes s a" and ?n' = "appendEntriesAnswer (nodes s a) v req resp"
  note nc = cinvD(1) [OF c, of a] and N = node_commitD [OF cinvD(1) [OF c, of a]]
  show ?thesis
  proof (cases "commitIndex ?n' = commitIndex ?n")
    case True
    then show ?thesis by (intro node_commit_move [OF nc P]) (simp_all add: node_simps)
  next
    case False
    with appendEntriesAnswer_commit [of ?n v req resp]
    have i: "commitIndex ?n < commitIndex ?n'" "commitIndex ?n' \<le> LastIndex (nlog ?n)" "nstate ?n' = Leader"
        "committable ?n' (commitIndex ?n')" by simp_all
    have pos: "0 < commitIndex ?n'" using i(1) N(1,2) by simp
    have co: "committed s' h' (currentTerm ?n') (nat (commitIndex ?n'))"
      using committable_committed [OF inv' a, of "commitIndex ?n'"] i pos by (simp add: n' node_simps)
    have "h_tlog h' (currentTerm ?n') = entries (nlog ?n')"
      using node_logsD(2) [OF linvD(3) [OF invsD(2) [OF inv']], of a] i(3) by (simp add: n')
    moreover have "nat (commitIndex ?n') < length (entries (nlog ?n'))"
      using i(2) pos by (simp add: LastIndex_def node_simps nat_less_iff)
    ultimately have "agreed s' h' (currentTerm ?n') (entries (nlog ?n')) (nat (commitIndex ?n'))"
      using co unfolding agreed_def by (metis order_refl)
    then show ?thesis by (intro node_commit_grow [OF nc]) (use i(1) in \<open>simp_all add: node_simps\<close>)
  qed
qed

lemma cinv_AppendAnswer:
  assumes c: "cinv s h" and inv: "invs d k s h" and inv': "invs d k' s' h'"
    and st: "cluster_step s (AppendAnswer a v req resp) s'" and P: "progress s h s' h'"
  shows "cinv s' h'"
  using st
proof (cases rule: AppendAnswerE)
  case 1
  note V = vinvD [OF invsD(1) [OF inv]]
  let ?n' = "appendEntriesAnswer (nodes s a) v req resp"
  have r: "(a, v, req) \<in> appendReqs s" by (rule append_msgs_invD(4) [OF V(9) 1(2)])
  obtain Q where Q: "h_lead h (ar_Term req) = Some (a, Q)" using append_msgs_invD(3) [OF V(9) r] by blast
  have "a \<in> set (members s)" using votes_invD(4) [OF V(4)] leader_invD(2,3) [OF V(6) Q] by blast
  then have a: "a \<in> set (members s')" by (simp add: 1(1))
  have "node_commit s' h' (appliers s a) ?n'"
    by (rule AppendAnswer_node_commit [OF c inv' P a]) (simp add: 1(1))
  moreover have "node_commit s' h' (appliers s b) (nodes s b)" for b
    by (rule node_commit_move [OF cinvD(1) [OF c] P]) simp_all
  ultimately have "node_commit s' h' (appliers s' b) (nodes s' b)" for b by (simp add: 1(1))
  moreover have "notices_commit s' h'"
    by (rule notices_commit_progress [OF cinvD(3) [OF c] P]) (simp_all add: 1(1) node_simps last_queued_def split: applier.split)
  moreover have "reqs_commit s' h'"
    by (rule reqs_commit_progress [OF cinvD(2) [OF c] linvD(5) [OF invsD(2) [OF inv]] P]) (simp add: 1(1))
  ultimately show ?thesis by (simp add: cinv_def)
qed

section \<open>Applying and notifying\<close>

lemma slice_snoc: "k + m < length xs \<Longrightarrow> slice k (Suc m) xs = slice k m xs @ [xs ! (k + m)]"
  by (simp add: slice_def take_Suc_conv_app_nth)

text \<open>The entry at the head of the commit channel, and what is left.\<close>

lemma channel_head:
  assumes ch: "channel_ok n k" and q: "commitCh n = e # q" and ix: "indexed (entries (nlog n))"
    and k: "0 \<le> k" "nat k < length (entries (nlog n))"
  shows "channel_ok (n\<lparr>commitCh := q\<rparr>) k" and "le_Index e = k - int (length q)"
    and "0 < le_Index e" and "e = entries (nlog n) ! nat (le_Index e)"
proof -
  let ?es = "entries (nlog n)"
  let ?j = "nat k - length q"
  have l: "Suc (length q) \<le> nat k" and s: "e # q = slice ?j (Suc (length q)) ?es"
    using ch q by (simp_all add: channel_ok_def)
  have j: "?j < length ?es" using k by simp
  have e: "e = ?es ! ?j" and r: "q = slice (Suc ?j) (length q) ?es" using s slice_Suc [OF j] by auto
  have i: "le_Index e = int ?j" unfolding e by (rule indexed_nth [OF ix j])
  then show "le_Index e = k - int (length q)" "0 < le_Index e" using l k(1) by linarith+
  show "e = ?es ! nat (le_Index e)" using i e by simp
  have "Suc ?j = Suc (nat k) - length q" using l by simp
  then show "channel_ok (n\<lparr>commitCh := q\<rparr>) k" using l r by (simp add: channel_ok_def)
qed

lemma notices_by_snoc:
  "notices_by b (ns @ [(a, cn)]) = notices_by b ns @ (if b = a then [cn_Index cn] else [])"
  by (simp add: notices_by_def)

lemma notified_head:
  assumes c: "cinv s h" and inv: "invs d k s h" and q: "commitCh (nodes s a) = e # q"
  shows "channel_ok ((nodes s a)\<lparr>commitCh := q\<rparr>) (last_queued (appliers s a) (nodes s a))"
    and "le_Index e = last_queued (appliers s a) (nodes s a) - int (length q)"
    and "0 < le_Index e" and "ledger s h (nat (le_Index e)) e"
proof -
  let ?n = "nodes s a" and ?k = "last_queued (appliers s a) (nodes s a)"
  note N = node_commitD [OF cinvD(1) [OF c, of a]] and L = linvD [OF invsD(2) [OF inv]]
  have "nat (commitIndex ?n) < length (entries (nlog ?n))" using N(4) by (simp add: agreed_def)
  then have la: "nat ?k < length (entries (nlog ?n))" using N(7) by linarith
  note H = channel_head [OF N(3) q storedD(3) [OF node_logsD(1) [OF L(3)]] N(6) la]
  show "channel_ok (?n\<lparr>commitCh := q\<rparr>) ?k" "le_Index e = ?k - int (length q)" "0 < le_Index e" by (rule H)+
  have "nat (le_Index e) \<le> nat (commitIndex ?n)" using H(2) N(7) by linarith
  then have "ledger s h (nat (le_Index e)) (entries (nlog ?n) ! nat (le_Index e))"
    using H(3) by (intro agreed_ledger [OF N(4)]) simp_all
  then show "ledger s h (nat (le_Index e)) e" using H(4) by simp
qed

text \<open>The channel with one entry taken out, by the notifier or by the applier itself.\<close>

lemma node_commit_pop:
  assumes c: "cinv s h" and inv: "invs d k s h" and q: "commitCh (nodes s a) = e # q" and P: "progress s h s' h'"
    and ap: "applier_ok ap' (nodes s a)" "last_queued ap' (nodes s a) = last_queued (appliers s a) (nodes s a)"
  shows "node_commit s' h' ap' ((nodes s a)\<lparr>commitCh := q\<rparr>)"
proof -
  let ?n = "nodes s a"
  note N = node_commitD [OF cinvD(1) [OF c, of a]] and H = notified_head [OF c inv q]
  have "agreed s' h' (currentTerm ?n) (entries (nlog ?n)) (nat (commitIndex ?n))"
    by (rule agreed_progress [OF N(4) P]) simp_all
  moreover have "applier_ok ap' (?n\<lparr>commitCh := q\<rparr>)" "last_queued ap' (?n\<lparr>commitCh := q\<rparr>) = last_queued ap' ?n"
    using ap(1) by (simp_all add: applier_ok_def last_queued_def split: applier.splits)
  ultimately show ?thesis using H(1) N(1,2) ap(2) by (simp add: node_commit_def)
qed

lemma cinv_Notify:
  assumes c: "cinv s h" and inv: "invs d k s h" and st: "cluster_step s (Notify a) s'"
    and P: "progress s h s' h'"
  shows "cinv s' h'"
  using st
proof (cases rule: NotifyE)
  case (1 n post)
  let ?n = "nodes s a"
  note N = node_commitD [OF cinvD(1) [OF c, of a]]
  obtain e q where q: "commitCh ?n = e # q" and n: "n = ?n\<lparr>commitCh := q\<rparr>"
    and post: "post = None \<or> post = Some \<lparr>cn_Stroke = le_Stroke e, cn_Index = le_Index e, cn_Term = le_Term e\<rparr>"
    using 1(3) by (auto simp: runCommitNotifier_tick_def Let_def split: list.splits if_splits)
  note H = notified_head [OF c inv q]
  have "node_commit s' h' (appliers s a) n" unfolding n by (rule node_commit_pop [OF c inv q P N(5) refl])
  moreover have "node_commit s' h' (appliers s b) (nodes s b)" for b
    by (rule node_commit_move [OF cinvD(1) [OF c] P]) simp_all
  ultimately have nodes: "node_commit s' h' (appliers s' b) (nodes s' b)" for b by (simp add: 1(1))
  have lq: "last_queued (appliers s b) (nodes s' b) = last_queued (appliers s b) (nodes s b)" for b
    by (rule last_queued_same) (simp add: 1(1) n)
  have old: "notices_commit (s'\<lparr>notified := notified s\<rparr>) h'"
    by (rule notices_commit_progress [OF cinvD(3) [OF c], of "s'\<lparr>notified := notified s\<rparr>"])
      (use P q lq in \<open>auto simp: progress_def 1(1) n\<close>)
  have same: "ledger (s'\<lparr>notified := x\<rparr>) h' = ledger s' h'" for x
    by (simp add: ledger_def committed_def fun_eq_iff)
  have "notices_commit s' h'"
  proof (cases post)
    case None
    then have "notified s' = notified s" by (simp add: 1(1))
    with old show ?thesis by (simp add: notices_commit_def same)
  next
    case (Some cn)
    then have cn: "cn_Index cn = le_Index e" "notice_entry cn = e" and ns: "notified s' = notified s @ [(a, cn)]"
      using post by (auto simp: notice_entry_def 1(1))
    have led: "ledger s' h' (nat (cn_Index cn)) (notice_entry cn)"
      using ledger_progress [OF H(4) P] cn by simp
    have "cn_Index cn = last_queued (appliers s' a) (nodes s' a) - int (length (commitCh (nodes s' a)))"
      using H(2) cn(1) lq [of a] by (simp add: 1(1) n)
    moreover have "i < cn_Index cn" if "i \<in> set (notices_by a (notified s))" for i
      using cinvD(3) [OF c] that H(2) q cn(1) unfolding notices_commit_def by fastforce
    ultimately show ?thesis
      using old led H(3) cn(1)
      unfolding notices_commit_def ns same by (auto simp: notices_by_snoc sorted_wrt_append same)
  qed
  then show ?thesis
    using nodes reqs_commit_progress [OF cinvD(2) [OF c] linvD(5) [OF invsD(2) [OF inv]] P]
    by (simp add: cinv_def 1(1))
qed

lemma channel_snoc:
  assumes ch: "channel_ok n k" and k: "0 \<le> k" "nat (k + 1) < length (entries (nlog n))"
  shows "channel_ok (n\<lparr>commitCh := commitCh n @ [entries (nlog n) ! nat (k + 1)]\<rparr>) (k + 1)"
proof -
  let ?q = "commitCh n" and ?es = "entries (nlog n)"
  let ?j = "Suc (nat k) - length ?q"
  have a: "nat (k + 1) = Suc (nat k)" using k(1) by simp
  have q: "length ?q \<le> nat k" "?q = slice ?j (length ?q) ?es" using ch by (simp_all add: channel_ok_def)
  then have full: "slice ?j (Suc (length ?q)) ?es = ?q @ [?es ! Suc (nat k)]"
    using slice_snoc [of ?j "length ?q" ?es] k(2) a by simp
  have "Suc (Suc (nat k)) - Suc (length ?q) = ?j" by simp
  then show ?thesis using q(1) full by (simp add: channel_ok_def a)
qed

text \<open>
  The applier's actions. Reading the indices or an entry and setting \<open>lastApplied\<close> leave the channel as it is; a send appends the entry in
  hand; dropping the oldest entry shortens the channel at its head.
\<close>

lemma applier_moves:
  assumes nc: "node_commit s h ap n" and P: "progress s h s' h'" and st: "applyCommitted_step n ap = Some (n', ap')"
  obtains (quiet) "node_commit s' h' ap' n'" and "last_queued ap' n' = last_queued ap n" and "commitCh n' = commitCh n"
  | (sent) "node_commit s' h' ap' n'" and "last_queued ap' n' = last_queued ap n + 1" and "length (commitCh n') = Suc (length (commitCh n))"
  | (dropped) x q where "commitCh n = x # q" and "n' = n\<lparr>commitCh := q\<rparr>" and "applier_ok ap' n" and "last_queued ap' n = last_queued ap n"
proof -
  note N = node_commitD [OF nc]
  have ag: "agreed s' h' (currentTerm n) (entries (nlog n)) (nat (commitIndex n))"
    by (rule agreed_progress [OF N(4) P]) simp_all
  have len: "nat (commitIndex n) < length (entries (nlog n))" using N(4) by (simp add: agreed_def)
  show thesis
  proof (cases ap)
    case AwaitTick
    then show thesis using st by (simp add: applyCommitted_step_def)
  next
    case (AtLoop i ci)
    then have i: "i = lastApplied n + 1" "ci \<le> commitIndex n" using N(5) by (simp_all add: applier_ok_def)
    have "i < int (length (entries (nlog n)))" if "i \<le> ci" using that i(2) len by linarith
    then have "n' = n" "ap' = AwaitTick \<or> i \<le> ci \<and> ap' = AtSend i ci (TrySend (entries (nlog n) ! nat i))"
      using st AtLoop i N(1) by (auto simp: applyCommitted_step_def GetEntry_def split: if_splits)
    then show thesis
      using AtLoop i ag N(1-3) by (intro quiet) (auto simp: node_commit_def applier_ok_def last_queued_def)
  next
    case (AtSend i ci ph)
    then have i: "i = lastApplied n + 1" "i \<le> ci" "ci \<le> commitIndex n" "\<And>e. in_hand ph = Some e \<Longrightarrow> e = entries (nlog n) ! nat i"
      using N(5) by (simp_all add: applier_ok_def)
    show thesis
    proof (cases "ph = Sent")
      case True
      then have "n' = n\<lparr>lastApplied := i\<rparr>" "ap' = AtLoop (i + 1) ci" using st AtSend by (simp_all add: applyCommitted_step_def)
      then show thesis
        using AtSend True i ag N(1-3) by (intro quiet) (auto simp: node_commit_def applier_ok_def last_queued_def channel_ok_def)
    next
      case False
      then obtain q ph' where send: "applier_send (commitCh n, ph) = Some (q, ph')" and n': "n' = n\<lparr>commitCh := q\<rparr>" "ap' = AtSend i ci ph'"
        using st AtSend by (auto simp: applyCommitted_step_def split: option.splits)
      have lq: "last_queued ap n = lastApplied n" using AtSend False by (simp add: last_queued_def)
      from send show thesis
      proof (cases rule: applier_send_cases)
        case (sent e)
        then have e: "e = entries (nlog n) ! nat (lastApplied n + 1)" using i(1,4) by auto
        have "channel_ok n' i"
          using channel_snoc [OF N(3) [unfolded lq] N(1)] len i e sent(3) by (simp add: n')
        then show thesis
          using AtSend sent n' i ag N(1,2) lq by (intro that(2)) (auto simp: node_commit_def applier_ok_def last_queued_def)
      next
        case (full e)
        then show thesis
          using AtSend n' i ag N(1-3) lq by (intro quiet) (auto simp: node_commit_def applier_ok_def last_queued_def)
      next
        case (dropped e x)
        then show thesis
          using AtSend n' i lq by (intro that(3) [of x q]) (auto simp: applier_ok_def last_queued_def)
      qed
    qed
  qed
qed

lemma applier_next:
  assumes c: "cinv s h" and inv: "invs d k s h" and P: "progress s h s' h'"
    and st: "runCommitApplier_step (nodes s a) (appliers s a) = Some (n', ap')"
  shows "node_commit s' h' ap' n'"
    and "last_queued (appliers s a) (nodes s a) - int (length (commitCh (nodes s a))) \<le> last_queued ap' n' - int (length (commitCh n'))"
proof -
  let ?n = "nodes s a" and ?ap = "appliers s a"
  note nc = cinvD(1) [OF c, of a]
  have "node_commit s' h' ap' n' \<and> last_queued ?ap ?n - int (length (commitCh ?n)) \<le> last_queued ap' n' - int (length (commitCh n'))"
  proof (cases "?ap = AwaitTick")
    case True
    then have "n' = ?n" "ap' = AtLoop (lastApplied ?n + 1) (commitIndex ?n)"
      using st by (auto simp: runCommitApplier_step_def applyCommitted_begin_def)
    moreover have "node_commit s' h' ?ap ?n" by (rule node_commit_move [OF nc P]) simp_all
    ultimately show ?thesis using True by (simp add: node_commit_def applier_ok_def last_queued_def)
  next
    case False
    then have "applyCommitted_step ?n ?ap = Some (n', ap')"
      using st by (simp add: runCommitApplier_step_def split: applier.splits)
    with nc P show ?thesis
    proof (cases rule: applier_moves)
      case (dropped x q)
      then have "last_queued ap' n' = last_queued ?ap ?n" using last_queued_same [of n' ?n ap'] by simp
      with node_commit_pop [OF c inv dropped(1) P dropped(3,4)] dropped(1,2) show ?thesis by simp
    qed simp_all
  qed
  then show "node_commit s' h' ap' n'"
    "last_queued ?ap ?n - int (length (commitCh ?n)) \<le> last_queued ap' n' - int (length (commitCh n'))" by simp_all
qed

lemma cinv_Apply:
  assumes c: "cinv s h" and inv: "invs d k s h" and st: "cluster_step s (Apply a) s'"
    and P: "progress s h s' h'"
  shows "cinv s' h'"
  using st
proof (cases rule: ApplyE)
  case (1 n ap)
  note S = applier_next [OF c inv P 1(3)]
  have "node_commit s' h' (appliers s b) (nodes s b)" for b
    by (rule node_commit_move [OF cinvD(1) [OF c] P]) simp_all
  with S(1) have "node_commit s' h' (appliers s' b) (nodes s' b)" for b by (simp add: 1(1))
  moreover have "notices_commit s' h'"
    by (rule notices_commit_progress [OF cinvD(3) [OF c] P]) (use S(2) in \<open>simp_all add: 1(1)\<close>)
  moreover have "reqs_commit s' h'"
    by (rule reqs_commit_progress [OF cinvD(2) [OF c] linvD(5) [OF invsD(2) [OF inv]] P]) (simp add: 1(1))
  ultimately show ?thesis by (simp add: cinv_def)
qed

section \<open>Reachable clusters\<close>

text \<open>The events that change neither a commit index nor a channel extend at most one log.\<close>

definition commit_silent :: "event \<Rightarrow> bool" where
  "commit_silent e \<longleftrightarrow>
     (case e of SendAppend a p \<Rightarrow> False | RecvAppend a v req \<Rightarrow> False | AppendAnswer a v req resp \<Rightarrow> False
      | Apply a \<Rightarrow> False | Notify a \<Rightarrow> False | _ \<Rightarrow> True)"

lemma requestVoteFromPeer_silent:
  assumes "requestVoteFromPeer ans t (n, k) = (n', k')"
  shows "commitIndex n' = commitIndex n" and "lastApplied n' = lastApplied n" and "commitCh n' = commitCh n"
    and "nlog n' = nlog n"
  using assms
  by (cases rule: requestVoteFromPeer_cases [of ans t n k]; auto simp: node_simps)+

lemma HandleStroke_silent:
  "commitIndex (fst (HandleStroke n st)) = commitIndex n" "lastApplied (fst (HandleStroke n st)) = lastApplied n"
  "commitCh (fst (HandleStroke n st)) = commitCh n"
  "\<exists>zs. entries (nlog (fst (HandleStroke n st))) = entries (nlog n) @ zs"
  by (auto simp: HandleStroke_def Let_def node_simps log_simps)

lemma silent_nodes:
  assumes "cluster_step s e s'" and "commit_silent e"
  shows "appendReqs s' = appendReqs s" and "notified s' = notified s" and "appliers s' = appliers s"
    and "commitIndex (nodes s' a) = commitIndex (nodes s a)"
    and "lastApplied (nodes s' a) = lastApplied (nodes s a)"
    and "commitCh (nodes s' a) = commitCh (nodes s a)"
    and "\<exists>zs. entries (nlog (nodes s' a)) = entries (nlog (nodes s a)) @ zs"
proof -
  have "appendReqs s' = appendReqs s \<and> notified s' = notified s \<and> appliers s' = appliers s \<and>
      commitIndex (nodes s' a) = commitIndex (nodes s a) \<and> lastApplied (nodes s' a) = lastApplied (nodes s a) \<and>
      commitCh (nodes s' a) = commitCh (nodes s a) \<and>
      (\<exists>zs. entries (nlog (nodes s' a)) = entries (nlog (nodes s a)) @ zs)"
    using assms
  proof (cases rule: cluster_step.cases)
    case (Timeout b n req)
    then have "n = fst (startElection_begin (nodes s b))"
      by (simp add: electionTimerFired_def split: if_splits)
    then show ?thesis by (simp add: Timeout(2) node_simps)
  next
    case (RecvVote c v req n resp)
    then have "n = fst (HandleVoteRequest (nodes s v) req)" by simp
    then show ?thesis by (simp add: RecvVote(2) node_simps)
  next
    case (VoteAnswer c b v req resp n m)
    from requestVoteFromPeer_silent [OF VoteAnswer(7)] show ?thesis by (simp add: VoteAnswer(2))
  next
    case (VoteLost c b v n m)
    from requestVoteFromPeer_silent [OF VoteLost(5)] show ?thesis by (simp add: VoteLost(2))
  next
    case (ElectionEnd c b n won)
    from startElection_finish_cases [OF ElectionEnd(5)] show ?thesis by (auto simp: ElectionEnd(2) node_simps)
  next
    case (Stroke b st n err)
    then have "n = fst (HandleStroke (nodes s b) st)" by simp
    then show ?thesis using HandleStroke_silent [of "nodes s b" st] by (simp add: Stroke(2))
  qed (simp_all add: commit_silent_def)
  then show "appendReqs s' = appendReqs s" "notified s' = notified s" "appliers s' = appliers s"
    "commitIndex (nodes s' a) = commitIndex (nodes s a)" "lastApplied (nodes s' a) = lastApplied (nodes s a)"
    "commitCh (nodes s' a) = commitCh (nodes s a)"
    "\<exists>zs. entries (nlog (nodes s' a)) = entries (nlog (nodes s a)) @ zs"
    by simp_all
qed

lemma invs_step:
  assumes "invs d k s h" and "int k < max_int" and "cluster_step s e s'"
  shows "invs d (Suc k) s' (hist_upd s e s' h)" and "progress s h s' (hist_upd s e s' h)"
proof -
  note I = invsD [OF assms(1)]
  have "qstep s h s' (hist_upd s e s' h)" by (rule qinv_step [OF I(3,2,1) assms(2,3)])
  then show "invs d (Suc k) s' (hist_upd s e s' h)" and "progress s h s' (hist_upd s e s' h)"
    using vinv_step [OF I(1) assms(2,3)] linv_step [OF I(2,1) assms(2,3)]
    by (simp_all add: invs_def qstep_def)
qed

lemma cinv_step:
  assumes c: "cinv s h" and inv: "invs d k s h" and k: "int k < max_int" and st: "cluster_step s e s'"
  shows "cinv s' (hist_upd s e s' h)"
proof (cases "commit_silent e")
  case True
  from cinv_move [OF c invsD(2) [OF inv] invs_step(2) [OF inv k st]] silent_nodes [OF st True]
  show ?thesis by blast
next
  case False
  note S = invs_step [OF inv k st]
  show ?thesis
  proof (cases e)
    case (SendAppend a p)
    with st S cinv_SendAppend [OF c inv] show ?thesis by simp
  next
    case (RecvAppend a v req)
    with st S cinv_RecvAppend [OF c inv] show ?thesis by blast
  next
    case (AppendAnswer a v req resp)
    with st S cinv_AppendAnswer [OF c inv] show ?thesis by blast
  next
    case (Apply a)
    with st S cinv_Apply [OF c inv] show ?thesis by blast
  next
    case (Notify a)
    with st S cinv_Notify [OF c inv] show ?thesis by blast
  qed (use False in \<open>simp_all add: commit_silent_def\<close>)
qed

lemma cinv_init: "cinv (init_cluster d) init_hist"
  by (simp add: cinv_def node_commit_def channel_ok_def applier_ok_def last_queued_def agreed_def reqs_commit_def notices_commit_def
      notices_by_def init_cluster_def NewNode_def NewLog_def slice_def)

interpretation creach: counted_invariant "hstart d" hstep "nat max_int"
  "\<lambda>k (s, h). invs d k s h \<and> cinv s h" for d
proof
  fix sh assume "hstart d sh"
  then show "case sh of (s, h) \<Rightarrow> invs d 0 s h \<and> cinv s h"
    by (auto simp: hstart_def invs_def vinv_init linv_init qinv_init cinv_init)
next
  fix k sh e sh'
  assume "case sh of (s, h) \<Rightarrow> invs d k s h \<and> cinv s h" and "hstep sh e sh'" and "k < nat max_int"
  then show "case sh' of (s, h) \<Rightarrow> invs d (Suc k) s h \<and> cinv s h"
    by (auto simp: hstep_def split: prod.splits intro!: invs_step(1) cinv_step)
qed

text \<open>What every reachable cluster has: a history for which all the invariants hold.\<close>

lemma reachable_invs:
  assumes "reachable d k s" and "deployment_ok d" and "k \<le> nat max_int"
  shows "\<exists>h. invs d k s h \<and> cinv s h"
proof -
  obtain h where "lts_reach (hstart d) hstep k (s, h)" using reachable_hist [OF assms(1,2)] by blast
  from creach.reach_inv [OF this assms(3)] show ?thesis by auto
qed

section \<open>Runs\<close>

lemma extends_trans: "extends g g' \<Longrightarrow> extends g' g'' \<Longrightarrow> extends g g''"
  unfolding extends_def by (metis append.assoc)

lemma progress_refl: "progress s h s h"
  by (simp add: progress_def)

lemma progress_trans:
  assumes P: "progress s h s' h'" and R: "progress s' h' s'' h''"
  shows "progress s h s'' h''"
proof -
  note P' = progressD [OF P] and R' = progressD [OF R]
  have "currentTerm (nodes s v) \<le> t" if "(v, t, i) \<in> h_acks h''" "(v, t, i) \<notin> h_acks h" for v t i
  proof (cases "(v, t, i) \<in> h_acks h'")
    case True
    then show ?thesis using P'(5) that(2) by (meson not_le)
  next
    case False
    then have "currentTerm (nodes s' v) \<le> t" using R'(5) that(1) by (meson not_le)
    then show ?thesis using P'(2) [of v] by simp
  qed
  then show ?thesis
    unfolding progress_def
    using P'(1,4) R'(1,4) extends_trans [OF P'(3) R'(3)] order_trans [OF P'(2) R'(2)]
    by (intro conjI allI impI) auto
qed

lemma leader_kept:
  assumes "vinv d k s h" and "cluster_step s e s'" and "h_lead h t = Some x"
  shows "h_lead (hist_upd s e s' h) t = Some x"
proof (cases e)
  case (ElectionEnd c)
  have "cluster_step s (ElectionEnd c) s'" using assms(2) ElectionEnd by simp
  then show ?thesis
  proof (cases rule: ElectionEndE)
    case (1 b n won)
    from startElection_finish_cases [OF 1(4)] consider "n = nodes s c"
      | (won) "n = becomeLeader (nodes s c)" "nstate (nodes s c) = Candidate"
          "currentTerm (nodes s c) = el_term b"
          "majorityOf (int (length (peers (nodes s c))) + 1) \<le> el_votes b"
      by blast
    then show ?thesis
    proof cases
      case won
      then have "wins s c b (el_term b) n" using 1(2) by (simp add: wins_def node_simps)
      then have "el_term b \<noteq> t" using wins_leaderless [OF assms(1)] assms(3) by auto
      then show ?thesis using assms(3) won by (simp add: ElectionEnd 1(1) Let_def node_simps)
    qed (use assms(3) in \<open>simp add: ElectionEnd 1(1)\<close>)
  qed
qed (use assms(3) in \<open>simp_all add: Let_def split: sum.split\<close>)

text \<open>A history of a state extends to every state the cluster reaches from there.\<close>

lemma later_invs:
  assumes "later s n s'" and "invs d k s h" and "cinv s h" and "k + n \<le> nat max_int"
  shows "\<exists>h'. invs d (k + n) s' h' \<and> cinv s' h' \<and> progress s h s' h' \<and>
           (\<forall>t x. h_lead h t = Some x \<longrightarrow> h_lead h' t = Some x)"
  using assms(1,4) unfolding later_def
proof (induction rule: lts_reach.induct)
  case (lts_start u)
  then show ?case using assms(2,3) by (auto intro!: exI [of _ h] progress_refl)
next
  case (lts_step n u e u')
  then obtain h' where I: "invs d (k + n) u h'" "cinv u h'" and P: "progress s h u h'"
    and l: "\<forall>t x. h_lead h t = Some x \<longrightarrow> h_lead h' t = Some x" by auto
  have k: "int (k + n) < max_int" using lts_step.prems by (simp add: max_int_def)
  note S = invs_step [OF I(1) k lts_step.hyps(2)] cinv_step [OF I(2,1) k lts_step.hyps(2)]
  let ?h = "hist_upd u e u' h'"
  have "\<forall>t x. h_lead h t = Some x \<longrightarrow> h_lead ?h t = Some x"
    using l leader_kept [OF invsD(1) [OF I(1)] lts_step.hyps(2)] by blast
  then show ?case using S progress_trans [OF P S(2)] by (intro exI [of _ ?h]) simp
qed

lemma run_invs:
  assumes "deployment_ok d" and "reachable d k s" and "later s n s'" and "k + n \<le> nat max_int"
  obtains h h' where "invs d k s h" and "cinv s h" and "invs d (k + n) s' h'" and "cinv s' h'"
    and "progress s h s' h'" and "\<And>t x. h_lead h t = Some x \<Longrightarrow> h_lead h' t = Some x"
proof -
  obtain h where h: "invs d k s h" "cinv s h" using reachable_invs [OF assms(2,1)] assms(4) by auto
  from later_invs [OF assms(3) h assms(4)] h show thesis using that by blast
qed

text \<open>A node's committed prefix, carried over to a later state.\<close>

lemma node_agreed_later:
  assumes "invs d k s h" and "cinv s h" and P: "progress s h s' h'"
  shows "agreed s' h' (currentTerm (nodes s a)) (entries (nlog (nodes s a))) (nat (commitIndex (nodes s a)))"
    and "stored (h_tlog h') (currentTerm (nodes s a)) (entries (nlog (nodes s a)))"
    and "nat (commitIndex (nodes s a)) < length (entries (nlog (nodes s a)))"
    and "0 \<le> commitIndex (nodes s a)"
proof -
  note N = node_commitD [OF cinvD(1) [OF assms(2), of a]]
  show "agreed s' h' (currentTerm (nodes s a)) (entries (nlog (nodes s a))) (nat (commitIndex (nodes s a)))"
    by (rule agreed_progress [OF N(4) P]) simp_all
  show "nat (commitIndex (nodes s a)) < length (entries (nlog (nodes s a)))" using N(4) by (simp add: agreed_def)
  show "0 \<le> commitIndex (nodes s a)" using N(1,2) by simp
  show "stored (h_tlog h') (currentTerm (nodes s a)) (entries (nlog (nodes s a)))"
    by (rule stored_extends [OF node_logsD(1) [OF linvD(3) [OF invsD(2) [OF assms(1)]]] progressD(3) [OF P]])
qed

lemma RecvAppend_commit_mono:
  assumes c: "cinv s h" and inv: "invs d k s h" and m: "(a, v, req) \<in> appendReqs s"
  shows "commitIndex (nodes s v) \<le> commitIndex (fst (HandleAppendEntries (nodes s v) req))"
proof (cases rule: HandleAppendEntries_cases [of req "nodes s v"])
  case (stored l)
  note L = linvD [OF invsD(2) [OF inv]] and V = vinvD [OF invsD(1) [OF inv]]
  obtain Q where Q: "h_lead h (ar_Term req) = Some (a, Q)" using append_msgs_invD(3) [OF V(9) m] by blast
  note C = append_reqs_logsD [OF L(5) m] and G = leaders_logsD(4) [OF L(1) Q] and E = node_logsD(1) [OF L(3), of v]
  note N = node_commitD [OF cinvD(1) [OF c, of v]]
  let ?c = "commitIndex (nodes s v)"
  have "l = (nlog (nodes s v))\<lparr>entries := merged_with (h_tlog h) (nodes s v) req\<rparr>"
    using stored(3) RecvAppend_stores [OF c inv m stored(1,2)] by simp
  moreover have "Suc (nat ?c) \<le> length (merged_with (h_tlog h) (nodes s v) req)"
    using N(4) by (intro merged_with_keeps(2) [OF C E G stored(2) RecvAppend_committed_prefix [OF c inv m stored(1)]])
      (simp add: agreed_def)
  ultimately have "?c \<le> LastIndex l" using N(1,2) by (simp add: LastIndex_def)
  then show ?thesis
    using stored by (simp add: HandleAppendEntries_store node_simps followCommit_commitIndex)
next
  case (panicked l p)
  with RecvAppend_stores [OF c inv m] show ?thesis by simp
qed (simp_all add: HandleAppendEntries_eqs node_simps)

lemma commit_mono_step:
  assumes c: "cinv s h" and inv: "invs d k s h" and st: "cluster_step s e s'"
  shows "commitIndex (nodes s b) \<le> commitIndex (nodes s' b)"
proof (cases "commit_silent e")
  case True
  then show ?thesis using silent_nodes(4) [OF st True] by simp
next
  case False
  from st show ?thesis
  proof (cases rule: cluster_step.cases)
    case (RecvAppend a v req n r)
    then have "n = fst (HandleAppendEntries (nodes s v) req)" by simp
    then show ?thesis using RecvAppend_commit_mono [OF c inv RecvAppend(3)] by (simp add: RecvAppend(2))
  next
    case (AppendAnswer a v req resp)
    then show ?thesis using appendEntriesAnswer_commit [of "nodes s a" v req resp] by auto
  qed (use False in \<open>auto simp: commit_silent_def runCommitNotifier_tick_def Let_def
      split: prod.splits if_splits list.splits elim!: runCommitApplier_step_frame\<close>)
qed

lemma commit_mono_later:
  assumes "later s n s'" and "invs d k s h" and "cinv s h" and "k + n \<le> nat max_int"
  shows "commitIndex (nodes s a) \<le> commitIndex (nodes s' a)"
  using assms(1,4) unfolding later_def
proof (induction rule: lts_reach.induct)
  case (lts_step n u e u')
  then have "later s n u" "k + n \<le> nat max_int" by (simp_all add: later_def)
  from later_invs [OF this(1) assms(2,3) this(2)] obtain h' where "invs d (k + n) u h'" "cinv u h'" by blast
  then have "commitIndex (nodes u a) \<le> commitIndex (nodes u' a)"
    using commit_mono_step lts_step.hyps(2) by blast
  then show ?case using lts_step.IH lts_step.prems by simp
qed simp

text \<open>A posted notification is an applied entry of the poster's log; only members post.\<close>

lemma notice_in_log:
  assumes "invs d k s h" and "cinv s h" and m: "(a, cn) \<in> set (notified s)"
  shows "0 < cn_Index cn" and "cn_Index cn \<le> commitIndex (nodes s a)" and "cn_Index cn \<le> lastApplied (nodes s a) + 1"
    and "nat (cn_Index cn) \<le> nat (commitIndex (nodes s a))"
    and "GetEntry (nlog (nodes s a)) (cn_Index cn) = (notice_entry cn, True)"
proof -
  note C = cinvD(3) [OF assms(2), unfolded notices_commit_def] and N = node_commitD [OF cinvD(1) [OF assms(2), of a]]
  have "cn_Index cn \<in> set (notices_by a (notified s))" using m by (force simp: notices_by_def)
  then have lq: "cn_Index cn \<le> last_queued (appliers s a) (nodes s a)" using C by fastforce
  with N(7) show le: "cn_Index cn \<le> commitIndex (nodes s a)" by simp
  show "cn_Index cn \<le> lastApplied (nodes s a) + 1" using lq last_queued_bounds(3) [OF N(5,2)] by simp
  have l: "ledger s h (nat (cn_Index cn)) (notice_entry cn)" using C m by blast
  show pos: "0 < cn_Index cn" using C m by blast
  show i: "nat (cn_Index cn) \<le> nat (commitIndex (nodes s a))" using le by (simp add: nat_mono)
  have "notice_entry cn = entries (nlog (nodes s a)) ! nat (cn_Index cn)"
    by (rule ledger_unique [OF assms(1) l]) (use agreed_ledger [OF N(4)] pos i in simp)
  moreover have "nat (cn_Index cn) < length (entries (nlog (nodes s a)))" using N(4) i by (simp add: agreed_def)
  ultimately show "GetEntry (nlog (nodes s a)) (cn_Index cn) = (notice_entry cn, True)"
    using pos by (simp add: GetEntry_def)
qed

lemma notified_by_members:
  "reachable d k s \<Longrightarrow> (a, cn) \<in> set (notified s) \<Longrightarrow> a \<in> set (members s)"
  unfolding reachable_def
proof (induction rule: lts_reach.induct)
  case (lts_step n s e s')
  from lts_step.hyps(2) lts_step.IH lts_step.prems show ?case
    by (cases rule: cluster_step.cases) (auto split: option.splits)
qed (simp add: init_cluster_def)

end
