(* ===== verification/Scenarios.thy ===== *)
theory Scenarios
  imports ClusterCommit
begin

text \<open>
  A deployment of three replicas, as in \<open>docker-compose.yml\<close>, and concrete runs of it: an election,
  the commitment of one stroke, and a second candidate in a term that has a leader. They show that what the
  theorems on reachable clusters speak of does occur.
\<close>

definition trio :: deployment where
  "trio =
     [(''r1:9001'', \<lparr>NodeID = ''replica1'', PeerAddrs = [''r2:9001'', ''r3:9001''], GatewayAddr = ''gw:8080''\<rparr>),
      (''r2:9001'', \<lparr>NodeID = ''replica2'', PeerAddrs = [''r1:9001'', ''r3:9001''], GatewayAddr = ''gw:8080''\<rparr>),
      (''r3:9001'', \<lparr>NodeID = ''replica3'', PeerAddrs = [''r1:9001'', ''r2:9001''], GatewayAddr = ''gw:8080''\<rparr>)]"

definition demoStroke :: StrokeEvent where
  "demoStroke = zeroStroke\<lparr>se_ID := ''s1'', se_Type := ''draw'', se_UserID := ''u1''\<rparr>"

definition demoEntry :: LogEntry where
  "demoEntry = \<lparr>le_Index = 1, le_Term = 1, le_Stroke = demoStroke\<rparr>"

definition demoVote :: VoteRequest where
  "demoVote = \<lparr>vr_Term = 1, vr_CandidateID = ''replica1'', vr_LastLogIndex = 0, vr_LastLogTerm = 0\<rparr>"

definition demoGrant :: VoteResponse where
  "demoGrant = \<lparr>vp_Term = 1, vp_VoteGranted = True\<rparr>"

definition demoAppend :: "int \<Rightarrow> int \<Rightarrow> LogEntry list \<Rightarrow> int \<Rightarrow> AppendEntriesRequest" where
  "demoAppend prev prevTerm es commit =
     \<lparr>ar_Term = 1, ar_LeaderID = ''replica1'', ar_PrevLogIndex = prev, ar_PrevLogTerm = prevTerm,
      ar_Entries = es, ar_LeaderCommit = commit\<rparr>"

definition demoOk :: AppendEntriesResponse where
  "demoOk = \<lparr>ap_Term = 1, ap_Success = True, ap_ConflictIndex = 0\<rparr>"

definition electionRun :: "event list" where
  "electionRun =
     [Timeout ''r1:9001'', RecvVote ''r1:9001'' ''r2:9001'' demoVote,
      VoteAnswer ''r1:9001'' ''r2:9001'' demoVote demoGrant, VoteLost ''r1:9001'' ''r3:9001'',
      ElectionEnd ''r1:9001'']"

definition commitSteps :: "event list" where
  "commitSteps =
     [Stroke ''r1:9001'' demoStroke, SendAppend ''r1:9001'' ''r2:9001'',
      RecvAppend ''r1:9001'' ''r2:9001'' (demoAppend 0 0 [demoEntry] 0),
      AppendAnswer ''r1:9001'' ''r2:9001'' (demoAppend 0 0 [demoEntry] 0) demoOk,
      SendAppend ''r1:9001'' ''r2:9001'',
      RecvAppend ''r1:9001'' ''r2:9001'' (demoAppend 1 1 [] 1),
      Apply ''r1:9001'', Apply ''r1:9001'', Apply ''r1:9001'', Notify ''r1:9001'', Apply ''r1:9001'']"

definition commitRun :: "event list" where
  "commitRun = electionRun @ commitSteps"

text \<open>A second candidate of the term, to which a heartbeat of the elected leader and the leader's vote request are on their way.\<close>

definition rivalRun :: "event list" where
  "rivalRun = [Timeout ''r3:9001''] @ electionRun @ [SendAppend ''r1:9001'' ''r3:9001'']"

text \<open>The state a run ends in; the runs below are all enabled.\<close>

definition after :: "event list \<Rightarrow> cluster" where
  "after es = (case run es (init_cluster trio) of Some s \<Rightarrow> s | None \<Rightarrow> init_cluster trio)"

lemma after_reachable: "run es (init_cluster trio) \<noteq> None \<Longrightarrow> reachable trio (length es) (after es)"
  by (auto simp: after_def intro: run_reachable)

lemma trio_ok: "deployment_ok trio"
  by code_simp

lemma electionRun_enabled: "run electionRun (init_cluster trio) \<noteq> None"
  by code_simp

lemma commitRun_enabled: "run commitRun (init_cluster trio) \<noteq> None"
  by code_simp

lemma rivalRun_enabled: "run rivalRun (init_cluster trio) \<noteq> None"
  by code_simp

lemmas electionRun_reachable = after_reachable [OF electionRun_enabled]
lemmas commitRun_reachable = after_reachable [OF commitRun_enabled]
lemmas rivalRun_reachable = after_reachable [OF rivalRun_enabled]

lemma runs_short: "length electionRun \<le> nat max_int" "length commitRun \<le> nat max_int"
  "length rivalRun \<le> nat max_int"
  by (simp_all add: electionRun_def commitRun_def commitSteps_def rivalRun_def max_int_def)

lemma run_continues:
  assumes "run (es @ fs) (init_cluster trio) \<noteq> None"
  shows "later (after es) (length fs) (after (es @ fs))"
proof -
  obtain s where s: "run es (init_cluster trio) = Some s" using assms by (auto simp: run_events_append split: option.splits)
  with assms obtain s' where "run fs s = Some s'" by (auto simp: run_events_append)
  with s show ?thesis by (simp add: after_def run_events_append run_later)
qed

lemmas commitRun_after_election =
  run_continues [OF commitRun_enabled [unfolded commitRun_def], folded commitRun_def]

lemma commitRun_state:
  "nstate (nodes (after commitRun) ''r1:9001'') = Leader"
  "currentTerm (nodes (after commitRun) ''r1:9001'') = 1"
  "commitIndex (nodes (after commitRun) ''r1:9001'') = 1"
  "commitIndex (nodes (after commitRun) ''r2:9001'') = 1"
  "currentTerm (nodes (after commitRun) ''r2:9001'') = 1"
  "entries (nlog (nodes (after commitRun) ''r1:9001'')) = [sentinel, demoEntry]"
  "entries (nlog (nodes (after commitRun) ''r2:9001'')) = [sentinel, demoEntry]"
  "notified (after commitRun) = [(''r1:9001'', \<lparr>cn_Stroke = demoStroke, cn_Index = 1, cn_Term = 1\<rparr>)]"
  by code_simp+

end
