(* ===== verification/SharedLog.thy ===== *)
theory SharedLog
  imports Scenarios "HOL-Library.Sublist"
begin

text \<open>
  What the cluster promises to those who read committed entries, as an abstract specification: one shared log that is only ever
  appended to, of which each replica knows a growing prefix. The cluster of replicas refines it: every event is some appending
  and learning. The interface between the two is a forward simulation.
\<close>

section \<open>The specification\<close>

record shared_log =
  sl_log :: "LogEntry list"
  sl_seen :: "string \<Rightarrow> nat"

inductive shared_step :: "shared_log \<Rightarrow> shared_log \<Rightarrow> bool" where
  Extend: "shared_step L (L\<lparr>sl_log := sl_log L @ xs\<rparr>)"
| Learn: "sl_seen L a \<le> k \<Longrightarrow> k \<le> length (sl_log L) \<Longrightarrow> shared_step L (L\<lparr>sl_seen := (sl_seen L)(a := k)\<rparr>)"

text \<open>What the specification gives by itself: nothing is ever taken back.\<close>

lemma shared_steps_mono:
  "shared_step\<^sup>*\<^sup>* L L' \<Longrightarrow> prefix (sl_log L) (sl_log L') \<and> (\<forall>a. sl_seen L a \<le> sl_seen L' a)"
proof (induction rule: rtranclp_induct)
  case (step M M')
  from step.hyps(2) have "prefix (sl_log M) (sl_log M') \<and> (\<forall>a. sl_seen M a \<le> sl_seen M' a)"
    by cases auto
  with step.IH show ?case by (meson order_trans prefix_order.trans)
qed simp

lemma shared_steps_learn:
  assumes "prefix (sl_log L) es" and "sl_seen L a \<le> k" and "k \<le> length es"
  shows "shared_step\<^sup>*\<^sup>* L (L\<lparr>sl_log := es, sl_seen := (sl_seen L)(a := k)\<rparr>)"
proof -
  from assms(1) obtain xs where xs: "es = sl_log L @ xs" by (auto simp: prefix_def)
  let ?M = "L\<lparr>sl_log := es\<rparr>"
  have "shared_step L ?M" unfolding xs by (rule shared_step.Extend)
  moreover have "shared_step ?M (?M\<lparr>sl_seen := (sl_seen ?M)(a := k)\<rparr>)"
    using assms(2,3) by (intro shared_step.Learn) simp_all
  ultimately show ?thesis by simp
qed

section \<open>Simulations\<close>

locale simulation =
  fixes cstart :: "'s \<Rightarrow> bool" and cstep :: "'s \<Rightarrow> 'e \<Rightarrow> 's \<Rightarrow> bool" and bound :: nat
    and astep :: "'a \<Rightarrow> 'a \<Rightarrow> bool" and abs :: "'s \<Rightarrow> 'a"
  assumes simulated: "lts_reach cstart cstep n s \<Longrightarrow> n < bound \<Longrightarrow> cstep s e s' \<Longrightarrow> astep\<^sup>*\<^sup>* (abs s) (abs s')"
begin

lemma later_simulated:
  assumes "lts_reach (\<lambda>u. u = s) cstep m s'" and "lts_reach cstart cstep n s" and "n + m \<le> bound"
  shows "lts_reach cstart cstep (n + m) s' \<and> astep\<^sup>*\<^sup>* (abs s) (abs s')"
  using assms(1,3)
proof (induction rule: lts_reach.induct)
  case (lts_start u)
  then show ?case using assms(2) by simp
next
  case (lts_step m u e u')
  then have "lts_reach cstart cstep (n + m) u" and IH: "astep\<^sup>*\<^sup>* (abs s) (abs u)" and "n + m < bound" by simp_all
  with lts_step.hyps(2) show ?case
    using simulated [of "n + m" u e u'] lts_reach.lts_step [of cstart cstep "n + m" u e u'] by auto
qed

end

section \<open>The cluster's shared log\<close>

definition known_log :: "Node \<Rightarrow> LogEntry list" where
  "known_log n = take (Suc (nat (commitIndex n))) (entries (nlog n))"

fun longest :: "'a list list \<Rightarrow> 'a list" where
  "longest [] = []"
| "longest (xs # xss) = (if length (longest xss) \<le> length xs then xs else longest xss)"

definition shared_of :: "cluster \<Rightarrow> shared_log" where
  "shared_of s =
     \<lparr>sl_log = longest (map (\<lambda>a. known_log (nodes s a)) (members s)),
      sl_seen = (\<lambda>a. if a \<in> set (members s) then length (known_log (nodes s a)) else 0)\<rparr>"

lemma longest_in: "xss \<noteq> [] \<Longrightarrow> longest xss \<in> set xss"
proof (induction xss)
  case (Cons xs xss)
  then show ?case by (cases "xss = []") auto
qed simp

lemma longest_length: "xs \<in> set xss \<Longrightarrow> length xs \<le> length (longest xss)"
  by (induction xss) auto

lemma longest_prefix:
  assumes "\<And>xs ys. xs \<in> set xss \<Longrightarrow> ys \<in> set xss \<Longrightarrow> prefix xs ys \<or> prefix ys xs" and "xs \<in> set xss"
  shows "prefix xs (longest xss)"
proof -
  have "longest xss \<in> set xss" using assms(2) by (intro longest_in) auto
  from assms(1) [OF assms(2) this] show ?thesis
  proof
    assume "prefix (longest xss) xs"
    then obtain zs where zs: "xs = longest xss @ zs" by (auto simp: prefix_def)
    have "length xs = length (longest xss) + length zs" by (subst zs) simp
    then have "zs = []" using longest_length [OF assms(2)] by simp
    then show ?thesis by (subst zs) simp
  qed
qed

text \<open>Two replicas' committed prefixes, at the same or at different times, are prefixes of one another.\<close>

lemma known_logs_comparable:
  assumes "invs d k s h" and "cinv s h" and "invs d k' s' h'" and "cinv s' h'" and "progress s h s' h'"
    and "commitIndex (nodes s a) \<le> commitIndex (nodes s' b)"
  shows "prefix (known_log (nodes s a)) (known_log (nodes s' b))"
proof -
  note A = node_agreed_later [OF assms(1,2,5), of a] and B = node_agreed_later [OF assms(3,4) progress_refl, of b]
  let ?c = "nat (commitIndex (nodes s a))"
  have le: "?c \<le> nat (commitIndex (nodes s' b))" using assms(6) by (rule nat_mono)
  have "known_log (nodes s a) = take (Suc ?c) (entries (nlog (nodes s' b)))"
    unfolding known_log_def by (rule agreed_agree [OF assms(3) A(1) B(1) A(2) B(2) order_refl le])
  also have "\<dots> = take (Suc ?c) (known_log (nodes s' b))" using le by (simp add: known_log_def)
  finally show ?thesis by (metis take_is_prefix)
qed

lemma known_log_prefix_shared:
  assumes "invs d k s h" and "cinv s h" and "a \<in> set (members s)"
  shows "prefix (known_log (nodes s a)) (sl_log (shared_of s))"
proof -
  let ?ks = "map (\<lambda>a. known_log (nodes s a)) (members s)"
  have cmp: "prefix (known_log (nodes s b)) (known_log (nodes s c)) \<or> prefix (known_log (nodes s c)) (known_log (nodes s b))"
    for b c
    using known_logs_comparable [OF assms(1,2,1,2) progress_refl, of b c]
      known_logs_comparable [OF assms(1,2,1,2) progress_refl, of c b] linear [of "commitIndex (nodes s b)"]
    by metis
  have "prefix xs ys \<or> prefix ys xs" if xs: "xs \<in> set ?ks" and ys: "ys \<in> set ?ks" for xs ys
  proof -
    from xs obtain b where b: "xs = known_log (nodes s b)" by auto
    from ys obtain c where c: "ys = known_log (nodes s c)" by auto
    show ?thesis unfolding b c by (rule cmp)
  qed
  moreover have "known_log (nodes s a) \<in> set ?ks" using assms(3) by simp
  ultimately have "prefix (known_log (nodes s a)) (longest ?ks)" by (rule longest_prefix)
  then show ?thesis by (simp add: shared_of_def)
qed

lemma step_moves_one:
  assumes "cluster_step s e s'"
  obtains a n where "nodes s' = (nodes s)(a := n)" and "members s' = members s"
  using assms
proof (cases rule: cluster_step.cases)
  case (SendAppend a p req)
  then show ?thesis using that [of a "nodes s a"] by simp
qed (use that in auto)

lemma shared_of_step:
  assumes "invs d k s h" and "cinv s h" and "int k < max_int" and st: "cluster_step s e s'"
  shows "shared_step\<^sup>*\<^sup>* (shared_of s) (shared_of s')"
proof -
  let ?h = "hist_upd s e s' h"
  note I' = invs_step [OF assms(1,3) st] and C' = cinv_step [OF assms(2,1,3) st]
  have mono: "commitIndex (nodes s b) \<le> commitIndex (nodes s' b)" for b by (rule commit_mono_step [OF assms(2,1) st])
  have grow: "prefix (known_log (nodes s b)) (known_log (nodes s' b))" for b
    using known_logs_comparable [OF assms(1,2) I'(1) C' I'(2) mono] .
  obtain a n where n: "nodes s' = (nodes s)(a := n)" and ms: "members s' = members s" by (rule step_moves_one [OF st])
  have le: "sl_seen (shared_of s) a \<le> sl_seen (shared_of s') a"
    using grow [of a] ms by (simp add: shared_of_def prefix_length_le)
  have seen: "sl_seen (shared_of s') = (sl_seen (shared_of s))(a := sl_seen (shared_of s') a)"
    using n ms by (auto simp: shared_of_def)
  have "sl_seen (shared_of s') a \<le> length (sl_log (shared_of s'))"
    using longest_length [of "known_log (nodes s' a)"] by (simp add: shared_of_def)
  moreover have "prefix (sl_log (shared_of s)) (sl_log (shared_of s'))"
  proof (cases "members s = []")
    case True
    then show ?thesis using ms by (simp add: shared_of_def)
  next
    case False
    then obtain b where "b \<in> set (members s)" "sl_log (shared_of s) = known_log (nodes s b)"
      using longest_in [of "map (\<lambda>a. known_log (nodes s a)) (members s)"] by (auto simp: shared_of_def)
    then show ?thesis
      using grow [of b] known_log_prefix_shared [OF I'(1) C', of b] ms by (metis prefix_order.trans)
  qed
  ultimately have "shared_step\<^sup>*\<^sup>* (shared_of s)
      ((shared_of s)\<lparr>sl_log := sl_log (shared_of s'), sl_seen := (sl_seen (shared_of s))(a := sl_seen (shared_of s') a)\<rparr>)"
    using le by (intro shared_steps_learn)
  moreover have "(shared_of s)\<lparr>sl_log := sl_log (shared_of s'), sl_seen := sl_seen (shared_of s')\<rparr> = shared_of s'"
    by (simp add: shared_of_def)
  ultimately show ?thesis using seen by simp
qed

interpretation cluster_sim: simulation "\<lambda>s. deployment_ok d \<and> s = init_cluster d" cluster_step "nat max_int" shared_step shared_of
  for d
proof
  fix n s e s'
  assume r: "lts_reach (\<lambda>s. deployment_ok d \<and> s = init_cluster d) cluster_step n s" and n: "n < nat max_int"
    and st: "cluster_step s e s'"
  from r have "deployment_ok d" and "reachable d n s"
    unfolding reachable_def by (induction rule: lts_reach.induct) (auto intro: lts_reach.intros)
  then obtain h where "invs d n s h" "cinv s h" using reachable_invs n by fastforce
  then show "shared_step\<^sup>*\<^sup>* (shared_of s) (shared_of s')" using n st by (intro shared_of_step) (simp_all add: zless_nat_eq_int_zless)
qed

section \<open>Refinement\<close>

text \<open>
  C4. The cluster is a shared append-only log. From any reachable state of a correctly configured cluster to any later one, the
  committed entries change as the specification allows: the shared log is extended, replicas learn more of it, and nothing else
  happens; and at every time each replica's committed entries are those of the shared log.
\<close>

theorem cluster_refines_shared_log:
  assumes "deployment_ok d" and "reachable d k s" and "later s n s'" and "k + n \<le> nat max_int"
  shows "shared_step\<^sup>*\<^sup>* (shared_of s) (shared_of s') \<and>
    (\<forall>a \<in> set (members s'). \<forall>i. 0 \<le> i \<longrightarrow> i \<le> commitIndex (nodes s' a) \<longrightarrow>
       GetEntry (nlog (nodes s' a)) i = (sl_log (shared_of s') ! nat i, True))"
proof -
  have start: "(\<lambda>s. s = init_cluster d) = (\<lambda>s. deployment_ok d \<and> s = init_cluster d)" using assms(1) by auto
  have "shared_step\<^sup>*\<^sup>* (shared_of s) (shared_of s')"
    using cluster_sim.later_simulated [of s n s' d k] assms(2-4) start by (simp add: reachable_def later_def)
  moreover obtain h h' where I: "invs d (k + n) s' h'" "cinv s' h'" by (rule run_invs [OF assms]) blast
  have "GetEntry (nlog (nodes s' a)) i = (sl_log (shared_of s') ! nat i, True)"
    if "a \<in> set (members s')" "0 \<le> i" "i \<le> commitIndex (nodes s' a)" for a i
  proof -
    have "nat i < length (entries (nlog (nodes s' a)))"
      using node_agreed_later(3) [OF I progress_refl, of a] that(2,3) by simp
    then have "nat i < length (known_log (nodes s' a))" "known_log (nodes s' a) ! nat i = entries (nlog (nodes s' a)) ! nat i"
      using that(2,3) by (simp_all add: known_log_def)
    moreover have "prefix (known_log (nodes s' a)) (sl_log (shared_of s'))" by (rule known_log_prefix_shared [OF I that(1)])
    ultimately have "sl_log (shared_of s') ! nat i = entries (nlog (nodes s' a)) ! nat i"
      by (auto simp: prefix_def nth_append)
    then show ?thesis
      using that(2) \<open>nat i < length (entries (nlog (nodes s' a)))\<close> by (simp add: GetEntry_def)
  qed
  ultimately show ?thesis by blast
qed

theorem cluster_refines_shared_log_witness:
  "shared_step\<^sup>*\<^sup>* (shared_of (init_cluster trio)) (shared_of (after commitRun)) \<and>
   sl_log (shared_of (after commitRun)) = [sentinel, demoEntry]"
proof -
  have "later (init_cluster trio) (length commitRun) (after commitRun)"
    using commitRun_enabled by (auto simp: after_def intro: run_later)
  moreover have "sl_log (shared_of (after commitRun)) = [sentinel, demoEntry]" by code_simp
  ultimately show ?thesis
    using cluster_refines_shared_log [OF trio_ok init_reachable] runs_short(2) by simp
qed

end
