(* ===== verification/Json.thy ===== *)
theory Json
  imports Types
begin

text \<open>
  The wire format: how \<open>encoding/json\<close> writes and reads the types of \<open>types/types.go\<close>, following their
  struct tags. A body is the tree of its first JSON value; the text itself (white space,
  escapes, UTF-8) is not modelled. A number is an integer literal or a literal written for a
  \<open>float64\<close>, given by the double it denotes.

  Decoding works as in Go: keys match a field's tag without regard to (ASCII) case, unknown keys are
  skipped, missing fields keep the value they had, \<open>null\<close> leaves a field alone (and empties a slice),
  a later key overwrites an earlier one, and a value of the wrong type or an integer outside 64 bits
  fails the whole decoding. An empty list is written as \<open>[]\<close>; Go writes \<open>null\<close> for a nil slice, and
  both read back as empty.
\<close>

section \<open>Values\<close>

datatype number = IntLit int | FloatLit float64

datatype json =
    JNull
  | JBool bool
  | JNum number
  | JStr string
  | JArr "json list"
  | JObj "(string \<times> json) list"

text \<open>The double nearest to an integer, ties to even; \<open>None\<close> when it is out of range.\<close>

fun bitlen :: "nat \<Rightarrow> nat" where
  "bitlen n = (if n = 0 then 0 else Suc (bitlen (n div 2)))"

declare bitlen.simps [simp del]

definition float_of_int :: "int \<Rightarrow> float64 option" where
  "float_of_int i =
     (if i = 0 then Some 0
      else
        let a = nat \<bar>i\<bar>; e = bitlen a - 1;
            m = (if e \<le> 52 then a * 2 ^ (52 - e)
                 else let s = 2 ^ (e - 52); q = a div s; r = a mod s
                      in if s < 2 * r \<or> s = 2 * r \<and> odd q then q + 1 else q);
            bits = (e + 1022) * 2 ^ 52 + m
        in if bits < 2047 * 2 ^ 52 then Some (word_of_nat (bits + (if i < 0 then 2 ^ 63 else 0))) else None)"

text \<open>A double that is a number: not infinite and not NaN, which JSON cannot express.\<close>

definition finite_float :: "float64 \<Rightarrow> bool" where
  "finite_float f \<longleftrightarrow> drop_bit 52 (take_bit 63 f) \<noteq> 2047"

definition int64_ok :: "int \<Rightarrow> bool" where
  "int64_ok i \<longleftrightarrow> - (2 ^ 63) \<le> i \<and> i \<le> max_int"

section \<open>Decoding\<close>

text \<open>Every decoder takes the value that is there already.\<close>

type_synonym 'a decoder = "json \<Rightarrow> 'a \<Rightarrow> 'a option"

fun dec_int :: "int decoder" where
  "dec_int JNull cur = Some cur"
| "dec_int (JNum (IntLit i)) cur = (if int64_ok i then Some i else None)"
| "dec_int _ cur = None"

fun dec_float :: "float64 decoder" where
  "dec_float JNull cur = Some cur"
| "dec_float (JNum (IntLit i)) cur = float_of_int i"
| "dec_float (JNum (FloatLit f)) cur = Some f"
| "dec_float _ cur = None"

fun dec_bool :: "bool decoder" where
  "dec_bool JNull cur = Some cur"
| "dec_bool (JBool b) cur = Some b"
| "dec_bool _ cur = None"

fun dec_string :: "string decoder" where
  "dec_string JNull cur = Some cur"
| "dec_string (JStr s) cur = Some s"
| "dec_string _ cur = None"

fun dec_all :: "'a decoder \<Rightarrow> 'a \<Rightarrow> json list \<Rightarrow> 'a list option" where
  "dec_all d z [] = Some []"
| "dec_all d z (j # js) =
     (case d j z of
        None \<Rightarrow> None
      | Some x \<Rightarrow> (case dec_all d z js of None \<Rightarrow> None | Some xs \<Rightarrow> Some (x # xs)))"

fun dec_list :: "'a decoder \<Rightarrow> 'a \<Rightarrow> 'a list decoder" where
  "dec_list d z JNull cur = Some []"
| "dec_list d z (JArr js) cur = dec_all d z js"
| "dec_list d z _ cur = None"

definition lower :: "char \<Rightarrow> char" where
  "lower c = (let k = (of_char c :: nat) in if 65 \<le> k \<and> k \<le> 90 then char_of (k + 32) else c)"

definition fold_key :: "string \<Rightarrow> string" where
  "fold_key k = map lower k"

text \<open>A struct is described by its tags, each with the decoder of its field in place.\<close>

definition in_field :: "('r \<Rightarrow> 'a) \<Rightarrow> (('a \<Rightarrow> 'a) \<Rightarrow> 'r \<Rightarrow> 'r) \<Rightarrow> 'a decoder \<Rightarrow> 'r decoder" where
  "in_field get upd d j r = map_option (\<lambda>x. upd (\<lambda>_. x) r) (d j (get r))"

fun dec_key :: "(string \<times> 'r decoder) list \<Rightarrow> string \<Rightarrow> 'r decoder" where
  "dec_key [] k j r = Some r"
| "dec_key ((tag, d) # fs) k j r = (if fold_key k = fold_key tag then d j r else dec_key fs k j r)"

fun dec_pairs :: "(string \<times> 'r decoder) list \<Rightarrow> (string \<times> json) list \<Rightarrow> 'r \<Rightarrow> 'r option" where
  "dec_pairs fs [] r = Some r"
| "dec_pairs fs ((k, j) # kvs) r =
     (case dec_key fs k j r of None \<Rightarrow> None | Some r' \<Rightarrow> dec_pairs fs kvs r')"

fun dec_struct :: "(string \<times> 'r decoder) list \<Rightarrow> 'r decoder" where
  "dec_struct fs JNull r = Some r"
| "dec_struct fs (JObj kvs) r = dec_pairs fs kvs r"
| "dec_struct fs _ r = None"

definition zeroPoint :: Point where
  "zeroPoint = \<lparr>pt_X = 0, pt_Y = 0\<rparr>"

definition dec_Point :: "Point decoder" where
  "dec_Point = dec_struct
     [(''x'', in_field pt_X pt_X_update dec_float), (''y'', in_field pt_Y pt_Y_update dec_float)]"

definition dec_StrokeEvent :: "StrokeEvent decoder" where
  "dec_StrokeEvent = dec_struct
     [(''id'', in_field se_ID se_ID_update dec_string),
      (''type'', in_field se_Type se_Type_update dec_string),
      (''targetId'', in_field se_TargetID se_TargetID_update dec_string),
      (''points'', in_field se_Points se_Points_update (dec_list dec_Point zeroPoint)),
      (''color'', in_field se_Color se_Color_update dec_string),
      (''width'', in_field se_Width se_Width_update dec_float),
      (''userId'', in_field se_UserID se_UserID_update dec_string)]"

definition dec_LogEntry :: "LogEntry decoder" where
  "dec_LogEntry = dec_struct
     [(''index'', in_field le_Index le_Index_update dec_int),
      (''term'', in_field le_Term le_Term_update dec_int),
      (''stroke'', in_field le_Stroke le_Stroke_update dec_StrokeEvent)]"

definition dec_VoteRequest :: "VoteRequest decoder" where
  "dec_VoteRequest = dec_struct
     [(''term'', in_field vr_Term vr_Term_update dec_int),
      (''candidateId'', in_field vr_CandidateID vr_CandidateID_update dec_string),
      (''lastLogIndex'', in_field vr_LastLogIndex vr_LastLogIndex_update dec_int),
      (''lastLogTerm'', in_field vr_LastLogTerm vr_LastLogTerm_update dec_int)]"

definition dec_VoteResponse :: "VoteResponse decoder" where
  "dec_VoteResponse = dec_struct
     [(''term'', in_field vp_Term vp_Term_update dec_int),
      (''voteGranted'', in_field vp_VoteGranted vp_VoteGranted_update dec_bool)]"

definition dec_AppendEntriesRequest :: "AppendEntriesRequest decoder" where
  "dec_AppendEntriesRequest = dec_struct
     [(''term'', in_field ar_Term ar_Term_update dec_int),
      (''leaderId'', in_field ar_LeaderID ar_LeaderID_update dec_string),
      (''prevLogIndex'', in_field ar_PrevLogIndex ar_PrevLogIndex_update dec_int),
      (''prevLogTerm'', in_field ar_PrevLogTerm ar_PrevLogTerm_update dec_int),
      (''entries'', in_field ar_Entries ar_Entries_update (dec_list dec_LogEntry zeroEntry)),
      (''leaderCommit'', in_field ar_LeaderCommit ar_LeaderCommit_update dec_int)]"

definition dec_AppendEntriesResponse :: "AppendEntriesResponse decoder" where
  "dec_AppendEntriesResponse = dec_struct
     [(''term'', in_field ap_Term ap_Term_update dec_int),
      (''success'', in_field ap_Success ap_Success_update dec_bool),
      (''conflictIndex'', in_field ap_ConflictIndex ap_ConflictIndex_update dec_int)]"

definition dec_StatusResponse :: "StatusResponse decoder" where
  "dec_StatusResponse = dec_struct
     [(''nodeId'', in_field sr_NodeID sr_NodeID_update dec_string),
      (''state'', in_field sr_State sr_State_update dec_string),
      (''term'', in_field sr_Term sr_Term_update dec_int),
      (''logLength'', in_field sr_LogLength sr_LogLength_update dec_int),
      (''commitIndex'', in_field sr_CommitIndex sr_CommitIndex_update dec_int),
      (''leaderId'', in_field sr_LeaderID sr_LeaderID_update dec_string)]"

definition dec_CommitNotification :: "CommitNotification decoder" where
  "dec_CommitNotification = dec_struct
     [(''stroke'', in_field cn_Stroke cn_Stroke_update dec_StrokeEvent),
      (''index'', in_field cn_Index cn_Index_update dec_int),
      (''term'', in_field cn_Term cn_Term_update dec_int)]"

text \<open>The zero values a handler decodes into.\<close>

definition zeroVoteRequest :: VoteRequest where
  "zeroVoteRequest = \<lparr>vr_Term = 0, vr_CandidateID = [], vr_LastLogIndex = 0, vr_LastLogTerm = 0\<rparr>"

definition zeroVoteResponse :: VoteResponse where
  "zeroVoteResponse = \<lparr>vp_Term = 0, vp_VoteGranted = False\<rparr>"

definition zeroAppendEntriesRequest :: AppendEntriesRequest where
  "zeroAppendEntriesRequest = \<lparr>ar_Term = 0, ar_LeaderID = [], ar_PrevLogIndex = 0, ar_PrevLogTerm = 0,
     ar_Entries = [], ar_LeaderCommit = 0\<rparr>"

definition zeroAppendEntriesResponse :: AppendEntriesResponse where
  "zeroAppendEntriesResponse = \<lparr>ap_Term = 0, ap_Success = False, ap_ConflictIndex = 0\<rparr>"

definition zeroStatusResponse :: StatusResponse where
  "zeroStatusResponse = \<lparr>sr_NodeID = [], sr_State = [], sr_Term = 0, sr_LogLength = 0, sr_CommitIndex = 0,
     sr_LeaderID = []\<rparr>"

definition zeroCommitNotification :: CommitNotification where
  "zeroCommitNotification = \<lparr>cn_Stroke = zeroStroke, cn_Index = 0, cn_Term = 0\<rparr>"

section \<open>Encoding\<close>

definition enc_int :: "int \<Rightarrow> json" where
  "enc_int i = JNum (IntLit i)"

definition enc_float :: "float64 \<Rightarrow> json" where
  "enc_float f = JNum (FloatLit f)"

definition omitempty :: "bool \<Rightarrow> string \<Rightarrow> json \<Rightarrow> (string \<times> json) list" where
  "omitempty is_zero tag j = (if is_zero then [] else [(tag, j)])"

definition enc_Point :: "Point \<Rightarrow> json" where
  "enc_Point p = JObj [(''x'', enc_float (pt_X p)), (''y'', enc_float (pt_Y p))]"

definition enc_StrokeEvent :: "StrokeEvent \<Rightarrow> json" where
  "enc_StrokeEvent s = JObj
     ([(''id'', JStr (se_ID s))] @ omitempty (se_Type s = []) ''type'' (JStr (se_Type s)) @
      omitempty (se_TargetID s = []) ''targetId'' (JStr (se_TargetID s)) @
      [(''points'', JArr (map enc_Point (se_Points s))), (''color'', JStr (se_Color s)),
       (''width'', enc_float (se_Width s)), (''userId'', JStr (se_UserID s))])"

definition enc_LogEntry :: "LogEntry \<Rightarrow> json" where
  "enc_LogEntry e = JObj
     [(''index'', enc_int (le_Index e)), (''term'', enc_int (le_Term e)), (''stroke'', enc_StrokeEvent (le_Stroke e))]"

definition enc_VoteRequest :: "VoteRequest \<Rightarrow> json" where
  "enc_VoteRequest r = JObj
     [(''term'', enc_int (vr_Term r)), (''candidateId'', JStr (vr_CandidateID r)),
      (''lastLogIndex'', enc_int (vr_LastLogIndex r)), (''lastLogTerm'', enc_int (vr_LastLogTerm r))]"

definition enc_VoteResponse :: "VoteResponse \<Rightarrow> json" where
  "enc_VoteResponse r = JObj [(''term'', enc_int (vp_Term r)), (''voteGranted'', JBool (vp_VoteGranted r))]"

definition enc_AppendEntriesRequest :: "AppendEntriesRequest \<Rightarrow> json" where
  "enc_AppendEntriesRequest r = JObj
     [(''term'', enc_int (ar_Term r)), (''leaderId'', JStr (ar_LeaderID r)),
      (''prevLogIndex'', enc_int (ar_PrevLogIndex r)), (''prevLogTerm'', enc_int (ar_PrevLogTerm r)),
      (''entries'', JArr (map enc_LogEntry (ar_Entries r))), (''leaderCommit'', enc_int (ar_LeaderCommit r))]"

definition enc_AppendEntriesResponse :: "AppendEntriesResponse \<Rightarrow> json" where
  "enc_AppendEntriesResponse r = JObj
     ([(''term'', enc_int (ap_Term r)), (''success'', JBool (ap_Success r))] @
      omitempty (ap_ConflictIndex r = 0) ''conflictIndex'' (enc_int (ap_ConflictIndex r)))"

definition enc_StatusResponse :: "StatusResponse \<Rightarrow> json" where
  "enc_StatusResponse r = JObj
     [(''nodeId'', JStr (sr_NodeID r)), (''state'', JStr (sr_State r)), (''term'', enc_int (sr_Term r)),
      (''logLength'', enc_int (sr_LogLength r)), (''commitIndex'', enc_int (sr_CommitIndex r)),
      (''leaderId'', JStr (sr_LeaderID r))]"

definition enc_CommitNotification :: "CommitNotification \<Rightarrow> json" where
  "enc_CommitNotification c = JObj
     [(''stroke'', enc_StrokeEvent (cn_Stroke c)), (''index'', enc_int (cn_Index c)), (''term'', enc_int (cn_Term c))]"

text \<open>\<open>WSMessage\<close>: the envelope for browsers, with the payload already a JSON value.\<close>

record WSMessage =
  ws_Type :: string
  ws_Payload :: json

definition enc_WSMessage :: "WSMessage \<Rightarrow> json" where
  "enc_WSMessage m = JObj [(''type'', JStr (ws_Type m)), (''payload'', ws_Payload m)]"

text \<open>\<open>json.Marshal\<close> fails on a number that JSON cannot express, wherever it is in the value.\<close>

fun marshals :: "json \<Rightarrow> bool" where
  "marshals (JNum (FloatLit f)) = finite_float f"
| "marshals (JArr js) = list_all marshals js"
| "marshals (JObj kvs) = list_all (\<lambda>kv. marshals (snd kv)) kvs"
| "marshals _ = True"

definition finite_stroke :: "StrokeEvent \<Rightarrow> bool" where
  "finite_stroke s \<longleftrightarrow> finite_float (se_Width s) \<and>
     list_all (\<lambda>p. finite_float (pt_X p) \<and> finite_float (pt_Y p)) (se_Points s)"

lemma marshals_StrokeEvent: "marshals (enc_StrokeEvent s) \<longleftrightarrow> finite_stroke s"
  by (auto simp: enc_StrokeEvent_def omitempty_def enc_float_def enc_Point_def finite_stroke_def list_all_iff)

lemma marshals_AppendEntriesRequest:
  "marshals (enc_AppendEntriesRequest r) \<longleftrightarrow> list_all (\<lambda>e. finite_stroke (le_Stroke e)) (ar_Entries r)"
  by (simp add: enc_AppendEntriesRequest_def enc_LogEntry_def enc_int_def marshals_StrokeEvent list_all_iff)

lemma marshals_CommitNotification: "marshals (enc_CommitNotification c) \<longleftrightarrow> finite_stroke (cn_Stroke c)"
  by (simp add: enc_CommitNotification_def enc_int_def marshals_StrokeEvent)

lemma marshals_VoteRequest: "marshals (enc_VoteRequest r)"
  by (simp add: enc_VoteRequest_def enc_int_def)

section \<open>Reading back\<close>

lemma fold_keys:
  "fold_key ''x'' = ''x''" "fold_key ''y'' = ''y''" "fold_key ''id'' = ''id''" "fold_key ''type'' = ''type''"
  "fold_key ''targetId'' = ''targetid''" "fold_key ''points'' = ''points''" "fold_key ''color'' = ''color''"
  "fold_key ''width'' = ''width''" "fold_key ''userId'' = ''userid''" "fold_key ''index'' = ''index''"
  "fold_key ''term'' = ''term''" "fold_key ''stroke'' = ''stroke''" "fold_key ''candidateId'' = ''candidateid''"
  "fold_key ''lastLogIndex'' = ''lastlogindex''" "fold_key ''lastLogTerm'' = ''lastlogterm''"
  "fold_key ''voteGranted'' = ''votegranted''" "fold_key ''leaderId'' = ''leaderid''"
  "fold_key ''prevLogIndex'' = ''prevlogindex''" "fold_key ''prevLogTerm'' = ''prevlogterm''"
  "fold_key ''entries'' = ''entries''" "fold_key ''leaderCommit'' = ''leadercommit''"
  "fold_key ''success'' = ''success''" "fold_key ''conflictIndex'' = ''conflictindex''"
  "fold_key ''nodeId'' = ''nodeid''" "fold_key ''state'' = ''state''" "fold_key ''logLength'' = ''loglength''"
  "fold_key ''commitIndex'' = ''commitindex''"
  by code_simp+

lemmas codec = fold_keys in_field_def enc_int_def enc_float_def omitempty_def

lemma dec_all_map: "(\<And>x. x \<in> set xs \<Longrightarrow> d (e x) z = Some x) \<Longrightarrow> dec_all d z (map e xs) = Some xs"
  by (induction xs) simp_all

lemma Point_roundtrip: "dec_Point (enc_Point p) z = Some p"
  by (simp add: dec_Point_def enc_Point_def codec)

lemma StrokeEvent_roundtrip: "dec_StrokeEvent (enc_StrokeEvent s) zeroStroke = Some s"
  by (simp add: dec_StrokeEvent_def enc_StrokeEvent_def codec dec_all_map Point_roundtrip zeroStroke_def)

lemma LogEntry_roundtrip:
  "int64_ok (le_Index e) \<Longrightarrow> int64_ok (le_Term e) \<Longrightarrow> dec_LogEntry (enc_LogEntry e) zeroEntry = Some e"
  by (simp add: dec_LogEntry_def enc_LogEntry_def codec zeroEntry_def StrokeEvent_roundtrip)

lemma VoteRequest_roundtrip:
  "int64_ok (vr_Term r) \<Longrightarrow> int64_ok (vr_LastLogIndex r) \<Longrightarrow> int64_ok (vr_LastLogTerm r) \<Longrightarrow>
   dec_VoteRequest (enc_VoteRequest r) zeroVoteRequest = Some r"
  by (simp add: dec_VoteRequest_def enc_VoteRequest_def codec zeroVoteRequest_def)

lemma VoteResponse_roundtrip:
  "int64_ok (vp_Term r) \<Longrightarrow> dec_VoteResponse (enc_VoteResponse r) zeroVoteResponse = Some r"
  by (simp add: dec_VoteResponse_def enc_VoteResponse_def codec zeroVoteResponse_def)

definition request_in_range :: "AppendEntriesRequest \<Rightarrow> bool" where
  "request_in_range r \<longleftrightarrow>
     int64_ok (ar_Term r) \<and> int64_ok (ar_PrevLogIndex r) \<and> int64_ok (ar_PrevLogTerm r) \<and>
     int64_ok (ar_LeaderCommit r) \<and>
     list_all (\<lambda>e. int64_ok (le_Index e) \<and> int64_ok (le_Term e)) (ar_Entries r)"

lemma AppendEntriesRequest_roundtrip:
  assumes "request_in_range r"
  shows "dec_AppendEntriesRequest (enc_AppendEntriesRequest r) zeroAppendEntriesRequest = Some r"
proof -
  have "dec_all dec_LogEntry zeroEntry (map enc_LogEntry (ar_Entries r)) = Some (ar_Entries r)"
    using assms by (intro dec_all_map LogEntry_roundtrip) (auto simp: request_in_range_def list_all_iff)
  then show ?thesis
    using assms by (simp add: dec_AppendEntriesRequest_def enc_AppendEntriesRequest_def codec
        zeroAppendEntriesRequest_def request_in_range_def)
qed

lemma AppendEntriesResponse_roundtrip:
  "int64_ok (ap_Term r) \<Longrightarrow> int64_ok (ap_ConflictIndex r) \<Longrightarrow>
   dec_AppendEntriesResponse (enc_AppendEntriesResponse r) zeroAppendEntriesResponse = Some r"
  by (simp add: dec_AppendEntriesResponse_def enc_AppendEntriesResponse_def codec zeroAppendEntriesResponse_def)

lemma StatusResponse_roundtrip:
  "int64_ok (sr_Term r) \<Longrightarrow> int64_ok (sr_LogLength r) \<Longrightarrow> int64_ok (sr_CommitIndex r) \<Longrightarrow>
   dec_StatusResponse (enc_StatusResponse r) zeroStatusResponse = Some r"
  by (simp add: dec_StatusResponse_def enc_StatusResponse_def codec zeroStatusResponse_def)

lemma CommitNotification_roundtrip:
  "int64_ok (cn_Index c) \<Longrightarrow> int64_ok (cn_Term c) \<Longrightarrow>
   dec_CommitNotification (enc_CommitNotification c) zeroCommitNotification = Some c"
  by (simp add: dec_CommitNotification_def enc_CommitNotification_def codec zeroCommitNotification_def
      StrokeEvent_roundtrip)

end
