(* ===== verification/ReplicaServer.thy ===== *)
theory ReplicaServer
  imports ReplicaMain Json
begin

text \<open>
  The HTTP side of a replica: the handlers of \<open>replica/internal/server/handler.go\<close>, the routing of
  \<open>server.go\<close> and the RPC client of \<open>replica/internal/raft/rpc.go\<close>. A request is its method, its path, the
  \<open>from\<close> parameter of its query and the JSON value of its body (\<open>None\<close> when the body does not start with
  one). A panic in a handler is recovered by \<open>net/http\<close>, which drops the connection: the client sees an
  error. Headers are not modelled and paths are taken to be clean. The listener is the subject of the theory
  \<open>ProcessLife\<close>.
\<close>

section \<open>Requests and responses\<close>

record HttpRequest =
  rq_Method :: string
  rq_Path :: string
  rq_From :: string
  rq_Body :: "json option"

datatype content = Text string | Json json | Empty

record HttpResponse =
  rs_Status :: int
  rs_Content :: content

definition http_error :: "string \<Rightarrow> int \<Rightarrow> HttpResponse" where
  "http_error msg code = \<lparr>rs_Status = code, rs_Content = Text msg\<rparr>"

definition http_json :: "int \<Rightarrow> json \<Rightarrow> HttpResponse" where
  "http_json code j = \<lparr>rs_Status = code, rs_Content = Json j\<rparr>"

text \<open>Decoding a request body: no value, or one that does not fit, is an error.\<close>

definition decode_body :: "'r decoder \<Rightarrow> 'r \<Rightarrow> HttpRequest \<Rightarrow> 'r option" where
  "decode_body d z r = (case rq_Body r of None \<Rightarrow> None | Some j \<Rightarrow> d j z)"

section \<open>Handlers\<close>

type_synonym served = "Node \<times> (panic + HttpResponse)"

definition serve_Health :: "Node \<Rightarrow> HttpRequest \<Rightarrow> served" where
  "serve_Health n r = (n, Inr (http_json 200 (JObj [(''status'', JStr ''ok'')])))"

definition serve_Status :: "Node \<Rightarrow> HttpRequest \<Rightarrow> served" where
  "serve_Status n r = (n, Inr (http_json 200 (enc_StatusResponse (Status n))))"

definition serve_RequestVote :: "Node \<Rightarrow> HttpRequest \<Rightarrow> served" where
  "serve_RequestVote n r =
     (if rq_Method r \<noteq> ''POST'' then (n, Inr (http_error ''method not allowed'' 405))
      else
        case decode_body dec_VoteRequest zeroVoteRequest r of
          None \<Rightarrow> (n, Inr (http_error ''invalid request body'' 400))
        | Some req \<Rightarrow>
            (case HandleVoteRequest n req of
               (n', resp) \<Rightarrow> (n', Inr (http_json 200 (enc_VoteResponse resp)))))"

text \<open>What \<open>HandleAppendEntries\<close> and \<open>HandleHeartbeat\<close> share after decoding.\<close>

definition answer_append :: "Node \<Rightarrow> AppendEntriesRequest \<Rightarrow> served" where
  "answer_append n req =
     (case HandleAppendEntries n req of
        (n', Inl p) \<Rightarrow> (n', Inl p)
      | (n', Inr resp) \<Rightarrow> (n', Inr (http_json 200 (enc_AppendEntriesResponse resp))))"

definition serve_AppendEntries :: "Node \<Rightarrow> HttpRequest \<Rightarrow> served" where
  "serve_AppendEntries n r =
     (if rq_Method r \<noteq> ''POST'' then (n, Inr (http_error ''method not allowed'' 405))
      else
        case decode_body dec_AppendEntriesRequest zeroAppendEntriesRequest r of
          None \<Rightarrow> (n, Inr (http_error ''invalid request body'' 400))
        | Some req \<Rightarrow> answer_append n req)"

definition serve_Heartbeat :: "Node \<Rightarrow> HttpRequest \<Rightarrow> served" where
  "serve_Heartbeat n r =
     (if rq_Method r \<noteq> ''POST'' then (n, Inr (http_error ''method not allowed'' 405))
      else
        case decode_body dec_AppendEntriesRequest zeroAppendEntriesRequest r of
          None \<Rightarrow> (n, Inr (http_error ''invalid request body'' 400))
        | Some req \<Rightarrow> answer_append n (req\<lparr>ar_Entries := []\<rparr>))"

definition serve_Stroke :: "Node \<Rightarrow> HttpRequest \<Rightarrow> served" where
  "serve_Stroke n r =
     (if rq_Method r \<noteq> ''POST'' then (n, Inr (http_error ''method not allowed'' 405))
      else
        case decode_body dec_StrokeEvent zeroStroke r of
          None \<Rightarrow> (n, Inr (http_error ''invalid request body'' 400))
        | Some stroke \<Rightarrow>
            (case HandleStroke n stroke of
               (n', Some ErrNotLeader) \<Rightarrow>
                 (n', Inr (http_json 503
                   (JObj [(''error'', JStr ''not the leader''), (''leaderId'', JStr (sr_LeaderID (Status n')))])))
             | (n', None) \<Rightarrow> (n', Inr (http_json 202 (JObj [(''status'', JStr ''accepted'')])))))"

text \<open>\<open>strconv.Atoi\<close>: an optional sign and decimal digits, within 64 bits.\<close>

definition digit :: "char \<Rightarrow> int option" where
  "digit c = (let k = int (of_char c) in if 48 \<le> k \<and> k \<le> 57 then Some (k - 48) else None)"

fun digits :: "string \<Rightarrow> int \<Rightarrow> int option" where
  "digits [] acc = Some acc"
| "digits (c # cs) acc = (case digit c of None \<Rightarrow> None | Some d \<Rightarrow> digits cs (10 * acc + d))"

definition Atoi :: "string \<Rightarrow> int option" where
  "Atoi s =
     (let neg = (s \<noteq> [] \<and> hd s = CHR ''-'');
          ds = (if s \<noteq> [] \<and> (hd s = CHR ''-'' \<or> hd s = CHR ''+'') then tl s else s)
      in if ds = [] then None
         else case digits ds 0 of
                None \<Rightarrow> None
              | Some a \<Rightarrow> let i = (if neg then - a else a) in if int64_ok i then Some i else None)"

definition serve_SyncLog :: "Node \<Rightarrow> HttpRequest \<Rightarrow> served" where
  "serve_SyncLog n r =
     (let i = (case Atoi (rq_From r) of None \<Rightarrow> 0 | Some i \<Rightarrow> i)
      in (n, Inr (http_json 200 (JArr (map enc_LogEntry (GetSyncLog n i))))))"

text \<open>Decimal notation, as \<open>%d\<close> prints it.\<close>

fun show_nat :: "nat \<Rightarrow> string" where
  "show_nat n = (if n < 10 then [char_of (48 + n)] else show_nat (n div 10) @ [char_of (48 + n mod 10)])"

declare show_nat.simps [simp del]

definition show_int :: "int \<Rightarrow> string" where
  "show_int i = (if i < 0 then CHR ''-'' # show_nat (nat (- i)) else show_nat (nat i))"

definition metric :: "string \<Rightarrow> string \<Rightarrow> int \<Rightarrow> string" where
  "metric name node v = name @ ''{node='' @ [CHR 0x22] @ node @ [CHR 0x22] @ ''} '' @ show_int v @ [CHR 0x0A]"

definition serve_Metrics :: "Node \<Rightarrow> HttpRequest \<Rightarrow> served" where
  "serve_Metrics n r =
     (let s = Status n
      in (n, Inr \<lparr>rs_Status = 200, rs_Content = Text
            (metric ''smolraft_replica_term'' (sr_NodeID s) (sr_Term s) @
             metric ''smolraft_replica_log_length'' (sr_NodeID s) (sr_LogLength s) @
             metric ''smolraft_replica_commit_index'' (sr_NodeID s) (sr_CommitIndex s))\<rparr>))"

text \<open>The routes of \<open>NewServer\<close>; any other path is answered by the mux with 404.\<close>

definition replica_serve :: "Node \<Rightarrow> HttpRequest \<Rightarrow> served" where
  "replica_serve n r =
     (if rq_Path r = ''/request-vote'' then serve_RequestVote n r
      else if rq_Path r = ''/append-entries'' then serve_AppendEntries n r
      else if rq_Path r = ''/heartbeat'' then serve_Heartbeat n r
      else if rq_Path r = ''/stroke'' then serve_Stroke n r
      else if rq_Path r = ''/status'' then serve_Status n r
      else if rq_Path r = ''/health'' then serve_Health n r
      else if rq_Path r = ''/metrics'' then serve_Metrics n r
      else if rq_Path r = ''/sync-log'' then serve_SyncLog n r
      else (n, Inr (http_error ''404 page not found'' 404)))"

section \<open>The RPC client\<close>

text \<open>
  The transport is a parameter: what comes back from an address for a request, \<open>None\<close> for a failed or
  timed-out call. An RPC gives \<open>None\<close> when the Go method returns an error.
\<close>

type_synonym transport = "string \<Rightarrow> HttpRequest \<Rightarrow> HttpResponse option"

definition post_request :: "string \<Rightarrow> json \<Rightarrow> HttpRequest" where
  "post_request path body = \<lparr>rq_Method = ''POST'', rq_Path = path, rq_From = [], rq_Body = Some body\<rparr>"

definition decode_content :: "'r decoder \<Rightarrow> 'r \<Rightarrow> HttpResponse \<Rightarrow> 'r option" where
  "decode_content d z resp = (case rs_Content resp of Json j \<Rightarrow> d j z | _ \<Rightarrow> None)"

definition doPost :: "transport \<Rightarrow> string \<Rightarrow> string \<Rightarrow> json \<Rightarrow> 'r decoder \<Rightarrow> 'r \<Rightarrow> 'r option" where
  "doPost net addr path body d z =
     (if \<not> marshals body then None
      else case net addr (post_request path body) of
             None \<Rightarrow> None
           | Some resp \<Rightarrow> if rs_Status resp \<noteq> 200 then None else decode_content d z resp)"

definition rpc_RequestVote :: "transport \<Rightarrow> string \<Rightarrow> VoteRequest \<Rightarrow> VoteResponse option" where
  "rpc_RequestVote net addr req =
     doPost net addr ''/request-vote'' (enc_VoteRequest req) dec_VoteResponse zeroVoteResponse"

definition rpc_AppendEntries :: "transport \<Rightarrow> string \<Rightarrow> AppendEntriesRequest \<Rightarrow> AppendEntriesResponse option" where
  "rpc_AppendEntries net addr req =
     doPost net addr ''/append-entries'' (enc_AppendEntriesRequest req)
       dec_AppendEntriesResponse zeroAppendEntriesResponse"

text \<open>\<open>NotifyCommit\<close> passes no response value: only the status counts.\<close>

definition rpc_NotifyCommit :: "transport \<Rightarrow> string \<Rightarrow> CommitNotification \<Rightarrow> unit option" where
  "rpc_NotifyCommit net addr cn =
     (if \<not> marshals (enc_CommitNotification cn) then None
      else case net addr (post_request ''/commit'' (enc_CommitNotification cn)) of
             None \<Rightarrow> None
           | Some resp \<Rightarrow> if rs_Status resp \<noteq> 200 then None else Some ())"

definition rpc_FetchSyncLog :: "transport \<Rightarrow> string \<Rightarrow> int \<Rightarrow> LogEntry list option" where
  "rpc_FetchSyncLog net addr i =
     (case net addr \<lparr>rq_Method = ''GET'', rq_Path = ''/sync-log'', rq_From = show_int i, rq_Body = None\<rparr> of
        None \<Rightarrow> None
      | Some resp \<Rightarrow>
          if rs_Status resp \<noteq> 200 then None else decode_content (dec_list dec_LogEntry zeroEntry) [] resp)"

text \<open>The interface \<open>RPCClient\<close> of the source as a record of its methods, and its production implementation.\<close>

record RPCClient =
  RequestVote :: "string \<Rightarrow> VoteRequest \<Rightarrow> VoteResponse option"
  AppendEntriesRPC :: "string \<Rightarrow> AppendEntriesRequest \<Rightarrow> AppendEntriesResponse option"
  NotifyCommit :: "string \<Rightarrow> CommitNotification \<Rightarrow> unit option"
  FetchSyncLog :: "string \<Rightarrow> int \<Rightarrow> LogEntry list option"

definition NewHTTPRPCClient :: "transport \<Rightarrow> RPCClient" where
  "NewHTTPRPCClient net =
     \<lparr>RequestVote = rpc_RequestVote net, AppendEntriesRPC = rpc_AppendEntries net,
      NotifyCommit = rpc_NotifyCommit net, FetchSyncLog = rpc_FetchSyncLog net\<rparr>"

text \<open>A transport that reaches one replica: the state the replica is left in, and what the caller sees.\<close>

definition reply :: "served \<Rightarrow> HttpResponse option" where
  "reply sv = (case snd sv of Inl _ \<Rightarrow> None | Inr resp \<Rightarrow> Some resp)"

definition net_to :: "Node \<Rightarrow> transport" where
  "net_to n addr r = reply (replica_serve n r)"

section \<open>Decimal numbers\<close>

lemma digits_snoc:
  "digits (xs @ [c]) acc =
     (case digits xs acc of None \<Rightarrow> None | Some a \<Rightarrow> map_option (\<lambda>d. 10 * a + d) (digit c))"
  by (induction xs arbitrary: acc) (auto split: option.splits)

lemma digits_are_digits: "digits s acc = Some a \<Longrightarrow> c \<in> set s \<Longrightarrow> digit c \<noteq> None"
  by (induction s arbitrary: acc) (auto split: option.splits)

lemma digit_char: "k < 10 \<Longrightarrow> digit (char_of (48 + k)) = Some (int k)"
  by (simp add: digit_def)

lemma digits_show_nat: "digits (show_nat n) 0 = Some (int n)"
proof (induction n rule: show_nat.induct)
  case (1 n)
  show ?case
  proof (cases "n < 10")
    case True
    then show ?thesis by (subst show_nat.simps) (simp add: digit_char)
  next
    case False
    from digit_char [of "n mod 10"] have "digit (char_of (48 + n mod 10)) = Some (int (n mod 10))" by simp
    then show ?thesis
      using 1 False by (subst show_nat.simps) (simp add: digits_snoc zdiv_int zmod_int)
  qed
qed

lemma show_nat_nonempty: "show_nat n \<noteq> []"
  by (subst show_nat.simps) simp

lemma signs_no_digits: "digit (CHR ''-'') = None" "digit (CHR ''+'') = None"
  by code_simp+

lemma Atoi_show_int:
  assumes "int64_ok i"
  shows "Atoi (show_int i) = Some i"
proof (cases "i < 0")
  case True
  then show ?thesis
    using assms show_nat_nonempty [of "nat (- i)"]
    by (simp add: Atoi_def show_int_def digits_show_nat Let_def)
next
  case False
  have "digit (hd (show_nat (nat i))) \<noteq> None"
    by (rule digits_are_digits [OF digits_show_nat [of "nat i"]]) (simp add: show_nat_nonempty)
  then have "hd (show_nat (nat i)) \<noteq> CHR ''-''" "hd (show_nat (nat i)) \<noteq> CHR ''+''"
    using signs_no_digits by metis+
  then show ?thesis
    using False assms show_nat_nonempty [of "nat i"]
    by (simp add: Atoi_def show_int_def digits_show_nat Let_def)
qed

section \<open>Calls over HTTP\<close>

text \<open>A call of the vote handler over HTTP.\<close>

lemma vote_rpc_is_call:
  assumes "int64_ok (vr_Term req)" and "int64_ok (vr_LastLogIndex req)" and "int64_ok (vr_LastLogTerm req)"
    and "int64_ok (currentTerm n)"
  shows "rpc_RequestVote (net_to n) addr req = Some (snd (HandleVoteRequest n req)) \<and>
         fst (replica_serve n (post_request ''/request-vote'' (enc_VoteRequest req))) = fst (HandleVoteRequest n req)"
proof -
  have "int64_ok (vp_Term (snd (HandleVoteRequest n req)))"
    using assms(1,4) by (auto simp: HandleVoteRequest_def Let_def stepDown_def node_simps)
  moreover obtain n' resp where "HandleVoteRequest n req = (n', resp)" by fastforce
  ultimately show ?thesis
    using assms(1-3)
    by (simp add: rpc_RequestVote_def doPost_def marshals_VoteRequest net_to_def reply_def replica_serve_def post_request_def
        serve_RequestVote_def decode_body_def VoteRequest_roundtrip http_json_def decode_content_def VoteResponse_roundtrip)
qed

text \<open>
  A call of the AppendEntries handler: the caller gets the answer, or an error if the handler panicked.
\<close>

lemma append_rpc_is_call:
  assumes "request_in_range req" and "int64_ok (currentTerm n)" and "int64_ok (LastIndex (nlog n) + 1)"
    and "list_all (\<lambda>e. finite_stroke (le_Stroke e)) (ar_Entries req)"
  shows "rpc_AppendEntries (net_to n) addr req =
           (case snd (HandleAppendEntries n req) of Inl _ \<Rightarrow> None | Inr resp \<Rightarrow> Some resp) \<and>
         fst (replica_serve n (post_request ''/append-entries'' (enc_AppendEntriesRequest req))) =
           fst (HandleAppendEntries n req)"
proof -
  have r: "int64_ok (ar_Term req)" "int64_ok (ar_PrevLogIndex req)" "int64_ok 0"
    using assms(1) by (simp_all add: request_in_range_def int64_ok_def max_int_def)
  have "int64_ok ci" if "prevConflict (nlog n) req = Some ci" for ci
    using that r assms(3) by (auto simp: prevConflict_def split: if_splits prod.splits)
  then have "int64_ok (ap_Term resp) \<and> int64_ok (ap_ConflictIndex resp)"
    if "snd (HandleAppendEntries n req) = Inr resp" for resp
    using that r assms(2) by (cases rule: HandleAppendEntries_cases [of req n]) (auto simp: HandleAppendEntries_eqs)
  then have "dec_AppendEntriesResponse (enc_AppendEntriesResponse resp) zeroAppendEntriesResponse = Some resp"
    if "snd (HandleAppendEntries n req) = Inr resp" for resp
    using that AppendEntriesResponse_roundtrip by blast
  moreover obtain n' x where "HandleAppendEntries n req = (n', x)" by fastforce
  ultimately show ?thesis
    by (cases x)
      (simp_all add: rpc_AppendEntries_def doPost_def marshals_AppendEntriesRequest assms(4) net_to_def reply_def replica_serve_def post_request_def
        serve_AppendEntries_def answer_append_def decode_body_def AppendEntriesRequest_roundtrip [OF assms(1)]
        http_json_def decode_content_def)
qed

text \<open>
  Refused requests. A write request with another method than POST is answered 405, one whose body is not the
  expected JSON 400; in both cases the replica's state is untouched.
\<close>

lemma bad_requests_refused:
  "(rq_Method r \<noteq> ''POST'' \<longrightarrow>
      (\<forall>f \<in> {serve_RequestVote, serve_AppendEntries, serve_Heartbeat, serve_Stroke}.
         f n r = (n, Inr (http_error ''method not allowed'' 405)))) \<and>
   (rq_Method r = ''POST'' \<longrightarrow>
      (decode_body dec_VoteRequest zeroVoteRequest r = None \<longrightarrow>
         serve_RequestVote n r = (n, Inr (http_error ''invalid request body'' 400))) \<and>
      (decode_body dec_AppendEntriesRequest zeroAppendEntriesRequest r = None \<longrightarrow>
         serve_AppendEntries n r = (n, Inr (http_error ''invalid request body'' 400)) \<and>
         serve_Heartbeat n r = (n, Inr (http_error ''invalid request body'' 400))) \<and>
      (decode_body dec_StrokeEvent zeroStroke r = None \<longrightarrow>
         serve_Stroke n r = (n, Inr (http_error ''invalid request body'' 400))))"
  by (simp add: serve_RequestVote_def serve_AppendEntries_def serve_Heartbeat_def serve_Stroke_def)

text \<open>
  The stroke endpoint. A well-formed stroke is accepted with 202 exactly by a leader, which appends it; any
  other replica answers 503 with the leader it knows of and stays as it is.
\<close>

lemma stroke_endpoint:
  assumes "rq_Method r = ''POST''" and "decode_body dec_StrokeEvent zeroStroke r = Some st"
  shows "\<exists>resp. serve_Stroke n r = (fst (HandleStroke n st), Inr resp) \<and>
           (rs_Status resp = 202 \<longleftrightarrow> nstate n = Leader) \<and>
           (nstate n \<noteq> Leader \<longrightarrow> fst (HandleStroke n st) = n \<and> rs_Status resp = 503 \<and>
              rs_Content resp = Json (JObj [(''error'', JStr ''not the leader''), (''leaderId'', JStr (leaderID n))]))"
  using assms
  by (cases "nstate n = Leader")
    (auto simp: serve_Stroke_def HandleStroke_def Let_def http_json_def Status_def)

text \<open>
  Heartbeats carry no entries. The heartbeat endpoint drops the entries of the request: it never changes the
  replica's log and never panics, whatever the request.
\<close>

lemma heartbeat_keeps_log:
  "nlog (fst (serve_Heartbeat n r)) = nlog n \<and> (\<exists>resp. snd (serve_Heartbeat n r) = Inr resp)"
proof -
  have "nlog (fst (HandleAppendEntries n req)) = nlog n \<and> (\<exists>resp. snd (HandleAppendEntries n req) = Inr resp)"
    if "ar_Entries req = []" for req
    by (cases rule: HandleAppendEntries_cases [of req n])
      (use that in \<open>auto simp: HandleAppendEntries_eqs node_simps\<close>)
  then have kept: "nlog (fst (HandleAppendEntries n (req\<lparr>ar_Entries := []\<rparr>))) = nlog n \<and>
      (\<exists>resp. snd (HandleAppendEntries n (req\<lparr>ar_Entries := []\<rparr>)) = Inr resp)" for req
    by simp
  have "nlog (fst (answer_append n (req\<lparr>ar_Entries := []\<rparr>))) = nlog n \<and>
      (\<exists>resp. snd (answer_append n (req\<lparr>ar_Entries := []\<rparr>)) = Inr resp)" for req
    using kept [of req]
    by (cases "HandleAppendEntries n (req\<lparr>ar_Entries := []\<rparr>)") (auto simp: answer_append_def)
  then show ?thesis by (simp add: serve_Heartbeat_def split: option.split)
qed

text \<open>Fetching the log: the position survives its way through the query string, the entries theirs through JSON.\<close>

lemma sync_log_roundtrip:
  assumes "int64_ok i" and "\<forall>e \<in> set (entries (nlog n)). int64_ok (le_Index e) \<and> int64_ok (le_Term e)"
  shows "rpc_FetchSyncLog (net_to n) addr i = Some (GetSyncLog n i)"
proof -
  have "set (GetSyncLog n i) \<subseteq> set (entries (nlog n))"
    by (auto simp: GetSyncLog_def GetFrom_def dest: in_set_dropD)
  then have "dec_all dec_LogEntry zeroEntry (map enc_LogEntry (GetSyncLog n i)) = Some (GetSyncLog n i)"
    using assms(2) by (intro dec_all_map LogEntry_roundtrip) auto
  then show ?thesis
    by (simp add: rpc_FetchSyncLog_def net_to_def reply_def replica_serve_def serve_SyncLog_def
        Atoi_show_int [OF assms(1)] http_json_def decode_content_def)
qed

section \<open>Property\<close>

text \<open>
  C24. The RPC client's methods are calls of the other replica. Through the HTTP client, JSON, routing, handlers and back, \<open>RequestVote\<close> gives the
  caller exactly what \<open>HandleVoteRequest\<close> answers, \<open>AppendEntries\<close> what \<open>HandleAppendEntries\<close> answers (an error if it panics), and
  \<open>FetchSyncLog\<close> what \<open>GetSyncLog\<close> returns; and the responder is left in the state its handler computes.
\<close>

theorem http_client_calls:
  assumes "int64_ok (currentTerm n)" and "int64_ok (LastIndex (nlog n) + 1)"
    and "\<forall>e \<in> set (entries (nlog n)). int64_ok (le_Index e) \<and> int64_ok (le_Term e)"
    and "int64_ok (vr_Term vreq)" and "int64_ok (vr_LastLogIndex vreq)" and "int64_ok (vr_LastLogTerm vreq)"
    and "request_in_range areq" and "list_all (\<lambda>e. finite_stroke (le_Stroke e)) (ar_Entries areq)" and "int64_ok i"
  shows "RequestVote (NewHTTPRPCClient (net_to n)) addr vreq = Some (snd (HandleVoteRequest n vreq)) \<and>
         fst (replica_serve n (post_request ''/request-vote'' (enc_VoteRequest vreq))) = fst (HandleVoteRequest n vreq) \<and>
         AppendEntriesRPC (NewHTTPRPCClient (net_to n)) addr areq =
           (case snd (HandleAppendEntries n areq) of Inl _ \<Rightarrow> None | Inr resp \<Rightarrow> Some resp) \<and>
         fst (replica_serve n (post_request ''/append-entries'' (enc_AppendEntriesRequest areq))) =
           fst (HandleAppendEntries n areq) \<and>
         FetchSyncLog (NewHTTPRPCClient (net_to n)) addr i = Some (GetSyncLog n i)"
  using vote_rpc_is_call [OF assms(4-6,1)] append_rpc_is_call [OF assms(7,1,2,8)] sync_log_roundtrip [OF assms(9,3)]
  by (simp add: NewHTTPRPCClient_def)

theorem http_client_calls_witness:
  "RequestVote (NewHTTPRPCClient (net_to voterDemo)) ''r2:9001''
     \<lparr>vr_Term = 1, vr_CandidateID = ''n1'', vr_LastLogIndex = 0, vr_LastLogTerm = 0\<rparr> =
     Some \<lparr>vp_Term = 1, vp_VoteGranted = True\<rparr> \<and>
   AppendEntriesRPC (NewHTTPRPCClient (net_to voterDemo)) ''r2:9001'' appendDemo =
     Some \<lparr>ap_Term = 1, ap_Success = True, ap_ConflictIndex = 0\<rparr> \<and>
   FetchSyncLog (NewHTTPRPCClient (net_to voterDemo)) ''r2:9001'' 0 = Some [sentinel]"
proof -
  let ?v = "\<lparr>vr_Term = 1, vr_CandidateID = ''n1'', vr_LastLogIndex = 0, vr_LastLogTerm = 0\<rparr>"
  have "snd (HandleVoteRequest voterDemo ?v) = \<lparr>vp_Term = 1, vp_VoteGranted = True\<rparr>"
    "snd (HandleAppendEntries voterDemo appendDemo) = Inr \<lparr>ap_Term = 1, ap_Success = True, ap_ConflictIndex = 0\<rparr>"
    "GetSyncLog voterDemo 0 = [sentinel]"
    by code_simp+
  moreover have "int64_ok (currentTerm voterDemo)" "int64_ok (LastIndex (nlog voterDemo) + 1)"
    "\<forall>e \<in> set (entries (nlog voterDemo)). int64_ok (le_Index e) \<and> int64_ok (le_Term e)"
    "int64_ok (vr_Term ?v)" "int64_ok (vr_LastLogIndex ?v)" "int64_ok (vr_LastLogTerm ?v)"
    "request_in_range appendDemo" "list_all (\<lambda>e. finite_stroke (le_Stroke e)) (ar_Entries appendDemo)" "int64_ok 0"
    by code_simp+
  note http_client_calls [OF this, of "''r2:9001''"]
  ultimately show ?thesis by simp
qed

end
