(* ===== verification/LeaderTracker.thy ===== *)
theory LeaderTracker
  imports ReplicaServer "HOL-Library.State_Monad"
begin

text \<open>
  The gateway's leader discovery, \<open>gateway/internal/leader/tracker.go\<close>. A poll is a sequence of HTTP
  calls, and what they answer may change from one call to the next: the network is a parameter that
  threads a world \<open>'w\<close> through the calls (an answer of \<open>None\<close> is a failed or timed-out call), and the code that
  makes several calls is written in the state monad over it. The network that reaches the replicas' own
  handlers, with calls that may get lost on the way, is \<open>cluster_net\<close>. The ticker that repeats the poll, and the time
  a poll takes, are the subject of the theory \<open>GatewayTime\<close>.
\<close>

type_synonym 'w net = "string \<Rightarrow> HttpRequest \<Rightarrow> ('w, HttpResponse option) state"

section \<open>The tracker\<close>

record Tracker =
  leaderAddr :: string
  replicaAddrs :: "string list"

definition NewTracker :: "string list \<Rightarrow> Tracker" where
  "NewTracker addrs = \<lparr>leaderAddr = [], replicaAddrs = addrs\<rparr>"

definition LeaderAddr :: "Tracker \<Rightarrow> string" where
  "LeaderAddr t = leaderAddr t"

definition setLeader :: "Tracker \<Rightarrow> string \<Rightarrow> Tracker" where
  "setLeader t addr = t\<lparr>leaderAddr := addr\<rparr>"

definition status_request :: HttpRequest where
  "status_request = \<lparr>rq_Method = ''GET'', rq_Path = ''/status'', rq_From = [], rq_Body = None\<rparr>"

text \<open>What \<open>fetchStatus\<close> makes of the answer.\<close>

definition read_status :: "HttpResponse option \<Rightarrow> StatusResponse option" where
  "read_status r =
     (case r of
        None \<Rightarrow> None
      | Some resp \<Rightarrow>
          if rs_Status resp \<noteq> 200 then None else decode_content dec_StatusResponse zeroStatusResponse resp)"

definition fetchStatus :: "'w net \<Rightarrow> string \<Rightarrow> ('w, StatusResponse option) state" where
  "fetchStatus net addr = do { r \<leftarrow> net addr status_request; State_Monad.return (read_status r) }"

definition is_leader :: "StatusResponse \<Rightarrow> bool" where
  "is_leader s \<longleftrightarrow> sr_State s = ''LEADER''"

text \<open>The inner loop of \<open>poll\<close>: look for the replica a follower named.\<close>

fun poll_hint :: "'w net \<Rightarrow> string \<Rightarrow> string list \<Rightarrow> ('w, string option) state" where
  "poll_hint net leader [] = State_Monad.return None"
| "poll_hint net leader (a # addrs) = do {
     st \<leftarrow> fetchStatus net a;
     case st of
       None \<Rightarrow> poll_hint net leader addrs
     | Some s \<Rightarrow>
         if sr_NodeID s = leader \<and> is_leader s then State_Monad.return (Some a)
         else poll_hint net leader addrs }"

text \<open>The outer loop; the result is the argument of the final \<open>setLeader\<close>, \<open>None\<close> for the empty string.\<close>

fun poll_addrs :: "'w net \<Rightarrow> string list \<Rightarrow> string list \<Rightarrow> ('w, string option) state" where
  "poll_addrs net all [] = State_Monad.return None"
| "poll_addrs net all (a # addrs) = do {
     st \<leftarrow> fetchStatus net a;
     case st of
       None \<Rightarrow> poll_addrs net all addrs
     | Some s \<Rightarrow>
         if is_leader s then State_Monad.return (Some a)
         else if sr_LeaderID s = [] then poll_addrs net all addrs
         else do {
           h \<leftarrow> poll_hint net (sr_LeaderID s) all;
           case h of Some l \<Rightarrow> State_Monad.return (Some l) | None \<Rightarrow> poll_addrs net all addrs } }"

definition PollOnce :: "'w net \<Rightarrow> Tracker \<Rightarrow> ('w, Tracker) state" where
  "PollOnce net t = do {
     r \<leftarrow> poll_addrs net (replicaAddrs t) (replicaAddrs t);
     State_Monad.return (setLeader t (case r of Some a \<Rightarrow> a | None \<Rightarrow> [])) }"

section \<open>Any network\<close>

lemma poll_hint_sound:
  "run_state (poll_hint net leader addrs) w = (Some a, w') \<Longrightarrow>
   a \<in> set addrs \<and> (\<exists>w1 s. run_state (fetchStatus net a) w1 = (Some s, w') \<and> is_leader s \<and> sr_NodeID s = leader)"
  by (induction addrs arbitrary: w) (auto split: prod.splits option.splits if_splits)

lemma poll_addrs_sound:
  assumes "run_state (poll_addrs net all addrs) w = (Some a, w')"
  shows "a \<in> set all \<union> set addrs \<and> (\<exists>w1 s. run_state (fetchStatus net a) w1 = (Some s, w') \<and> is_leader s)"
  using assms
proof (induction addrs arbitrary: w)
  case Nil
  then show ?case by simp
next
  case (Cons b addrs)
  then show ?case
    by (auto split: prod.splits option.splits if_splits dest!: poll_hint_sound)
qed

section \<open>The cost of a poll\<close>

text \<open>
  What a poll costs, from what a call costs: \<open>spent\<close> reads the world's account (a clock, or a count of calls), and \<open>limit\<close> bounds
  what one call adds to it.
\<close>

locale bounded_calls =
  fixes net :: "'w net" and spent :: "'w \<Rightarrow> int" and limit :: "HttpRequest \<Rightarrow> int"
  assumes call_cost: "run_state (net a r) w = (x, w') \<Longrightarrow> spent w \<le> spent w' \<and> spent w' \<le> spent w + limit r"
begin

lemma limit_nonneg: "0 \<le> limit r"
proof -
  obtain x w' where "run_state (net undefined r) undefined = (x, w')" by fastforce
  from call_cost [OF this] show ?thesis by linarith
qed

lemma fetch_cost:
  "run_state (fetchStatus net a) w = (st, w') \<Longrightarrow> spent w \<le> spent w' \<and> spent w' \<le> spent w + limit status_request"
  by (auto simp: fetchStatus_def split: prod.splits dest: call_cost)

lemma poll_hint_cost:
  "run_state (poll_hint net leader addrs) w = (r, w') \<Longrightarrow>
   spent w \<le> spent w' \<and> spent w' \<le> spent w + int (length addrs) * limit status_request"
proof (induction addrs arbitrary: w)
  case (Cons a addrs)
  obtain st w1 where f: "run_state (fetchStatus net a) w = (st, w1)" by fastforce
  have "w' = w1 \<or> run_state (poll_hint net leader addrs) w1 = (r, w')"
    using Cons.prems f by (auto split: option.splits if_splits)
  moreover have "0 \<le> int (length addrs) * limit status_request" by (simp add: limit_nonneg)
  ultimately have "spent w1 \<le> spent w' \<and> spent w' \<le> spent w1 + int (length addrs) * limit status_request"
    using Cons.IH [of w1] by auto
  moreover have "int (length (a # addrs)) * limit status_request = limit status_request + int (length addrs) * limit status_request"
    by (simp add: algebra_simps)
  ultimately show ?case using fetch_cost [OF f] by linarith
qed simp

lemma poll_addrs_cost:
  "run_state (poll_addrs net all addrs) w = (r, w') \<Longrightarrow>
   spent w \<le> spent w' \<and> spent w' \<le> spent w + int (length addrs * (length all + 1)) * limit status_request"
proof (induction addrs arbitrary: w)
  case (Cons a addrs)
  let ?L = "limit status_request"
  obtain st w1 where f: "run_state (fetchStatus net a) w = (st, w1)" by fastforce
  obtain h w2 where h: "run_state (poll_hint net (sr_LeaderID (the st)) all) w1 = (h, w2)" by fastforce
  have "w' = w1 \<or> w' = w2 \<or> run_state (poll_addrs net all addrs) w1 = (r, w') \<or> run_state (poll_addrs net all addrs) w2 = (r, w')"
    using Cons.prems f h by (auto split: option.splits if_splits)
  moreover have n: "0 \<le> int (length addrs * (length all + 1)) * ?L" "0 \<le> int (length all) * ?L"
    by (simp_all add: limit_nonneg)
  ultimately have "\<exists>v \<in> {w1, w2}. spent v \<le> spent w' \<and> spent w' \<le> spent v + int (length addrs * (length all + 1)) * ?L"
    using Cons.IH by auto
  moreover have "int (length (a # addrs) * (length all + 1)) * ?L =
      ?L + int (length all) * ?L + int (length addrs * (length all + 1)) * ?L"
    by (simp add: algebra_simps)
  ultimately show ?case using fetch_cost [OF f] poll_hint_cost [OF h] n by auto
qed simp

lemma PollOnce_cost:
  assumes "run_state (PollOnce net t) w = (t', w')"
  shows "spent w \<le> spent w'"
    and "spent w' \<le> spent w + int (length (replicaAddrs t) * (length (replicaAddrs t) + 1)) * limit status_request"
  using assms poll_addrs_cost [of "replicaAddrs t" "replicaAddrs t" w]
  by (auto simp: PollOnce_def split: prod.splits)

end

text \<open>A network that counts the calls made through it.\<close>

definition counted :: "'w net \<Rightarrow> (nat \<times> 'w) net" where
  "counted net addr r = State (\<lambda>(k, w). case run_state (net addr r) w of (resp, w') \<Rightarrow> (resp, (Suc k, w')))"

interpretation counting: bounded_calls "counted net" "\<lambda>kw. int (fst kw)" "\<lambda>_. 1" for net
  by unfold_locales (auto simp: counted_def split: prod.splits)

section \<open>Replicas whose answers hold still\<close>

text \<open>
  What discovery relies on during one poll: every fetch answers what \<open>status_at\<close> says and changes nothing.
\<close>

locale status_service =
  fixes net :: "'w net" and still :: "'w \<Rightarrow> bool" and status_at :: "'w \<Rightarrow> string \<Rightarrow> StatusResponse option"
  assumes fetch_still: "still w \<Longrightarrow> run_state (fetchStatus net a) w = (status_at w a, w)"
begin

definition found :: "'w \<Rightarrow> string list \<Rightarrow> string option \<Rightarrow> bool" where
  "found w addrs r \<longleftrightarrow> (\<forall>l. r = Some l \<longrightarrow> l \<in> set addrs \<and> (\<exists>s. status_at w l = Some s \<and> is_leader s))"

lemma poll_hint_still:
  assumes "still w" and "set addrs \<subseteq> set all"
  shows "\<exists>r. run_state (poll_hint net leader addrs) w = (r, w) \<and> found w all r"
  using assms(2) by (induction addrs) (auto simp: fetch_still [OF assms(1)] found_def split: option.splits)

lemma poll_still:
  assumes "still w" and "set addrs \<subseteq> set all"
  shows "\<exists>r. run_state (poll_addrs net all addrs) w = (r, w) \<and> found w all r"
  using assms(2)
proof (induction addrs)
  case Nil
  then show ?case by (simp add: found_def)
next
  case (Cons a addrs)
  obtain h where "run_state (poll_hint net (sr_LeaderID (the (status_at w a))) all) w = (h, w)" "found w all h"
    using poll_hint_still [OF assms(1)] by blast
  then show ?case
    using Cons by (auto simp: fetch_still [OF assms(1)] found_def split: option.splits)
qed

lemma poll_finds:
  assumes "still w" and "a \<in> set addrs" and "status_at w a = Some s" and "is_leader s"
  shows "\<exists>l. run_state (poll_addrs net all addrs) w = (Some l, w)"
  using assms(2)
proof (induction addrs)
  case (Cons b addrs)
  obtain h where "run_state (poll_hint net (sr_LeaderID (the (status_at w b))) all) w = (h, w)"
    using poll_hint_still [OF assms(1)] by blast
  then show ?case
    using Cons assms by (auto simp: fetch_still split: option.splits)
qed simp

lemma poll_correct:
  assumes "still w"
  obtains (found) l where "run_state (poll_addrs net addrs addrs) w = (Some l, w)" and "l \<in> set addrs"
      and "\<exists>s. status_at w l = Some s \<and> is_leader s"
  | (none) "run_state (poll_addrs net addrs addrs) w = (None, w)"
      and "\<forall>a \<in> set addrs. \<forall>s. status_at w a = Some s \<longrightarrow> \<not> is_leader s"
proof -
  obtain r where r: "run_state (poll_addrs net addrs addrs) w = (r, w)" "found w addrs r"
    using poll_still [OF assms, of addrs addrs] by blast
  show thesis
  proof (cases r)
    case None
    have "\<forall>a \<in> set addrs. \<forall>s. status_at w a = Some s \<longrightarrow> \<not> is_leader s"
      using poll_finds [OF assms, where all = addrs and addrs = addrs] r(1) None by fastforce
    then show thesis using none r(1) None by simp
  next
    case (Some l)
    then show thesis using found r by (simp add: found_def)
  qed
qed

lemma PollOnce_correct:
  assumes "still w" and "[] \<notin> set (replicaAddrs t)"
  shows "\<exists>t'. run_state (PollOnce net t) w = (t', w) \<and> replicaAddrs t' = replicaAddrs t \<and>
     (if \<exists>a \<in> set (replicaAddrs t). \<exists>s. status_at w a = Some s \<and> is_leader s
      then LeaderAddr t' \<in> set (replicaAddrs t) \<and> (\<exists>s. status_at w (LeaderAddr t') = Some s \<and> is_leader s)
      else LeaderAddr t' = [])"
  using assms(1)
proof (cases rule: poll_correct [of w "replicaAddrs t"])
  case (found l)
  then show ?thesis by (auto simp: PollOnce_def setLeader_def LeaderAddr_def)
next
  case none
  then show ?thesis by (auto simp: PollOnce_def setLeader_def LeaderAddr_def)
qed

end

section \<open>The network to the replicas\<close>

text \<open>
  The replicas by address, and the fate of the next calls: delivered, lost on the way there, or answered with the
  answer lost. Calls beyond the list are delivered.
\<close>

datatype fate = Delivered | RequestLost | ReplyLost

record Wire =
  wire_nodes :: "string \<rightharpoonup> Node"
  wire_fates :: "fate list"

definition cluster_net :: "Wire net" where
  "cluster_net addr r = State (\<lambda>w.
     let f = (case wire_fates w of [] \<Rightarrow> Delivered | f # _ \<Rightarrow> f);
         w1 = w\<lparr>wire_fates := tl (wire_fates w)\<rparr>
     in case wire_nodes w addr of
          None \<Rightarrow> (None, w1)
        | Some n \<Rightarrow>
            if f = RequestLost then (None, w1)
            else let sv = replica_serve n r; w2 = w1\<lparr>wire_nodes := (wire_nodes w)(addr \<mapsto> fst sv)\<rparr>
                 in (if f = ReplyLost then None else reply sv, w2))"

definition node_in_range :: "Node \<Rightarrow> bool" where
  "node_in_range n \<longleftrightarrow> int64_ok (currentTerm n) \<and> int64_ok (sr_LogLength (Status n)) \<and> int64_ok (commitIndex n)"

definition calm :: "Wire \<Rightarrow> bool" where
  "calm w \<longleftrightarrow> wire_fates w = [] \<and> (\<forall>a n. wire_nodes w a = Some n \<longrightarrow> node_in_range n)"

definition status_of :: "Wire \<Rightarrow> string \<Rightarrow> StatusResponse option" where
  "status_of w a = map_option Status (wire_nodes w a)"

lemma is_leader_Status: "is_leader (Status n) \<longleftrightarrow> nstate n = Leader"
  by (cases "nstate n") (simp_all add: is_leader_def Status_def)

lemma fetchStatus_cluster:
  assumes "calm w"
  shows "run_state (fetchStatus cluster_net a) w = (status_of w a, w)"
proof (cases "wire_nodes w a")
  case None
  then show ?thesis
    using assms by (simp add: fetchStatus_def cluster_net_def status_of_def calm_def read_status_def)
next
  case (Some n)
  then have "node_in_range n" using assms by (auto simp: calm_def)
  then have "dec_StatusResponse (enc_StatusResponse (Status n)) zeroStatusResponse = Some (Status n)"
    by (intro StatusResponse_roundtrip) (auto simp: node_in_range_def Status_def)
  moreover have "(wire_nodes w)(a \<mapsto> n) = wire_nodes w" using Some by auto
  ultimately show ?thesis
    using assms Some
    by (simp add: fetchStatus_def cluster_net_def status_of_def calm_def read_status_def status_request_def
        replica_serve_def serve_Status_def reply_def http_json_def decode_content_def Let_def)
qed

interpretation cluster_status: status_service cluster_net calm status_of
  by unfold_locales (rule fetchStatus_cluster)

section \<open>Properties\<close>

text \<open>
  C28. Leader discovery. While the replicas answer and hold still, one poll sets the cached address to a replica that is
  the leader exactly when one of the configured replicas is, and clears it when none is; it changes no replica.
\<close>

theorem leader_discovery:
  assumes "calm w" and "[] \<notin> set (replicaAddrs t)"
  shows "\<exists>t'. run_state (PollOnce cluster_net t) w = (t', w) \<and> replicaAddrs t' = replicaAddrs t \<and>
     (if \<exists>a \<in> set (replicaAddrs t). \<exists>n. wire_nodes w a = Some n \<and> nstate n = Leader
      then LeaderAddr t' \<in> set (replicaAddrs t) \<and> (\<exists>n. wire_nodes w (LeaderAddr t') = Some n \<and> nstate n = Leader)
      else LeaderAddr t' = [])"
proof -
  have leads: "(\<exists>s. status_of w a = Some s \<and> is_leader s) \<longleftrightarrow> (\<exists>n. wire_nodes w a = Some n \<and> nstate n = Leader)" for a
    by (auto simp: status_of_def is_leader_Status)
  show ?thesis using cluster_status.PollOnce_correct [OF assms] unfolding leads .
qed

definition demoWire :: Wire where
  "demoWire = \<lparr>wire_nodes = [''r1:9001'' \<mapsto> voterDemo, ''r2:9001'' \<mapsto> voterDemo\<lparr>nstate := Leader\<rparr>], wire_fates = []\<rparr>"

lemma calm_demoWire: "calm demoWire"
proof -
  have "node_in_range voterDemo" "node_in_range (voterDemo\<lparr>nstate := Leader\<rparr>)" by code_simp+
  then show ?thesis by (auto simp: calm_def demoWire_def)
qed

theorem leader_discovery_witness:
  "\<exists>t'. run_state (PollOnce cluster_net (NewTracker [''r1:9001'', ''r2:9001''])) demoWire = (t', demoWire) \<and>
        LeaderAddr t' = ''r2:9001''"
proof -
  let ?t = "NewTracker [''r1:9001'', ''r2:9001'']"
  have "[] \<notin> set (replicaAddrs ?t)" by (simp add: NewTracker_def)
  from leader_discovery [OF calm_demoWire this] show ?thesis
    by (auto simp: NewTracker_def demoWire_def voterDemo_def NewNode_def split: if_splits)
qed

text \<open>
  No stale beliefs. Whatever the network does, an address the poll settles on is one of the configured ones, and
  the last thing the poll saw was that replica's own claim to be the leader; and a poll of \<open>n\<close> replicas makes at most
  \<open>n * (n + 1)\<close> calls.
\<close>

lemma poll_settles:
  assumes "run_state (PollOnce (counted net) t) (k, w) = (t', (k', w'))"
  shows "k' \<le> k + length (replicaAddrs t) * (length (replicaAddrs t) + 1) \<and>
     (LeaderAddr t' \<noteq> [] \<longrightarrow>
        LeaderAddr t' \<in> set (replicaAddrs t) \<and>
        (\<exists>w1 s. run_state (fetchStatus (counted net) (LeaderAddr t')) w1 = (Some s, (k', w')) \<and> sr_State s = ''LEADER''))"
proof -
  obtain r k1 w1 where r: "run_state (poll_addrs (counted net) (replicaAddrs t) (replicaAddrs t)) (k, w) = (r, (k1, w1))"
    by (metis surj_pair)
  then have t': "t' = setLeader t (case r of Some a \<Rightarrow> a | None \<Rightarrow> [])" "k' = k1" "w' = w1"
    using assms by (simp_all add: PollOnce_def)
  have "k' \<le> k + length (replicaAddrs t) * (length (replicaAddrs t) + 1)"
    using counting.PollOnce_cost(2) [OF assms] by (simp del: of_nat_mult of_nat_add add: of_nat_add [symmetric])
  moreover have "LeaderAddr t' \<noteq> [] \<Longrightarrow> r = Some (LeaderAddr t')"
    by (auto simp: t'(1) setLeader_def LeaderAddr_def split: option.splits)
  ultimately show ?thesis using poll_addrs_sound [of "counted net"] r t'(2,3) by (fastforce simp: is_leader_def)
qed

end
