(* ===== verification/Hub.thy ===== *)
theory Hub
  imports Json
begin

text \<open>
  The WebSocket hub of the gateway, \<open>gateway/internal/gateway/hub.go\<close>. A client is a pointer: the model keeps a store
  from addresses to clients. A client's \<open>send\<close> channel is its queue and whether it is closed; sending on a closed channel
  and closing it twice are Go panics. Of the connection the model keeps the frames written to it. The three cases of
  \<open>Run\<close> are one function each; a Go map is ranged over in an arbitrary order, which is a parameter of the broadcast. The
  goroutines that are blocked on the unbuffered \<open>unregister\<close> channel are the list \<open>unregister_q\<close>.
\<close>

section \<open>Clients\<close>

datatype crash = SendOnClosedChannel | CloseOfClosedSend

datatype frame = TextFrame "json list" | PingFrame | CloseFrame

record Client =
  send_q :: "json list"
  send_closed :: bool
  conn_out :: "frame list"

definition sendCap :: nat where
  "sendCap = 256"

definition newClient :: Client where
  "newClient = \<lparr>send_q = [], send_closed = False, conn_out = []\<rparr>"

text \<open>A \<open>select\<close> that sends on the channel or takes the default; the flag says whether the message was queued.\<close>

definition try_send :: "Client \<Rightarrow> json \<Rightarrow> crash + (bool \<times> Client)" where
  "try_send cl m =
     (if send_closed cl then Inl SendOnClosedChannel
      else case chan_try_send sendCap (send_q cl) m of (b, q) \<Rightarrow> Inr (b, cl\<lparr>send_q := q\<rparr>))"

definition close_send :: "Client \<Rightarrow> crash + Client" where
  "close_send cl = (if send_closed cl then Inl CloseOfClosedSend else Inr (cl\<lparr>send_closed := True\<rparr>))"

section \<open>The hub\<close>

record Hub =
  clients :: "nat set"
  broadcast :: "json list"
  unregister_q :: "nat list"
  store :: "nat \<rightharpoonup> Client"

definition NewHub :: Hub where
  "NewHub = \<lparr>clients = {}, broadcast = [], unregister_q = [], store = Map.empty\<rparr>"

definition broadcastCap :: nat where
  "broadcastCap = 256"

definition Run_register :: "Hub \<Rightarrow> nat \<Rightarrow> Hub" where
  "Run_register h c = h\<lparr>clients := insert c (clients h)\<rparr>"

definition Run_unregister :: "Hub \<Rightarrow> nat \<Rightarrow> crash + Hub" where
  "Run_unregister h c =
     (if c \<in> clients h then
        case close_send (the (store h c)) of
          Inl p \<Rightarrow> Inl p
        | Inr cl \<Rightarrow> Inr (h\<lparr>clients := clients h - {c}, store := (store h)(c \<mapsto> cl)\<rparr>)
      else Inr h)"

text \<open>The body of the broadcast case, over the clients in the order the map is ranged over.\<close>

fun Run_broadcast :: "Hub \<Rightarrow> json \<Rightarrow> nat list \<Rightarrow> crash + Hub" where
  "Run_broadcast h m [] = Inr h"
| "Run_broadcast h m (c # cs) =
     (case try_send (the (store h c)) m of
        Inl p \<Rightarrow> Inl p
      | Inr (True, cl) \<Rightarrow> Run_broadcast (h\<lparr>store := (store h)(c \<mapsto> cl)\<rparr>) m cs
      | Inr (False, _) \<Rightarrow> Run_broadcast (h\<lparr>unregister_q := unregister_q h @ [c]\<rparr>) m cs)"

definition Broadcast :: "Hub \<Rightarrow> json \<Rightarrow> bool \<times> Hub" where
  "Broadcast h m =
     (case chan_try_send broadcastCap (broadcast h) m of (b, q) \<Rightarrow> (b, h\<lparr>broadcast := q\<rparr>))"

definition ClientCount :: "Hub \<Rightarrow> nat" where
  "ClientCount h = card (clients h)"

section \<open>What a broadcast does\<close>

definition has_room :: "Hub \<Rightarrow> nat \<Rightarrow> bool" where
  "has_room h c \<longleftrightarrow> length (send_q (the (store h c))) < sendCap"

definition queued :: "json \<Rightarrow> Client \<Rightarrow> Client" where
  "queued m cl = cl\<lparr>send_q := send_q cl @ [m]\<rparr>"

lemma try_send_open:
  "\<not> send_closed cl \<Longrightarrow>
   try_send cl m = (if length (send_q cl) < sendCap then Inr (True, queued m cl) else Inr (False, cl))"
  by (simp add: try_send_def chan_try_send_def queued_def)

lemma try_send_closed [simp]: "send_closed cl \<Longrightarrow> try_send cl m = Inl SendOnClosedChannel"
  by (simp add: try_send_def)

text \<open>
  The effect in one piece, the same for every order: the clients with room get the message, the others are handed to
  \<open>unregister\<close>.
\<close>

lemma Run_broadcast_open:
  assumes "distinct cs" and "\<forall>c \<in> set cs. \<exists>cl. store h c = Some cl \<and> \<not> send_closed cl"
  shows "Run_broadcast h m cs =
    Inr (h\<lparr>unregister_q := unregister_q h @ filter (\<lambda>c. \<not> has_room h c) cs,
           store := (\<lambda>c. if c \<in> set cs \<and> has_room h c then map_option (queued m) (store h c) else store h c)\<rparr>)"
  using assms
proof (induction cs arbitrary: h)
  case Nil
  then show ?case by simp
next
  case (Cons c cs)
  from Cons.prems(2) obtain cl where cl: "store h c = Some cl" "\<not> send_closed cl" by auto
  show ?case
  proof (cases "has_room h c")
    case True
    let ?h = "h\<lparr>store := (store h)(c \<mapsto> queued m cl)\<rparr>"
    have "Run_broadcast h m (c # cs) = Run_broadcast ?h m cs"
      using cl True by (simp add: try_send_open has_room_def)
    moreover have "\<forall>d \<in> set cs. \<exists>cl. store ?h d = Some cl \<and> \<not> send_closed cl"
      using Cons.prems by auto
    moreover have room: "has_room ?h d = has_room h d" if "d \<in> set cs" for d
      using Cons.prems(1) that by (auto simp: has_room_def)
    moreover have "filter (\<lambda>d. \<not> has_room ?h d) cs = filter (\<lambda>d. \<not> has_room h d) cs"
      using room by (intro filter_cong) simp_all
    moreover have "(\<lambda>d. if d \<in> set cs \<and> has_room ?h d then map_option (queued m) (store ?h d) else store ?h d) =
        (\<lambda>d. if d \<in> set (c # cs) \<and> has_room h d then map_option (queued m) (store h d) else store h d)"
      using Cons.prems(1) room cl True by (auto simp: fun_eq_iff)
    ultimately show ?thesis using Cons.IH [of ?h] Cons.prems(1) True by simp
  next
    case False
    let ?h = "h\<lparr>unregister_q := unregister_q h @ [c]\<rparr>"
    have "Run_broadcast h m (c # cs) = Run_broadcast ?h m cs"
      using cl False by (simp add: try_send_open has_room_def)
    moreover have room: "has_room ?h = has_room h" by (auto simp: has_room_def fun_eq_iff)
    moreover have "\<forall>d \<in> set cs. \<exists>cl. store ?h d = Some cl \<and> \<not> send_closed cl"
      using Cons.prems by auto
    moreover have "(\<lambda>d. if d \<in> set cs \<and> has_room h d then map_option (queued m) (store ?h d) else store ?h d) =
        (\<lambda>d. if d \<in> set (c # cs) \<and> has_room h d then map_option (queued m) (store h d) else store h d)"
      using False by (auto simp: fun_eq_iff)
    ultimately show ?thesis using Cons.IH [of ?h] Cons.prems(1) False by simp
  qed
qed

end
