(* ===== verification/Gateway.thy ===== *)
theory Gateway
  imports LeaderTracker Hub
begin

text \<open>
  The gateway's handlers, \<open>gateway/internal/gateway/handler.go\<close>, its routes (\<open>server.go\<close>) and its configuration
  (\<open>gateway/cmd/main.go\<close>): commit notifications in, strokes out to the leader, the replay of the board for a new client
  and the operational endpoints. The network to the replicas is the parameter \<open>net\<close> of the leader tracker's theory.
  The goroutines that serve a client are put together in the theory \<open>GatewayRun\<close>. The time limits of the calls
  are in \<open>GatewayTime\<close>, those of a client's connection in \<open>Connection\<close>, the request logger in \<open>GatewayServer\<close>;
  of the WebSocket library only what the handlers use of it is written out.
\<close>

section \<open>Messages for browsers\<close>

definition strokeMessage :: "StrokeEvent \<Rightarrow> json" where
  "strokeMessage stroke = enc_WSMessage \<lparr>ws_Type = ''stroke'', ws_Payload = enc_StrokeEvent stroke\<rparr>"

definition errorMessage :: "string \<Rightarrow> json" where
  "errorMessage msg = enc_WSMessage \<lparr>ws_Type = ''error'', ws_Payload = JObj [(''message'', JStr msg)]\<rparr>"

section \<open>HTTP handlers\<close>

definition HandleCommit :: "Hub \<Rightarrow> HttpRequest \<Rightarrow> Hub \<times> HttpResponse" where
  "HandleCommit h r =
     (if rq_Method r \<noteq> ''POST'' then (h, http_error ''method not allowed'' 405)
      else
        case decode_body dec_CommitNotification zeroCommitNotification r of
          None \<Rightarrow> (h, http_error ''invalid request body'' 400)
        | Some notification \<Rightarrow>
            if \<not> finite_stroke (cn_Stroke notification) then (h, http_error ''internal error'' 500)
            else (snd (Broadcast h (strokeMessage (cn_Stroke notification))),
                  \<lparr>rs_Status = 200, rs_Content = Empty\<rparr>))"

definition HandleHealth :: "HttpRequest \<Rightarrow> HttpResponse" where
  "HandleHealth r = http_json 200 (JObj [(''status'', JStr ''ok'')])"

definition HandleStatus :: "Hub \<Rightarrow> Tracker \<Rightarrow> HttpRequest \<Rightarrow> HttpResponse" where
  "HandleStatus h t r =
     http_json 200 (JObj [(''clients'', enc_int (int (ClientCount h))), (''leader'', JStr (LeaderAddr t))])"

definition HandleLeader :: "Tracker \<Rightarrow> HttpRequest \<Rightarrow> HttpResponse" where
  "HandleLeader t r = http_json 200 (JObj [(''leader'', JStr (LeaderAddr t)), (''leaderAddr'', JStr (LeaderAddr t))])"

definition HandleMetrics :: "Hub \<Rightarrow> HttpRequest \<Rightarrow> HttpResponse" where
  "HandleMetrics h r =
     \<lparr>rs_Status = 200,
      rs_Content = Text (''smolraft_gateway_connected_clients '' @ show_int (int (ClientCount h)) @ [CHR 0x0A])\<rparr>"

text \<open>
  The routes of \<open>NewServer\<close>. A request to \<open>/ws\<close> goes to the WebSocket library, which answers it itself when it is no
  upgrade; otherwise \<open>HandleWS\<close> goes on with the new connection.
\<close>

datatype gateway_answer = Reply HttpResponse | ServeWS

definition gateway_serve :: "(HttpRequest \<Rightarrow> HttpResponse option) \<Rightarrow> Hub \<Rightarrow> Tracker \<Rightarrow> HttpRequest \<Rightarrow> Hub \<times> gateway_answer" where
  "gateway_serve upgrade_error h t r =
     (if rq_Path r = ''/ws'' then (h, case upgrade_error r of Some resp \<Rightarrow> Reply resp | None \<Rightarrow> ServeWS)
      else if rq_Path r = ''/commit'' then (case HandleCommit h r of (h', resp) \<Rightarrow> (h', Reply resp))
      else if rq_Path r = ''/health'' then (h, Reply (HandleHealth r))
      else if rq_Path r = ''/status'' then (h, Reply (HandleStatus h t r))
      else if rq_Path r = ''/leader'' then (h, Reply (HandleLeader t r))
      else if rq_Path r = ''/metrics'' then (h, Reply (HandleMetrics h r))
      else (h, Reply (http_error ''404 page not found'' 404)))"

section \<open>Strokes to the leader\<close>

datatype forward_error = NoKnownLeader | MarshalStroke | PostFailed | NotLeaderAnymore | LeaderStatus int

definition forward_outcome :: "HttpResponse option \<Rightarrow> forward_error option" where
  "forward_outcome r =
     (case r of
        None \<Rightarrow> Some PostFailed
      | Some resp \<Rightarrow>
          if rs_Status resp = 503 then Some NotLeaderAnymore
          else if rs_Status resp \<noteq> 202 then Some (LeaderStatus (rs_Status resp))
          else None)"

definition forwardToLeaderAddr :: "'w net \<Rightarrow> StrokeEvent \<Rightarrow> string \<Rightarrow> ('w, forward_error option) state" where
  "forwardToLeaderAddr net stroke addr =
     (if addr = [] then State_Monad.return (Some NoKnownLeader)
      else if \<not> finite_stroke stroke then State_Monad.return (Some MarshalStroke)
      else do {
        r \<leftarrow> net addr (post_request ''/stroke'' (enc_StrokeEvent stroke));
        State_Monad.return (forward_outcome r) })"

definition forwardToLeader :: "'w net \<Rightarrow> Tracker \<Rightarrow> StrokeEvent \<Rightarrow> ('w, Tracker \<times> forward_error option) state" where
  "forwardToLeader net t stroke = do {
     e \<leftarrow> forwardToLeaderAddr net stroke (LeaderAddr t);
     case e of
       None \<Rightarrow> State_Monad.return (t, None)
     | Some _ \<Rightarrow> do {
         t' \<leftarrow> PollOnce net t;
         e' \<leftarrow> forwardToLeaderAddr net stroke (LeaderAddr t');
         State_Monad.return (t', e') } }"

text \<open>
  One message read by \<open>readPump\<close>: the text of the error to report to the client, if any. The body is the
  JSON value the message consists of, \<open>None\<close> when it is not one.
\<close>

definition readPump_message :: "'w net \<Rightarrow> Tracker \<Rightarrow> json option \<Rightarrow> ('w, Tracker \<times> string option) state" where
  "readPump_message net t body =
     (case (case body of None \<Rightarrow> None | Some j \<Rightarrow> dec_StrokeEvent j zeroStroke) of
        None \<Rightarrow> State_Monad.return (t, Some ''invalid stroke data'')
      | Some stroke \<Rightarrow> do {
          r \<leftarrow> forwardToLeader net t stroke;
          State_Monad.return (fst r, if snd r = None then None else Some ''failed to submit stroke'') })"

section \<open>Replaying the board\<close>

definition sync_request :: HttpRequest where
  "sync_request = \<lparr>rq_Method = ''GET'', rq_Path = ''/sync-log'', rq_From = ''1'', rq_Body = None\<rparr>"

text \<open>The messages \<open>replayHistory\<close> goes on to send; the status of the answer is not looked at.\<close>

definition replay_messages :: "HttpResponse option \<Rightarrow> json list" where
  "replay_messages r =
     (case r of
        None \<Rightarrow> []
      | Some resp \<Rightarrow>
          (case decode_content (dec_list dec_LogEntry zeroEntry) [] resp of
             None \<Rightarrow> []
           | Some es \<Rightarrow> map strokeMessage (filter finite_stroke (map le_Stroke es))))"

definition replayHistory_fetch :: "'w net \<Rightarrow> Tracker \<Rightarrow> ('w, Tracker \<times> json list) state" where
  "replayHistory_fetch net t = do {
     t' \<leftarrow> if LeaderAddr t = [] then PollOnce net t else State_Monad.return t;
     if LeaderAddr t' = [] then State_Monad.return (t', [])
     else do {
       r \<leftarrow> net (LeaderAddr t') sync_request;
       State_Monad.return (t', replay_messages r) } }"

section \<open>Configuration\<close>

definition gateway_splitAddrs :: "string \<Rightarrow> string list" where
  "gateway_splitAddrs s = keep_addrs (split_comma s)"

text \<open>The port, the tracker and the hub \<open>main\<close> starts with, or the message it exits with.\<close>

definition gatewayMain :: "string \<Rightarrow> string \<Rightarrow> string + (string \<times> Tracker \<times> Hub)" where
  "gatewayMain port addrs =
     (if addrs = [] then Inl ''REPLICA_ADDRS is required''
      else Inr (if port = [] then ''8080'' else port, NewTracker (gateway_splitAddrs addrs), NewHub))"

text \<open>The addresses the gateway polls are never empty strings, which \<open>LeaderAddr\<close> uses for an unknown leader.\<close>

lemma gateway_addrs_nonempty: "gatewayMain port addrs = Inr (p, t, h) \<Longrightarrow> [] \<notin> set (replicaAddrs t)"
  by (auto simp: gatewayMain_def NewTracker_def gateway_splitAddrs_def keep_addrs_eq split: if_splits)

section \<open>Forwarding over the network to the replicas\<close>

lemma serve_post_stroke:
  "replica_serve n (post_request ''/stroke'' (enc_StrokeEvent stroke)) =
     (if nstate n = Leader
      then (fst (HandleStroke n stroke), Inr (http_json 202 (JObj [(''status'', JStr ''accepted'')])))
      else (n, Inr (http_json 503
             (JObj [(''error'', JStr ''not the leader''), (''leaderId'', JStr (sr_LeaderID (Status n)))]))))"
  by (simp add: replica_serve_def serve_Stroke_def post_request_def decode_body_def StrokeEvent_roundtrip
      HandleStroke_def Let_def)

text \<open>One attempt changes at most the log of the leader at that address, and success means that it did.\<close>

definition submitted :: "StrokeEvent \<Rightarrow> string \<Rightarrow> Wire \<Rightarrow> Wire \<Rightarrow> bool" where
  "submitted stroke a w w' \<longleftrightarrow>
     (\<exists>n. wire_nodes w a = Some n \<and> nstate n = Leader \<and>
          wire_nodes w' = (wire_nodes w)(a \<mapsto> fst (HandleStroke n stroke)))"

lemma forward_attempt:
  assumes "run_state (forwardToLeaderAddr cluster_net stroke a) w = (e, w')"
  shows "e = None \<Longrightarrow> submitted stroke a w w'"
    and "wire_nodes w' = wire_nodes w \<or> submitted stroke a w w'"
  using assms
  by (auto simp: forwardToLeaderAddr_def cluster_net_def Let_def forward_outcome_def serve_post_stroke reply_def
      http_json_def submitted_def split: if_splits option.splits list.splits)

lemma fetch_keeps_nodes: "wire_nodes (snd (run_state (fetchStatus cluster_net a) w)) = wire_nodes w"
  by (auto simp: fetchStatus_def cluster_net_def Let_def status_request_def replica_serve_def serve_Status_def
      split: option.splits list.splits)

lemma hint_keeps_nodes: "wire_nodes (snd (run_state (poll_hint cluster_net l addrs) w)) = wire_nodes w"
proof (induction addrs arbitrary: w)
  case (Cons a addrs)
  obtain st w1 where f: "run_state (fetchStatus cluster_net a) w = (st, w1)" by fastforce
  then have "wire_nodes w1 = wire_nodes w" using fetch_keeps_nodes [of a w] by simp
  then show ?case using Cons f by (auto split: option.splits)
qed simp

lemma poll_keeps_nodes: "wire_nodes (snd (run_state (poll_addrs cluster_net all addrs) w)) = wire_nodes w"
proof (induction addrs arbitrary: w)
  case (Cons a addrs)
  obtain st w1 where f: "run_state (fetchStatus cluster_net a) w = (st, w1)" by fastforce
  obtain h w2 where g: "run_state (poll_hint cluster_net (sr_LeaderID (the st)) all) w1 = (h, w2)" by fastforce
  have "wire_nodes w1 = wire_nodes w" "wire_nodes w2 = wire_nodes w1"
    using fetch_keeps_nodes [of a w] f hint_keeps_nodes [of "sr_LeaderID (the st)" all w1] g by simp_all
  then show ?case using Cons f g by (auto split: option.splits)
qed simp

lemma PollOnce_keeps_nodes: "run_state (PollOnce cluster_net t) w = (t', w') \<Longrightarrow> wire_nodes w' = wire_nodes w"
  using poll_keeps_nodes [of "replicaAddrs t" "replicaAddrs t" w]
  by (auto simp: PollOnce_def split: prod.splits)

text \<open>A forwarded stroke is one attempt, or a failed one, a poll and a second one.\<close>

lemma forward_cases:
  assumes "run_state (forwardToLeader net t stroke) w = ((t', e), w')"
  obtains (first) "t' = t" "e = None" "run_state (forwardToLeaderAddr net stroke (LeaderAddr t)) w = (None, w')"
  | (retry) e1 w1 w2 where "run_state (forwardToLeaderAddr net stroke (LeaderAddr t)) w = (Some e1, w1)"
      "run_state (PollOnce net t) w1 = (t', w2)"
      "run_state (forwardToLeaderAddr net stroke (LeaderAddr t')) w2 = (e, w')"
  using assms by (auto simp: forwardToLeader_def split: prod.splits option.splits)

lemma submitted_leader:
  assumes "submitted stroke a w w'"
  shows "\<exists>n. wire_nodes w' a = Some n \<and> nstate n = Leader \<and>
    le_Term (last (entries (nlog n))) = currentTerm n \<and> le_Stroke (last (entries (nlog n))) = stroke"
  using assms by (auto simp: submitted_def HandleStroke_def Let_def node_simps log_simps)

text \<open>An attempt over a network that holds still, at a leader and elsewhere.\<close>

lemma attempt_at_leader:
  assumes "calm w" and "finite_stroke stroke" and "l \<noteq> []" and "wire_nodes w l = Some m" and "nstate m = Leader"
  shows "run_state (forwardToLeaderAddr cluster_net stroke l) w =
    (None, w\<lparr>wire_nodes := (wire_nodes w)(l \<mapsto> fst (HandleStroke m stroke))\<rparr>)"
  using assms
  by (simp add: forwardToLeaderAddr_def cluster_net_def Let_def forward_outcome_def serve_post_stroke reply_def
      http_json_def calm_def)


text \<open>The strokes of a replica's log, and how often a stroke was added to them between two states of the network.\<close>

definition strokes_of :: "Wire \<Rightarrow> string \<Rightarrow> StrokeEvent list" where
  "strokes_of w a = (case wire_nodes w a of None \<Rightarrow> [] | Some n \<Rightarrow> map le_Stroke (entries (nlog n)))"

text \<open>
  The replicas after the one at \<open>a\<close> has taken a stroke: one entry more in its log, of its term and at the next position, and a signal for its replication
  loops.
\<close>

definition stored :: "StrokeEvent \<Rightarrow> string \<Rightarrow> (string \<rightharpoonup> Node) \<Rightarrow> (string \<rightharpoonup> Node)" where
  "stored stroke a ns =
     (case ns a of
        None \<Rightarrow> ns
      | Some n \<Rightarrow>
          ns(a \<mapsto> n\<lparr>nlog := \<lparr>entries = entries (nlog n) @
                 [\<lparr>le_Index = int (length (entries (nlog n))), le_Term = currentTerm n, le_Stroke = stroke\<rparr>]\<rparr>,
               newEntryCh := (if newEntryCh n = [] then [()] else newEntryCh n)\<rparr>))"

lemma submitted_stored:
  assumes "submitted stroke a w w'"
  shows "wire_nodes w' = stored stroke a (wire_nodes w)" and "\<exists>n. wire_nodes w a = Some n \<and> nstate n = Leader"
  using assms
  by (auto simp: submitted_def stored_def HandleStroke_def Let_def Append_def signalNewEntry_def chan_try_send_def)

lemma submitted_changes: "submitted stroke a w w' \<Longrightarrow> wire_nodes w' a \<noteq> wire_nodes w a"
  using submitted_stored [of stroke a w w']
  by (auto simp: stored_def dest!: arg_cong [where f = "length \<circ> entries \<circ> nlog"])

lemma stored_leader: "(\<exists>n. stored stroke a ns b = Some n \<and> nstate n = Leader) \<longleftrightarrow> (\<exists>n. ns b = Some n \<and> nstate n = Leader)"
  by (auto simp: stored_def split: option.splits)

text \<open>An attempt stores the stroke or not; without losses it does exactly when it reports success.\<close>

lemma attempt_stores:
  assumes "run_state (forwardToLeaderAddr cluster_net stroke a) w = (e, w')"
  obtains k where "k \<le> 1" and "wire_nodes w' = (stored stroke a ^^ k) (wire_nodes w)"
    and "k = 1 \<Longrightarrow> \<exists>n. wire_nodes w a = Some n \<and> nstate n = Leader"
    and "wire_fates w = [] \<Longrightarrow> k = (if e = None then 1 else 0) \<and> wire_fates w' = []"
proof (cases "submitted stroke a w w'")
  case True
  have "e = None \<and> wire_fates w' = []" if "wire_fates w = []"
    using assms that submitted_stored(2) [OF True] submitted_changes [OF True]
    by (auto simp: forwardToLeaderAddr_def cluster_net_def Let_def forward_outcome_def serve_post_stroke reply_def http_json_def
        split: if_splits)
  with submitted_stored [OF True] show thesis by (intro that [of 1]) auto
next
  case False
  then have "wire_nodes w' = wire_nodes w" "e \<noteq> None" using forward_attempt [OF assms] by auto
  moreover have "wire_fates w' = []" if "wire_fates w = []"
    using assms that by (auto simp: forwardToLeaderAddr_def cluster_net_def Let_def split: if_splits option.splits)
  ultimately show thesis by (intro that [of 0]) auto
qed

text \<open>Every call takes at most one of the fates.\<close>

interpretation fates: bounded_calls cluster_net "\<lambda>w. - int (length (wire_fates w))" "\<lambda>_. 1"
  by unfold_locales (auto simp: cluster_net_def Let_def split: option.splits if_splits)

lemma PollOnce_fates: "run_state (PollOnce cluster_net t) w = (t', w') \<Longrightarrow> wire_fates w = [] \<Longrightarrow> wire_fates w' = []"
  using fates.PollOnce_cost(1) by fastforce

section \<open>Properties\<close>

text \<open>
  A commit reaches the hub. The notification that a replica posts for a committed entry arrives at the gateway as
  it was sent: the call succeeds, and the message queued for the browsers carries the entry's stroke, which reads back
  unchanged. It is dropped only when 256 broadcasts are waiting.
\<close>

lemma commit_reaches_hub:
  assumes "int64_ok (cn_Index cn)" and "int64_ok (cn_Term cn)" and "finite_stroke (cn_Stroke cn)"
  shows "\<exists>h'. gateway_serve up h t (post_request ''/commit'' (enc_CommitNotification cn)) =
           (h', Reply \<lparr>rs_Status = 200, rs_Content = Empty\<rparr>) \<and>
         broadcast h' = (if length (broadcast h) < 256 then broadcast h @ [strokeMessage (cn_Stroke cn)] else broadcast h) \<and>
         clients h' = clients h \<and> store h' = store h \<and>
         rpc_NotifyCommit (\<lambda>addr r. case snd (gateway_serve up h t r) of Reply resp \<Rightarrow> Some resp | _ \<Rightarrow> None) gw cn = Some () \<and>
         (\<exists>p. strokeMessage (cn_Stroke cn) = JObj [(''type'', JStr ''stroke''), (''payload'', p)] \<and>
              dec_StrokeEvent p zeroStroke = Some (cn_Stroke cn))"
  using assms
  by (simp add: gateway_serve_def HandleCommit_def post_request_def decode_body_def CommitNotification_roundtrip
      Broadcast_def chan_try_send_def broadcastCap_def rpc_NotifyCommit_def marshals_CommitNotification strokeMessage_def enc_WSMessage_def
      StrokeEvent_roundtrip)

text \<open>
  C14. What forwarding a stroke does to the replicas. Whatever calls get lost, and whether success or an error is reported: the stroke is stored \<open>k\<close> times by the
  replica the gateway had for the leader and \<open>j\<close> times by the one it has afterwards, each at most once and only by a leader, as an
  entry of its term at the end of its log; nothing else changes at any replica. When \<open>forwardToLeader\<close> reports success, the
  replica it settled on is a leader and the stroke is the last entry of its log. When no call gets lost, success is reported exactly when the
  stroke has been stored, and it has been stored once.
\<close>

theorem forward_outcomes:
  assumes "run_state (forwardToLeader cluster_net t stroke) w = ((t', e), w')"
  shows "\<exists>k j. k \<le> 1 \<and> j \<le> 1 \<and>
           wire_nodes w' = (stored stroke (LeaderAddr t') ^^ j) ((stored stroke (LeaderAddr t) ^^ k) (wire_nodes w)) \<and>
           (k = 1 \<longrightarrow> (\<exists>n. wire_nodes w (LeaderAddr t) = Some n \<and> nstate n = Leader)) \<and>
           (j = 1 \<longrightarrow> (\<exists>n. wire_nodes w (LeaderAddr t') = Some n \<and> nstate n = Leader)) \<and>
           (e = None \<longrightarrow>
             (\<exists>n. wire_nodes w' (LeaderAddr t') = Some n \<and> nstate n = Leader \<and>
                  le_Term (last (entries (nlog n))) = currentTerm n \<and> le_Stroke (last (entries (nlog n))) = stroke)) \<and>
           (wire_fates w = [] \<longrightarrow> k + j = (if e = None then 1 else 0))"
  using assms
proof (cases rule: forward_cases)
  case first
  from first(3) show ?thesis
  proof (rule attempt_stores)
    fix k
    assume "k \<le> 1" "wire_nodes w' = (stored stroke (LeaderAddr t) ^^ k) (wire_nodes w)"
      "k = 1 \<Longrightarrow> \<exists>n. wire_nodes w (LeaderAddr t) = Some n \<and> nstate n = Leader"
      "wire_fates w = [] \<Longrightarrow> k = (if None = None then 1 else 0) \<and> wire_fates w' = []"
    then show ?thesis
      using submitted_leader [OF forward_attempt(1) [OF first(3)]] first(1,2) by (intro exI [of _ k] exI [of _ 0]) simp
  qed
next
  case (retry e1 w1 w2)
  obtain k where k: "k \<le> 1" "wire_nodes w1 = (stored stroke (LeaderAddr t) ^^ k) (wire_nodes w)"
    "k = 1 \<Longrightarrow> \<exists>n. wire_nodes w (LeaderAddr t) = Some n \<and> nstate n = Leader"
    "wire_fates w = [] \<Longrightarrow> k = 0 \<and> wire_fates w1 = []"
    by (rule attempt_stores [OF retry(1)]) simp
  obtain j where j: "j \<le> 1" "wire_nodes w' = (stored stroke (LeaderAddr t') ^^ j) (wire_nodes w2)"
    "j = 1 \<Longrightarrow> \<exists>n. wire_nodes w2 (LeaderAddr t') = Some n \<and> nstate n = Leader"
    "wire_fates w2 = [] \<Longrightarrow> j = (if e = None then 1 else 0)"
    by (rule attempt_stores [OF retry(3)]) simp
  have w2: "wire_nodes w2 = wire_nodes w1" "wire_fates w1 = [] \<Longrightarrow> wire_fates w2 = []"
    using PollOnce_keeps_nodes [OF retry(2)] PollOnce_fates [OF retry(2)] by simp_all
  have "k = 0 \<or> k = 1" using k(1) by linarith
  then have "\<exists>n. wire_nodes w (LeaderAddr t') = Some n \<and> nstate n = Leader" if "j = 1"
    using j(3) [OF that] w2(1) k(2) stored_leader [of stroke "LeaderAddr t" "wire_nodes w" "LeaderAddr t'"] by auto
  then show ?thesis
    using submitted_leader [OF forward_attempt(1) [OF retry(3)]] k j w2 by (intro exI [of _ k] exI [of _ j]) auto
qed

definition demoTracker :: Tracker where
  "demoTracker = \<lparr>leaderAddr = ''r2:9001'', replicaAddrs = [''r1:9001'', ''r2:9001'']\<rparr>"

theorem forward_outcomes_witness:
  "\<exists>t' w'. run_state (forwardToLeader cluster_net demoTracker zeroStroke) demoWire = ((t', None), w') \<and>
     (\<exists>n. wire_nodes w' (LeaderAddr t') = Some n \<and> nstate n = Leader)"
proof -
  obtain t' e w' where r: "run_state (forwardToLeader cluster_net demoTracker zeroStroke) demoWire = ((t', e), w')"
    by (metis surj_pair)
  have "snd (fst (run_state (forwardToLeader cluster_net demoTracker zeroStroke) demoWire)) = None" by code_simp
  with r have "e = None" by simp
  with forward_outcomes [OF r] r show ?thesis by auto
qed



text \<open>
  C39. At least once, not exactly once. Whenever the leader's answer to the first attempt is lost and it is still the
  one leader, the retry submits the stroke again: the leader's log then holds it twice, and \<open>forwardToLeader\<close>
  reports success.
\<close>

theorem forward_may_duplicate:
  assumes "wire_fates w = [ReplyLost]" and "calm (w\<lparr>wire_fates := []\<rparr>)" and "finite_stroke stroke"
    and "[] \<notin> set (replicaAddrs t)" and "LeaderAddr t \<in> set (replicaAddrs t)"
    and "wire_nodes w (LeaderAddr t) = Some n" and "nstate n = Leader" and "Length (nlog n) < max_int"
    and "\<forall>a \<in> set (replicaAddrs t). \<forall>m. wire_nodes w a = Some m \<longrightarrow> nstate m = Leader \<longrightarrow> a = LeaderAddr t"
  shows "\<exists>t' w'. run_state (forwardToLeader cluster_net t stroke) w = ((t', None), w') \<and>
           strokes_of w' (LeaderAddr t) = strokes_of w (LeaderAddr t) @ [stroke, stroke]"
proof -
  let ?l = "LeaderAddr t" and ?n = "fst (HandleStroke n stroke)"
  let ?w = "w\<lparr>wire_fates := [], wire_nodes := (wire_nodes w)(?l \<mapsto> ?n)\<rparr>"
  have l: "?l \<noteq> []" using assms(4,5) by metis
  have lost: "run_state (forwardToLeaderAddr cluster_net stroke ?l) w = (Some PostFailed, ?w)"
    using assms(1,3,6,7) l
    by (simp add: forwardToLeaderAddr_def cluster_net_def Let_def forward_outcome_def serve_post_stroke)
  have leader: "nstate ?n = Leader" "map le_Stroke (entries (nlog ?n)) = map le_Stroke (entries (nlog n)) @ [stroke]"
    using assms(7) by (simp_all add: HandleStroke_def Let_def node_simps log_simps)
  have "node_in_range n" using assms(2,6) by (auto simp: calm_def)
  then have "node_in_range ?n"
    using assms(7,8) by (simp add: node_in_range_def Status_def HandleStroke_def Let_def node_simps log_simps
        Length_def int64_ok_def)
  then have calm: "calm ?w" using assms(2) by (auto simp: calm_def)
  obtain t' where t': "run_state (PollOnce cluster_net t) ?w = (t', ?w)" "LeaderAddr t' \<in> set (replicaAddrs t)"
      "\<exists>s. status_of ?w (LeaderAddr t') = Some s \<and> is_leader s"
    using cluster_status.PollOnce_correct [OF calm assms(4)] assms(5) leader(1)
    by (auto simp: status_of_def is_leader_Status split: if_splits)
  then have same: "LeaderAddr t' = ?l"
    using assms(9) by (auto simp: status_of_def is_leader_Status split: if_splits)
  have "run_state (forwardToLeaderAddr cluster_net stroke (LeaderAddr t')) ?w =
      (None, ?w\<lparr>wire_nodes := (wire_nodes ?w)(?l \<mapsto> fst (HandleStroke ?n stroke))\<rparr>)"
    unfolding same using leader(1) by (intro attempt_at_leader [OF calm assms(3) l]) simp_all
  then show ?thesis
    using lost t'(1) leader assms(6)
    by (simp add: forwardToLeader_def strokes_of_def HandleStroke_def Let_def node_simps log_simps)
qed

theorem forward_may_duplicate_witness:
  "\<exists>t' w'. run_state (forwardToLeader cluster_net demoTracker zeroStroke) (demoWire\<lparr>wire_fates := [ReplyLost]\<rparr>) =
       ((t', None), w') \<and>
     strokes_of w' ''r2:9001'' = strokes_of demoWire ''r2:9001'' @ [zeroStroke, zeroStroke]"
proof -
  let ?w = "demoWire\<lparr>wire_fates := [ReplyLost]\<rparr>" and ?n = "voterDemo\<lparr>nstate := Leader\<rparr>"
  have "wire_fates ?w = [ReplyLost]" "calm (?w\<lparr>wire_fates := []\<rparr>)" "wire_nodes ?w (LeaderAddr demoTracker) = Some ?n"
    using calm_demoWire by (simp_all add: demoWire_def demoTracker_def LeaderAddr_def)
  moreover have "finite_stroke zeroStroke" "[] \<notin> set (replicaAddrs demoTracker)"
    "LeaderAddr demoTracker \<in> set (replicaAddrs demoTracker)" "nstate ?n = Leader" "Length (nlog ?n) < max_int"
    by code_simp+
  moreover have "\<forall>a \<in> set (replicaAddrs demoTracker). \<forall>m. wire_nodes ?w a = Some m \<longrightarrow> nstate m = Leader \<longrightarrow>
      a = LeaderAddr demoTracker"
    by (simp add: demoTracker_def demoWire_def LeaderAddr_def voterDemo_def NewNode_def)
  ultimately show ?thesis
    using forward_may_duplicate [of ?w zeroStroke demoTracker ?n]
    by (auto simp: demoTracker_def LeaderAddr_def strokes_of_def)
qed

text \<open>
  What the replay for a new client fetches: with the leader's address known and its answer in range, the strokes the leader has committed, in log order,
  and nothing of the sentinel.
\<close>

definition board :: "Node \<Rightarrow> json list" where
  "board n = map (strokeMessage \<circ> le_Stroke) (drop 1 (take (nat (commitIndex n) + 1) (entries (nlog n))))"

lemma fetch_committed_board:
  assumes "calm w" and "LeaderAddr t \<noteq> []" and "wire_nodes w (LeaderAddr t) = Some n"
    and "log_ok (nlog n)" and "0 \<le> commitIndex n"
    and "\<forall>e \<in> set (entries (nlog n)). int64_ok (le_Index e) \<and> int64_ok (le_Term e) \<and> finite_stroke (le_Stroke e)"
  shows "run_state (replayHistory_fetch cluster_net t) w = ((t, board n), w)"
proof -
  have g: "GetSyncLog n 1 = drop 1 (take (nat (commitIndex n) + 1) (entries (nlog n)))"
    using GetSyncLog_eq [OF assms(4) _ assms(5), of 1] by simp
  have sub: "set (GetSyncLog n 1) \<subseteq> set (entries (nlog n))"
    unfolding g by (meson order_trans set_drop_subset set_take_subset)
  then have "dec_all dec_LogEntry zeroEntry (map enc_LogEntry (GetSyncLog n 1)) = Some (GetSyncLog n 1)"
    using assms(6) by (intro dec_all_map LogEntry_roundtrip) auto
  moreover have "filter finite_stroke (map le_Stroke (GetSyncLog n 1)) = map le_Stroke (GetSyncLog n 1)"
    using sub assms(6) by (intro filter_True) auto
  moreover have "Atoi ''1'' = Some 1" by code_simp
  moreover have "(wire_nodes w)(LeaderAddr t \<mapsto> n) = wire_nodes w" using assms(3) by auto
  moreover have "wire_fates w = []" using assms(1) by (simp add: calm_def)
  ultimately show ?thesis
    using assms(2,3)
    by (simp add: replayHistory_fetch_def cluster_net_def sync_request_def replica_serve_def serve_SyncLog_def reply_def
        replay_messages_def decode_content_def http_json_def Let_def g board_def)
qed

end
