(* ===== verification/GatewayRun.thy ===== *)
theory GatewayRun
  imports Gateway Timed
begin

text \<open>
  The gateway as a running process: the hub's event loop, the HTTP handler for commits, the tracker's poll, and the goroutines
  \<open>HandleWS\<close> starts for a client, \<open>readPump\<close>, \<open>writePump\<close> and \<open>replayHistory\<close>. An event is one atomic action of one of
  them, \<open>gw_exec\<close> says when it is enabled and what it does, and a run is any interleaving. Between the actions of one
  goroutine the others act: \<open>readPump\<close> forwards a stroke and reports a failure in two actions, \<open>writePump\<close> receives a message
  and writes it together with what is queued by then in two, \<open>replayHistory\<close> sends one message at a time.
  A forward, a poll or a fetch of the history with all the calls it makes is one action. The hub's cases are
  atomic: a broadcast does one send per client, and no other goroutine uses the channels of two clients. Reading and writing a
  connection may fail at any time. A panic in any of the goroutines ends the process.
\<close>

section \<open>State\<close>

datatype reader = Reading | Reporting string
datatype writer = Waiting | Holding json
datatype replay = Fetching | Sending "json list"

record 'w Gateway =
  gw_hub :: Hub
  gw_tracker :: Tracker
  gw_registering :: "nat set"
  gw_readers :: "nat \<rightharpoonup> reader"
  gw_writers :: "nat \<rightharpoonup> writer"
  gw_replays :: "nat \<rightharpoonup> replay"
  gw_crashed :: "crash option"
  gw_world :: 'w

definition gw_init :: "Tracker \<Rightarrow> 'w \<Rightarrow> 'w Gateway" where
  "gw_init t w = \<lparr>gw_hub = NewHub, gw_tracker = t, gw_registering = {}, gw_readers = Map.empty,
     gw_writers = Map.empty, gw_replays = Map.empty, gw_crashed = None, gw_world = w\<rparr>"

definition client :: "'w Gateway \<Rightarrow> nat \<Rightarrow> Client" where
  "client g c = the (store (gw_hub g) c)"

definition set_client :: "'w Gateway \<Rightarrow> nat \<Rightarrow> Client \<Rightarrow> 'w Gateway" where
  "set_client g c cl = g\<lparr>gw_hub := (gw_hub g)\<lparr>store := (store (gw_hub g))(c \<mapsto> cl)\<rparr>\<rparr>"

section \<open>Connections\<close>

text \<open>\<open>HandleWS\<close> makes the client and blocks on \<open>register\<close>; once the hub has taken it, the goroutines start.\<close>

definition HandleWS :: "'w Gateway \<Rightarrow> nat \<Rightarrow> 'w Gateway" where
  "HandleWS g c = (set_client g c newClient)\<lparr>gw_registering := insert c (gw_registering g)\<rparr>"

definition registered :: "'w Gateway \<Rightarrow> nat \<Rightarrow> 'w Gateway" where
  "registered g c = g\<lparr>gw_hub := Run_register (gw_hub g) c, gw_registering := gw_registering g - {c},
     gw_readers := (gw_readers g)(c \<mapsto> Reading), gw_writers := (gw_writers g)(c \<mapsto> Waiting),
     gw_replays := (gw_replays g)(c \<mapsto> Fetching)\<rparr>"

text \<open>The hub takes \<open>c\<close> from the goroutines waiting to unregister it.\<close>

definition unregistered :: "'w Gateway \<Rightarrow> nat \<Rightarrow> 'w Gateway" where
  "unregistered g c =
     (case Run_unregister ((gw_hub g)\<lparr>unregister_q := remove1 c (unregister_q (gw_hub g))\<rparr>) c of
        Inl p \<Rightarrow> g\<lparr>gw_crashed := Some p\<rparr>
      | Inr h \<Rightarrow> g\<lparr>gw_hub := h\<rparr>)"

definition dispatch :: "'w Gateway \<Rightarrow> nat list \<Rightarrow> 'w Gateway" where
  "dispatch g cs =
     (case Run_broadcast ((gw_hub g)\<lparr>broadcast := tl (broadcast (gw_hub g))\<rparr>) (hd (broadcast (gw_hub g))) cs of
        Inl p \<Rightarrow> g\<lparr>gw_crashed := Some p\<rparr>
      | Inr h \<Rightarrow> g\<lparr>gw_hub := h\<rparr>)"

section \<open>The goroutines of a client\<close>

text \<open>\<open>readPump\<close>: a message, the report of a failure (\<open>sendError\<close>), and the end.\<close>

definition read_message :: "'w net \<Rightarrow> 'w Gateway \<Rightarrow> nat \<Rightarrow> json option \<Rightarrow> 'w Gateway" where
  "read_message net g c body =
     (case run_state (readPump_message net (gw_tracker g) body) (gw_world g) of
        ((t, err), w) \<Rightarrow>
          g\<lparr>gw_tracker := t, gw_world := w,
            gw_readers := (gw_readers g)(c \<mapsto> (case err of None \<Rightarrow> Reading | Some msg \<Rightarrow> Reporting msg))\<rparr>)"

definition sendError :: "'w Gateway \<Rightarrow> nat \<Rightarrow> string \<Rightarrow> 'w Gateway" where
  "sendError g c msg =
     (case try_send (client g c) (errorMessage msg) of
        Inl p \<Rightarrow> g\<lparr>gw_crashed := Some p\<rparr>
      | Inr (_, cl) \<Rightarrow> (set_client g c cl)\<lparr>gw_readers := (gw_readers g)(c \<mapsto> Reading)\<rparr>)"

definition read_failed :: "'w Gateway \<Rightarrow> nat \<Rightarrow> 'w Gateway" where
  "read_failed g c = g\<lparr>gw_hub := (gw_hub g)\<lparr>unregister_q := unregister_q (gw_hub g) @ [c]\<rparr>,
     gw_readers := (gw_readers g)(c := None)\<rparr>"

text \<open>
  \<open>writePump\<close>: receive a message; write it with all that is queued by then as one text frame; a failed write; the
  channel closed and empty; a ping.
\<close>

definition write_take :: "'w Gateway \<Rightarrow> nat \<Rightarrow> 'w Gateway" where
  "write_take g c =
     (set_client g c ((client g c)\<lparr>send_q := tl (send_q (client g c))\<rparr>))
       \<lparr>gw_writers := (gw_writers g)(c \<mapsto> Holding (hd (send_q (client g c))))\<rparr>"

definition write_flush :: "'w Gateway \<Rightarrow> nat \<Rightarrow> json \<Rightarrow> 'w Gateway" where
  "write_flush g c m =
     (set_client g c ((client g c)\<lparr>send_q := [], conn_out := conn_out (client g c) @ [TextFrame (m # send_q (client g c))]\<rparr>))
       \<lparr>gw_writers := (gw_writers g)(c \<mapsto> Waiting)\<rparr>"

definition write_failed :: "'w Gateway \<Rightarrow> nat \<Rightarrow> 'w Gateway" where
  "write_failed g c = g\<lparr>gw_writers := (gw_writers g)(c := None)\<rparr>"

definition write_frame :: "'w Gateway \<Rightarrow> nat \<Rightarrow> frame \<Rightarrow> 'w Gateway" where
  "write_frame g c f = set_client g c ((client g c)\<lparr>conn_out := conn_out (client g c) @ [f]\<rparr>)"

text \<open>\<open>replayHistory\<close>: the fetch, and one iteration of its loop.\<close>

definition replay_fetch :: "'w net \<Rightarrow> 'w Gateway \<Rightarrow> nat \<Rightarrow> 'w Gateway" where
  "replay_fetch net g c =
     (case run_state (replayHistory_fetch net (gw_tracker g)) (gw_world g) of
        ((t, ms), w) \<Rightarrow> g\<lparr>gw_tracker := t, gw_world := w, gw_replays := (gw_replays g)(c \<mapsto> Sending ms)\<rparr>)"

definition replay_next :: "'w Gateway \<Rightarrow> nat \<Rightarrow> json list \<Rightarrow> 'w Gateway" where
  "replay_next g c ms =
     (case ms of
        [] \<Rightarrow> g\<lparr>gw_replays := (gw_replays g)(c := None)\<rparr>
      | m # ms' \<Rightarrow>
          (case try_send (client g c) m of
             Inl p \<Rightarrow> g\<lparr>gw_crashed := Some p\<rparr>
           | Inr (True, cl) \<Rightarrow> (set_client g c cl)\<lparr>gw_replays := (gw_replays g)(c \<mapsto> Sending ms')\<rparr>
           | Inr (False, _) \<Rightarrow> g\<lparr>gw_replays := (gw_replays g)(c := None)\<rparr>))"

section \<open>Runs\<close>

datatype 'w gw_event =
    Connect nat
  | Register nat
  | Unregister nat
  | Dispatch "nat list"
  | Commit HttpRequest
  | Poll
  | World 'w
  | ReadMessage nat "json option"
  | Report nat
  | ReadFail nat
  | Take nat
  | Flush nat
  | WriteFail nat
  | Finish nat
  | Ping nat
  | FetchLog nat
  | Replay nat

fun gw_enabled :: "'w Gateway \<Rightarrow> 'w gw_event \<Rightarrow> bool" where
  "gw_enabled g (Connect c) \<longleftrightarrow> store (gw_hub g) c = None"
| "gw_enabled g (Register c) \<longleftrightarrow> c \<in> gw_registering g"
| "gw_enabled g (Unregister c) \<longleftrightarrow> c \<in> set (unregister_q (gw_hub g))"
| "gw_enabled g (Dispatch cs) \<longleftrightarrow> broadcast (gw_hub g) \<noteq> [] \<and> distinct cs \<and> set cs = clients (gw_hub g)"
| "gw_enabled g (ReadMessage c _) \<longleftrightarrow> gw_readers g c = Some Reading"
| "gw_enabled g (Report c) \<longleftrightarrow> (case gw_readers g c of Some (Reporting _) \<Rightarrow> True | _ \<Rightarrow> False)"
| "gw_enabled g (ReadFail c) \<longleftrightarrow> gw_readers g c = Some Reading"
| "gw_enabled g (Take c) \<longleftrightarrow> gw_writers g c = Some Waiting \<and> send_q (client g c) \<noteq> []"
| "gw_enabled g (Flush c) \<longleftrightarrow> (case gw_writers g c of Some (Holding _) \<Rightarrow> True | _ \<Rightarrow> False)"
| "gw_enabled g (WriteFail c) \<longleftrightarrow> gw_writers g c \<noteq> None"
| "gw_enabled g (Finish c) \<longleftrightarrow>
     gw_writers g c = Some Waiting \<and> send_q (client g c) = [] \<and> send_closed (client g c)"
| "gw_enabled g (Ping c) \<longleftrightarrow> gw_writers g c = Some Waiting"
| "gw_enabled g (FetchLog c) \<longleftrightarrow> gw_replays g c = Some Fetching"
| "gw_enabled g (Replay c) \<longleftrightarrow> (case gw_replays g c of Some (Sending _) \<Rightarrow> True | _ \<Rightarrow> False)"
| "gw_enabled g _ \<longleftrightarrow> True"

fun gw_effect :: "'w net \<Rightarrow> 'w Gateway \<Rightarrow> 'w gw_event \<Rightarrow> 'w Gateway" where
  "gw_effect net g (Connect c) = HandleWS g c"
| "gw_effect net g (Register c) = registered g c"
| "gw_effect net g (Unregister c) = unregistered g c"
| "gw_effect net g (Dispatch cs) = dispatch g cs"
| "gw_effect net g (Commit r) = g\<lparr>gw_hub := fst (HandleCommit (gw_hub g) r)\<rparr>"
| "gw_effect net g Poll =
     (case run_state (PollOnce net (gw_tracker g)) (gw_world g) of (t, w) \<Rightarrow> g\<lparr>gw_tracker := t, gw_world := w\<rparr>)"
| "gw_effect net g (World w) = g\<lparr>gw_world := w\<rparr>"
| "gw_effect net g (ReadMessage c body) = read_message net g c body"
| "gw_effect net g (Report c) = sendError g c (case gw_readers g c of Some (Reporting msg) \<Rightarrow> msg | _ \<Rightarrow> [])"
| "gw_effect net g (ReadFail c) = read_failed g c"
| "gw_effect net g (Take c) = write_take g c"
| "gw_effect net g (Flush c) = (case gw_writers g c of Some (Holding m) \<Rightarrow> write_flush g c m | _ \<Rightarrow> g)"
| "gw_effect net g (WriteFail c) = write_failed g c"
| "gw_effect net g (Finish c) = write_failed (write_frame g c CloseFrame) c"
| "gw_effect net g (Ping c) = write_frame g c PingFrame"
| "gw_effect net g (FetchLog c) = replay_fetch net g c"
| "gw_effect net g (Replay c) = replay_next g c (case gw_replays g c of Some (Sending ms) \<Rightarrow> ms | _ \<Rightarrow> [])"

definition gw_exec :: "'w net \<Rightarrow> 'w gw_event \<Rightarrow> 'w Gateway \<Rightarrow> 'w Gateway option" where
  "gw_exec net e g = (if gw_crashed g = None \<and> gw_enabled g e then Some (gw_effect net g e) else None)"

abbreviation gw_run :: "'w net \<Rightarrow> 'w gw_event list \<Rightarrow> 'w Gateway \<Rightarrow> 'w Gateway option" where
  "gw_run net \<equiv> run_events (gw_exec net)"

lemma gw_exec_Some: "gw_exec net e g = Some g' \<longleftrightarrow> gw_crashed g = None \<and> gw_enabled g e \<and> g' = gw_effect net g e"
  by (auto simp: gw_exec_def)

section \<open>Well-formed gateways\<close>

text \<open>
  A channel is closed exactly when its client is neither registered nor about to be; queues respect their capacities; only
  known clients wait to be unregistered.
\<close>

definition hub_ok :: "nat set \<Rightarrow> Hub \<Rightarrow> bool" where
  "hub_ok reg h \<longleftrightarrow>
     finite (clients h) \<and> clients h \<union> reg \<subseteq> dom (store h) \<and> clients h \<inter> reg = {} \<and>
     (\<forall>c cl. store h c = Some cl \<longrightarrow>
        (send_closed cl \<longleftrightarrow> c \<notin> clients h \<and> c \<notin> reg) \<and> length (send_q cl) \<le> sendCap) \<and>
     set (unregister_q h) \<subseteq> dom (store h) - reg \<and> length (broadcast h) \<le> broadcastCap"

definition gw_ok :: "'w Gateway \<Rightarrow> bool" where
  "gw_ok g \<longleftrightarrow>
     hub_ok (gw_registering g) (gw_hub g) \<and>
     dom (gw_readers g) \<union> dom (gw_writers g) \<union> dom (gw_replays g) \<subseteq> dom (store (gw_hub g)) - gw_registering g \<and>
     gw_crashed g \<noteq> Some CloseOfClosedSend"

lemma hub_ok_client:
  assumes "hub_ok reg h" and "store h c = Some cl0" and "send_closed cl = send_closed cl0" and "length (send_q cl) \<le> sendCap"
  shows "hub_ok reg (h\<lparr>store := (store h)(c \<mapsto> cl)\<rparr>)"
  using assms by (auto simp: hub_ok_def)

lemma gw_ok_client:
  assumes "gw_ok g" and "store (gw_hub g) c \<noteq> None" and "send_closed cl = send_closed (client g c)"
    and "length (send_q cl) \<le> sendCap"
  shows "gw_ok (set_client g c cl)"
  using assms hub_ok_client [of "gw_registering g" "gw_hub g" c "client g c" cl]
  by (auto simp: gw_ok_def set_client_def client_def)

lemma gw_ok_queue: "gw_ok g \<Longrightarrow> store (gw_hub g) c \<noteq> None \<Longrightarrow> length (send_q (client g c)) \<le> sendCap"
  by (auto simp: gw_ok_def hub_ok_def client_def)

lemma gw_ok_goroutines:
  assumes "gw_ok g"
  shows "gw_readers g c \<noteq> None \<Longrightarrow> store (gw_hub g) c \<noteq> None \<and> c \<notin> gw_registering g"
    and "gw_writers g c \<noteq> None \<Longrightarrow> store (gw_hub g) c \<noteq> None \<and> c \<notin> gw_registering g"
    and "gw_replays g c \<noteq> None \<Longrightarrow> store (gw_hub g) c \<noteq> None \<and> c \<notin> gw_registering g"
  using assms by (auto simp: gw_ok_def)

lemma gw_ok_same_goroutines:
  assumes "gw_ok g" and "gw_registering g' = gw_registering g" and "gw_hub g' = gw_hub g"
    and "dom (gw_readers g') \<subseteq> dom (gw_readers g)" and "dom (gw_writers g') \<subseteq> dom (gw_writers g)"
    and "dom (gw_replays g') \<subseteq> dom (gw_replays g)" and "gw_crashed g' = gw_crashed g"
  shows "gw_ok g'"
  using assms unfolding gw_ok_def Un_subset_iff by simp (meson order_trans)

lemma try_send_client:
  assumes "try_send cl m = Inr (b, cl')"
  shows "cl' = (if b then queued m cl else cl)" and "b \<longleftrightarrow> length (send_q cl) < sendCap" and "\<not> send_closed cl"
    and "send_closed cl' = send_closed cl" and "length (send_q cl) \<le> sendCap \<Longrightarrow> length (send_q cl') \<le> sendCap"
  using assms by (auto simp: try_send_def chan_try_send_def queued_def split: if_splits)

lemma try_send_crash: "try_send cl m = Inl p \<Longrightarrow> p = SendOnClosedChannel \<and> send_closed cl"
  by (auto simp: try_send_def split: if_splits prod.splits)

subsection \<open>The hub keeps well-formed\<close>

lemma hub_ok_register: "hub_ok reg h \<Longrightarrow> c \<in> reg \<Longrightarrow> hub_ok (reg - {c}) (Run_register h c)"
  by (auto simp: hub_ok_def Run_register_def)

lemma hub_ok_unregister:
  assumes "hub_ok reg h" and "c \<in> set (unregister_q h)"
  shows "\<exists>h'. Run_unregister (h\<lparr>unregister_q := remove1 c (unregister_q h)\<rparr>) c = Inr h' \<and> hub_ok reg h' \<and>
    clients h' = clients h - {c} \<and> unregister_q h' = remove1 c (unregister_q h) \<and> broadcast h' = broadcast h \<and>
    dom (store h') = dom (store h) \<and> (\<forall>d. d \<noteq> c \<longrightarrow> store h' d = store h d)"
proof (cases "c \<in> clients h")
  case True
  then obtain cl where cl: "store h c = Some cl" "\<not> send_closed cl" using assms(1) by (auto simp: hub_ok_def)
  have "set (remove1 c (unregister_q h)) \<subseteq> set (unregister_q h)" by (rule set_remove1_subset)
  then show ?thesis
    using True cl assms by (auto simp: Run_unregister_def close_send_def hub_ok_def)
next
  case False
  have "set (remove1 c (unregister_q h)) \<subseteq> set (unregister_q h)" by (rule set_remove1_subset)
  then show ?thesis using False assms by (auto simp: Run_unregister_def hub_ok_def)
qed

lemma hub_dispatch:
  assumes "hub_ok reg h" and "distinct cs" and "set cs = clients h" and "broadcast h = m # q"
  shows "Run_broadcast (h\<lparr>broadcast := q\<rparr>) m cs =
    Inr (h\<lparr>broadcast := q, unregister_q := unregister_q h @ filter (\<lambda>c. \<not> has_room h c) cs,
           store := (\<lambda>c. if c \<in> clients h \<and> has_room h c then map_option (queued m) (store h c) else store h c)\<rparr>)"
proof -
  have "\<forall>c \<in> set cs. \<exists>cl. store (h\<lparr>broadcast := q\<rparr>) c = Some cl \<and> \<not> send_closed cl"
    using assms(1,3) by (auto simp: hub_ok_def)
  moreover have "has_room (h\<lparr>broadcast := q\<rparr>) = has_room h" by (auto simp: has_room_def fun_eq_iff)
  ultimately show ?thesis using Run_broadcast_open [OF assms(2)] assms(3) by (simp cong: if_cong)
qed

lemma hub_ok_dispatch:
  assumes "hub_ok reg h" and "set cs = clients h" and "broadcast h = m # q"
  shows "hub_ok reg (h\<lparr>broadcast := q, unregister_q := unregister_q h @ filter (\<lambda>c. \<not> has_room h c) cs,
           store := (\<lambda>c. if c \<in> clients h \<and> has_room h c then map_option (queued m) (store h c) else store h c)\<rparr>)"
  using assms by (auto simp: hub_ok_def has_room_def queued_def)

lemma HandleCommit_cases:
  obtains (dropped) "fst (HandleCommit h r) = h"
  | (queued) m where "fst (HandleCommit h r) = h\<lparr>broadcast := broadcast h @ [m]\<rparr>" "length (broadcast h) < broadcastCap"
proof -
  have "fst (HandleCommit h r) = h \<or>
    (\<exists>m. fst (HandleCommit h r) = h\<lparr>broadcast := broadcast h @ [m]\<rparr> \<and> length (broadcast h) < broadcastCap)"
    by (auto simp: HandleCommit_def Broadcast_def chan_try_send_def split: option.split)
  then show thesis using that by blast
qed

lemma gw_ok_init: "gw_ok (gw_init t w)"
  by (simp add: gw_ok_def hub_ok_def gw_init_def NewHub_def)

lemma dom_update_same: "f c \<noteq> None \<Longrightarrow> dom (f(c \<mapsto> x)) \<subseteq> dom f"
  by auto

lemma gw_ok_readers: "gw_ok g \<Longrightarrow> dom rs \<subseteq> dom (gw_readers g) \<Longrightarrow> gw_ok (g\<lparr>gw_readers := rs\<rparr>)"
  by (erule gw_ok_same_goroutines) simp_all

lemma gw_ok_replays: "gw_ok g \<Longrightarrow> dom rs \<subseteq> dom (gw_replays g) \<Longrightarrow> gw_ok (g\<lparr>gw_replays := rs\<rparr>)"
  by (erule gw_ok_same_goroutines) simp_all

lemma gw_ok_crash: "gw_ok g \<Longrightarrow> gw_ok (g\<lparr>gw_crashed := Some SendOnClosedChannel\<rparr>)"
  by (simp add: gw_ok_def)

lemma gw_ok_connect:
  assumes "gw_ok g" and "store (gw_hub g) c = None"
  shows "gw_ok (HandleWS g c)"
  using assms by (auto simp: gw_ok_def hub_ok_def HandleWS_def set_client_def newClient_def)

lemma gw_ok_registered: "gw_ok g \<Longrightarrow> c \<in> gw_registering g \<Longrightarrow> gw_ok (registered g c)"
  by (auto simp: gw_ok_def registered_def hub_ok_register) (auto simp: Run_register_def hub_ok_def)

lemma gw_ok_unregistered:
  assumes "gw_ok g" and "c \<in> set (unregister_q (gw_hub g))"
  shows "gw_ok (unregistered g c)"
proof -
  obtain h where "Run_unregister ((gw_hub g)\<lparr>unregister_q := remove1 c (unregister_q (gw_hub g))\<rparr>) c = Inr h"
      "hub_ok (gw_registering g) h" "dom (store h) = dom (store (gw_hub g))"
    using hub_ok_unregister [of "gw_registering g" "gw_hub g" c] assms by (auto simp: gw_ok_def)
  then show ?thesis using assms(1) by (auto simp: gw_ok_def unregistered_def)
qed

lemma dispatch_eq:
  assumes "gw_ok g" and "gw_enabled g (Dispatch cs)"
  obtains m q where "broadcast (gw_hub g) = m # q"
    and "dispatch g cs = g\<lparr>gw_hub := (gw_hub g)\<lparr>broadcast := q,
           unregister_q := unregister_q (gw_hub g) @ filter (\<lambda>c. \<not> has_room (gw_hub g) c) cs,
           store := (\<lambda>c. if c \<in> clients (gw_hub g) \<and> has_room (gw_hub g) c
                         then map_option (queued m) (store (gw_hub g) c) else store (gw_hub g) c)\<rparr>\<rparr>"
proof -
  obtain m q where "broadcast (gw_hub g) = m # q" using assms(2) by (cases "broadcast (gw_hub g)") auto
  moreover have "hub_ok (gw_registering g) (gw_hub g)" using assms(1) by (simp add: gw_ok_def)
  ultimately show thesis using that assms(2) hub_dispatch by (simp add: dispatch_def)
qed

lemma gw_ok_dispatch:
  assumes "gw_ok g" and "gw_enabled g (Dispatch cs)"
  shows "gw_ok (dispatch g cs)"
  using assms
proof (rule dispatch_eq)
  fix m q
  let ?h = "(gw_hub g)\<lparr>broadcast := q, unregister_q := unregister_q (gw_hub g) @ filter (\<lambda>c. \<not> has_room (gw_hub g) c) cs,
    store := (\<lambda>c. if c \<in> clients (gw_hub g) \<and> has_room (gw_hub g) c
                  then map_option (queued m) (store (gw_hub g) c) else store (gw_hub g) c)\<rparr>"
  assume m: "broadcast (gw_hub g) = m # q" and d: "dispatch g cs = g\<lparr>gw_hub := ?h\<rparr>"
  have "hub_ok (gw_registering g) ?h"
    using assms m by (intro hub_ok_dispatch) (simp_all add: gw_ok_def)
  moreover have "dom (store ?h) = dom (store (gw_hub g))" by (auto split: if_splits)
  ultimately show ?thesis unfolding d using assms(1) by (simp add: gw_ok_def)
qed

lemma gw_ok_commit: "gw_ok g \<Longrightarrow> gw_ok (g\<lparr>gw_hub := fst (HandleCommit (gw_hub g) r)\<rparr>)"
  by (cases rule: HandleCommit_cases [of "gw_hub g" r]) (simp_all add: gw_ok_def hub_ok_def)

lemma gw_ok_read_failed:
  assumes "gw_ok g" and "gw_readers g c \<noteq> None"
  shows "gw_ok (read_failed g c)"
proof -
  have "c \<in> dom (store (gw_hub g)) - gw_registering g" using gw_ok_goroutines(1) [OF assms] by auto
  then show ?thesis using assms(1) by (auto simp: gw_ok_def hub_ok_def read_failed_def)
qed

lemma gw_ok_sendError:
  assumes "gw_ok g" and "gw_readers g c \<noteq> None"
  shows "gw_ok (sendError g c msg)"
proof (cases "try_send (client g c) (errorMessage msg)")
  case (Inl p)
  then show ?thesis using gw_ok_crash [OF assms(1)] try_send_crash [OF Inl] by (simp add: sendError_def)
next
  case (Inr r)
  obtain b cl where r: "try_send (client g c) (errorMessage msg) = Inr (b, cl)" using Inr by (cases r) simp
  note c = gw_ok_goroutines(1) [OF assms]
  have "gw_ok (set_client g c cl)"
    using c try_send_client(4,5) [OF r] gw_ok_queue [OF assms(1)] by (intro gw_ok_client [OF assms(1)]) auto
  from gw_ok_readers [OF this, of "(gw_readers g)(c \<mapsto> Reading)"] show ?thesis
    using r assms(2) dom_update_same [of "gw_readers g" c] by (simp add: sendError_def set_client_def)
qed

lemma gw_ok_replay_next:
  assumes "gw_ok g" and "gw_replays g c \<noteq> None"
  shows "gw_ok (replay_next g c ms)"
proof -
  have stop: "gw_ok (g\<lparr>gw_replays := (gw_replays g)(c := None)\<rparr>)"
    by (rule gw_ok_replays [OF assms(1)]) auto
  have next_one: "gw_ok (replay_next g c (m # ms'))" for m ms'
  proof (cases "try_send (client g c) m")
    case (Inl p)
    then show ?thesis using gw_ok_crash [OF assms(1)] try_send_crash [OF Inl] by (simp add: replay_next_def)
  next
    case (Inr r)
    obtain b cl where r: "try_send (client g c) m = Inr (b, cl)" using Inr by (cases r) simp
    have "gw_ok (set_client g c cl)"
      using gw_ok_goroutines(3) [OF assms] try_send_client(4,5) [OF r] gw_ok_queue [OF assms(1)]
      by (intro gw_ok_client [OF assms(1)]) auto
    from gw_ok_replays [OF this, of "(gw_replays g)(c \<mapsto> Sending ms')"]
    have "gw_ok ((set_client g c cl)\<lparr>gw_replays := (gw_replays g)(c \<mapsto> Sending ms')\<rparr>)"
      using dom_update_same [of "gw_replays g" c] assms(2) by (simp add: set_client_def)
    then show ?thesis using r stop by (cases b) (simp_all add: replay_next_def)
  qed
  show ?thesis using stop next_one by (cases ms) (simp_all add: replay_next_def)
qed

lemma gw_ok_write:
  assumes "gw_ok g" and "gw_writers g c \<noteq> None" and "send_closed cl = send_closed (client g c)"
    and "length (send_q cl) \<le> length (send_q (client g c))" and "dom ws \<subseteq> dom (gw_writers g)"
  shows "gw_ok ((set_client g c cl)\<lparr>gw_writers := ws\<rparr>)"
proof -
  note c = gw_ok_goroutines(2) [OF assms(1,2)]
  have "gw_ok (set_client g c cl)"
    using c assms(3,4) gw_ok_queue [OF assms(1), of c] by (intro gw_ok_client [OF assms(1)]) auto
  then show ?thesis by (rule gw_ok_same_goroutines) (use assms(5) in \<open>simp_all add: set_client_def\<close>)
qed

lemma gw_ok_effect:
  assumes ok: "gw_ok g" and en: "gw_enabled g e"
  shows "gw_ok (gw_effect net g e)"
proof (cases e)
  case (Take c)
  then show ?thesis
    using en dom_update_same [of "gw_writers g" c] by (simp add: write_take_def gw_ok_write [OF ok])
next
  case (Flush c)
  then show ?thesis
    using en dom_update_same [of "gw_writers g" c]
    by (auto simp: write_flush_def gw_ok_write [OF ok] split: option.splits writer.splits)
next
  case (Ping c)
  let ?cl = "(client g c)\<lparr>conn_out := conn_out (client g c) @ [PingFrame]\<rparr>"
  have "gw_ok ((set_client g c ?cl)\<lparr>gw_writers := gw_writers g\<rparr>)"
    using en Ping by (intro gw_ok_write [OF ok]) simp_all
  then show ?thesis using Ping by (simp add: write_frame_def set_client_def)
next
  case (Finish c)
  let ?cl = "(client g c)\<lparr>conn_out := conn_out (client g c) @ [CloseFrame]\<rparr>"
  have "gw_ok ((set_client g c ?cl)\<lparr>gw_writers := (gw_writers g)(c := None)\<rparr>)"
    using en Finish by (intro gw_ok_write [OF ok]) auto
  then show ?thesis using Finish by (simp add: write_frame_def write_failed_def set_client_def)
next
  case (ReadMessage c body)
  then show ?thesis
    using en by (auto simp: read_message_def split: prod.splits if_splits intro!: gw_ok_same_goroutines [OF ok])
next
  case (WriteFail c)
  then show ?thesis by (auto simp: write_failed_def split: if_splits intro!: gw_ok_same_goroutines [OF ok])
next
  case (FetchLog c)
  then show ?thesis
    using en by (auto simp: replay_fetch_def split: prod.splits if_splits intro!: gw_ok_same_goroutines [OF ok])
next
  case Poll
  then show ?thesis by (auto split: prod.splits intro!: gw_ok_same_goroutines [OF ok])
next
  case (World w)
  then show ?thesis by (auto intro!: gw_ok_same_goroutines [OF ok])
qed (use ok en in \<open>auto simp: gw_ok_connect gw_ok_registered gw_ok_unregistered gw_ok_commit
      intro: gw_ok_dispatch gw_ok_read_failed gw_ok_sendError gw_ok_replay_next split: option.splits reader.splits replay.splits\<close>)

lemma gw_exec_ok: "gw_ok g \<Longrightarrow> gw_exec net e g = Some g' \<Longrightarrow> gw_ok g'"
  by (auto simp: gw_exec_def gw_ok_effect split: if_splits)

lemma gw_run_ok: "gw_ok g \<Longrightarrow> gw_run net es g = Some g' \<Longrightarrow> gw_ok g'"
  by (rule run_events_invariant [where P = gw_ok]) (auto intro: gw_exec_ok)

section \<open>What a client is given\<close>

text \<open>
  The messages written to a client's connection, the one its writer holds and the ones queued for it, in order; the clients that
  are served: registered, not about to be dropped, with a running writer; what an event adds to the hub's queue, and what the client's own reader and
  replay put into its queue: an error report, a message of the board, when there is room.
\<close>

fun frame_messages :: "frame \<Rightarrow> json list" where
  "frame_messages (TextFrame ms) = ms"
| "frame_messages _ = []"

definition held :: "'w Gateway \<Rightarrow> nat \<Rightarrow> json list" where
  "held g c = (case gw_writers g c of Some (Holding m) \<Rightarrow> [m] | _ \<Rightarrow> [])"

definition stream :: "'w Gateway \<Rightarrow> nat \<Rightarrow> json list" where
  "stream g c = concat (map frame_messages (conn_out (client g c))) @ held g c @ send_q (client g c)"

definition attached :: "'w Gateway \<Rightarrow> nat \<Rightarrow> bool" where
  "attached g c \<longleftrightarrow> c \<in> clients (gw_hub g) \<and> c \<notin> set (unregister_q (gw_hub g)) \<and> gw_writers g c \<noteq> None"

definition accepted :: "'w Gateway \<Rightarrow> 'w gw_event \<Rightarrow> json list" where
  "accepted g e =
     (case e of
        Commit r \<Rightarrow> drop (length (broadcast (gw_hub g))) (broadcast (fst (HandleCommit (gw_hub g) r)))
      | _ \<Rightarrow> [])"

definition has_space :: "'w Gateway \<Rightarrow> nat \<Rightarrow> bool" where
  "has_space g c \<longleftrightarrow> \<not> send_closed (client g c) \<and> length (send_q (client g c)) < sendCap"

definition reported :: "nat \<Rightarrow> 'w Gateway \<Rightarrow> 'w gw_event \<Rightarrow> json list" where
  "reported c g e =
     (case e of
        Report d \<Rightarrow> (case gw_readers g d of Some (Reporting msg) \<Rightarrow> if d = c \<and> has_space g c then [errorMessage msg] else [] | _ \<Rightarrow> [])
      | _ \<Rightarrow> [])"

definition replayed :: "nat \<Rightarrow> 'w Gateway \<Rightarrow> 'w gw_event \<Rightarrow> json list" where
  "replayed c g e =
     (case e of
        Replay d \<Rightarrow> (case gw_replays g d of Some (Sending (m # ms)) \<Rightarrow> if d = c \<and> has_space g c then [m] else [] | _ \<Rightarrow> [])
      | _ \<Rightarrow> [])"

definition own_messages :: "nat \<Rightarrow> 'w Gateway \<Rightarrow> 'w gw_event \<Rightarrow> json list" where
  "own_messages c g e = reported c g e @ replayed c g e"

text \<open>What the events of a run add up to.\<close>

fun gw_collect :: "('w Gateway \<Rightarrow> 'w gw_event \<Rightarrow> json list) \<Rightarrow> 'w net \<Rightarrow> 'w gw_event list \<Rightarrow> 'w Gateway \<Rightarrow> json list" where
  "gw_collect f net [] g = []"
| "gw_collect f net (e # es) g = f g e @ gw_collect f net es (gw_effect net g e)"

abbreviation gw_accepted :: "'w net \<Rightarrow> 'w gw_event list \<Rightarrow> 'w Gateway \<Rightarrow> json list" where
  "gw_accepted \<equiv> gw_collect accepted"

lemmas stream_defs = stream_def held_def client_def set_client_def

lemmas gw_effects = HandleWS_def registered_def Run_register_def set_client_def read_message_def sendError_def
  read_failed_def write_take_def write_flush_def write_failed_def write_frame_def replay_fetch_def replay_next_def

lemmas gw_splits = prod.split sum.split option.split writer.split bool.split list.split

lemma effect_hub_queue:
  assumes "gw_ok g" and "gw_enabled g e" and "\<And>cs. e \<noteq> Dispatch cs"
  shows "broadcast (gw_hub (gw_effect net g e)) = broadcast (gw_hub g) @ accepted g e"
proof (cases e)
  case (Unregister c)
  then show ?thesis
    using assms(1,2) hub_ok_unregister [of "gw_registering g" "gw_hub g" c]
    by (auto simp: unregistered_def accepted_def gw_ok_def)
next
  case (Commit r)
  then show ?thesis by (cases rule: HandleCommit_cases [of "gw_hub g" r]) (simp_all add: accepted_def)
qed (use assms(3) in \<open>auto simp: accepted_def gw_effects split: gw_splits\<close>)

lemma try_send_stream:
  assumes "try_send (client g d) m = Inr (b, cl)" and "store (gw_hub g) c \<noteq> None"
  shows "stream (set_client g d cl) c = stream g c @ (if d = c \<and> has_space g c then [m] else [])"
  using try_send_client(1-3) [OF assms(1)] assms(2) by (auto simp: stream_defs queued_def has_space_def)

lemma no_space: "try_send (client g c) m = Inl p \<Longrightarrow> \<not> has_space g c"
  by (auto simp: has_space_def dest: try_send_crash)

lemma stream_readers [simp]: "stream (g\<lparr>gw_readers := rs\<rparr>) c = stream g c"
  and stream_replays [simp]: "stream (g\<lparr>gw_replays := ps\<rparr>) c = stream g c"
  and stream_crashed [simp]: "stream (g\<lparr>gw_crashed := p\<rparr>) c = stream g c"
  by (simp_all add: stream_defs)

text \<open>
  Every action of a served client's gateway other than a broadcast leaves its stream, or extends it by what the client's own goroutines put there.
\<close>

lemma stream_sendError:
  assumes "store (gw_hub g) c \<noteq> None"
  shows "stream (sendError g d msg) c = stream g c @ (if d = c \<and> has_space g c then [errorMessage msg] else [])"
proof (cases "try_send (client g d) (errorMessage msg)")
  case (Inl p)
  then show ?thesis using no_space [OF Inl] by (auto simp: sendError_def)
next
  case (Inr r)
  then obtain b cl where "try_send (client g d) (errorMessage msg) = Inr (b, cl)" by (cases r) simp
  then show ?thesis using try_send_stream [OF _ assms] by (simp add: sendError_def)
qed

lemma stream_replay_next:
  assumes "store (gw_hub g) c \<noteq> None"
  shows "stream (replay_next g d (m # ms)) c = stream g c @ (if d = c \<and> has_space g c then [m] else [])"
proof (cases "try_send (client g d) m")
  case (Inl p)
  then show ?thesis using no_space [OF Inl] by (auto simp: replay_next_def)
next
  case (Inr r)
  then obtain b cl where s: "try_send (client g d) m = Inr (b, cl)" by (cases r) simp
  show ?thesis
  proof (cases b)
    case True
    then show ?thesis using try_send_stream [OF s assms] s by (simp add: replay_next_def)
  next
    case False
    then show ?thesis using try_send_client(2) [OF s] s by (auto simp: replay_next_def has_space_def)
  qed
qed

lemma stream_unregistered:
  assumes "gw_ok g" and "d \<in> set (unregister_q (gw_hub g))" and "c \<noteq> d"
  shows "stream (unregistered g d) c = stream g c"
proof -
  obtain h where "Run_unregister ((gw_hub g)\<lparr>unregister_q := remove1 d (unregister_q (gw_hub g))\<rparr>) d = Inr h"
      "store h c = store (gw_hub g) c"
    using hub_ok_unregister [of "gw_registering g" "gw_hub g" d] assms by (auto simp: gw_ok_def)
  then show ?thesis by (simp add: unregistered_def stream_defs)
qed

lemma stream_extends:
  assumes "gw_ok g" and "gw_enabled g e" and "\<And>cs. e \<noteq> Dispatch cs"
    and "attached g c" and "attached (gw_effect net g e) c"
  shows "stream (gw_effect net g e) c = stream g c @ own_messages c g e"
proof -
  have st: "store (gw_hub g) c \<noteq> None" "c \<notin> gw_registering g"
    using assms(1,4) by (auto simp: attached_def gw_ok_def hub_ok_def)
  note own = own_messages_def reported_def replayed_def
  show ?thesis
  proof (cases e)
    case (Report d)
    then obtain msg where "gw_readers g d = Some (Reporting msg)" using assms(2) by (auto split: option.splits reader.splits)
    then show ?thesis using Report stream_sendError [OF st(1)] by (simp add: own)
  next
    case (Replay d)
    then obtain ms where "gw_replays g d = Some (Sending ms)" using assms(2) by (auto split: option.splits replay.splits)
    then show ?thesis
      using Replay stream_replay_next [OF st(1)] by (cases ms) (simp_all add: own replay_next_def)
  next
    case (Unregister d)
    then have "d \<in> set (unregister_q (gw_hub g))" "c \<noteq> d" using assms(2,4) by (auto simp: attached_def)
    then show ?thesis using stream_unregistered [OF assms(1)] Unregister by (simp add: own)
  next
    case (WriteFail d)
    then show ?thesis using assms(5) by (auto simp: write_failed_def stream_defs attached_def own)
  next
    case (Finish d)
    then show ?thesis
      using assms(5) by (auto simp: write_failed_def write_frame_def stream_defs attached_def own split: if_splits)
  next
    case (Commit r)
    then show ?thesis by (cases rule: HandleCommit_cases [of "gw_hub g" r]) (simp_all add: stream_defs own)
  next
    case (Take d)
    then show ?thesis using assms(2) by (auto simp: write_take_def stream_defs own)
  next
    case (Flush d)
    then show ?thesis using assms(2) by (auto simp: write_flush_def stream_defs own split: option.splits writer.splits)
  qed (use assms(2,3) st in \<open>auto simp: HandleWS_def registered_def Run_register_def read_message_def read_failed_def
      write_frame_def replay_fetch_def stream_defs own split: prod.split writer.split option.split\<close>)
qed

lemma stream_dispatch:
  assumes "gw_ok g" and "gw_enabled g (Dispatch cs)" and "attached g c" and "attached (dispatch g cs) c"
  obtains m q where "broadcast (gw_hub g) = m # q" and "broadcast (gw_hub (dispatch g cs)) = q"
    and "stream (dispatch g cs) c = stream g c @ [m]"
proof (rule dispatch_eq [OF assms(1,2)])
  fix m q
  assume m: "broadcast (gw_hub g) = m # q"
    and d: "dispatch g cs = g\<lparr>gw_hub := (gw_hub g)\<lparr>broadcast := q,
           unregister_q := unregister_q (gw_hub g) @ filter (\<lambda>c. \<not> has_room (gw_hub g) c) cs,
           store := (\<lambda>c. if c \<in> clients (gw_hub g) \<and> has_room (gw_hub g) c
                         then map_option (queued m) (store (gw_hub g) c) else store (gw_hub g) c)\<rparr>\<rparr>"
  have "c \<in> clients (gw_hub g)" "has_room (gw_hub g) c" "store (gw_hub g) c \<noteq> None"
    using assms d by (auto simp: attached_def gw_ok_def hub_ok_def)
  then show thesis using that [OF m] by (auto simp: d stream_defs queued_def)
qed

text \<open>A client that stopped being served is never served again.\<close>

lemma detached_stays:
  assumes "gw_ok g" and "gw_enabled g e" and "store (gw_hub g) c \<noteq> None" and "c \<notin> gw_registering g" and "\<not> attached g c"
  shows "\<not> attached (gw_effect net g e) c"
proof (cases e)
  case (Unregister d)
  then show ?thesis
    using assms hub_ok_unregister [of "gw_registering g" "gw_hub g" d]
    by (auto simp: attached_def unregistered_def gw_ok_def)
next
  case (Dispatch cs)
  then have en: "gw_enabled g (Dispatch cs)" using assms(2) by simp
  show ?thesis
  proof (rule dispatch_eq [OF assms(1) en])
    fix m q
    assume "dispatch g cs = g\<lparr>gw_hub := (gw_hub g)\<lparr>broadcast := q,
           unregister_q := unregister_q (gw_hub g) @ filter (\<lambda>c. \<not> has_room (gw_hub g) c) cs,
           store := (\<lambda>c. if c \<in> clients (gw_hub g) \<and> has_room (gw_hub g) c
                         then map_option (queued m) (store (gw_hub g) c) else store (gw_hub g) c)\<rparr>\<rparr>"
    then show ?thesis using Dispatch assms(5) by (auto simp: attached_def)
  qed
next
  case (Commit r)
  then show ?thesis using assms by (cases rule: HandleCommit_cases [of "gw_hub g" r]) (auto simp: attached_def)
qed (use assms in \<open>auto simp: attached_def gw_effects split: gw_splits if_splits\<close>)

lemma known_stays:
  assumes "gw_ok g" and "gw_enabled g e" and "store (gw_hub g) c \<noteq> None" and "c \<notin> gw_registering g"
  shows "store (gw_hub (gw_effect net g e)) c \<noteq> None \<and> c \<notin> gw_registering (gw_effect net g e)"
proof (cases e)
  case (Unregister d)
  obtain h where "Run_unregister ((gw_hub g)\<lparr>unregister_q := remove1 d (unregister_q (gw_hub g))\<rparr>) d = Inr h"
      "dom (store h) = dom (store (gw_hub g))"
    using hub_ok_unregister [of "gw_registering g" "gw_hub g" d] assms(1,2) Unregister by (auto simp: gw_ok_def)
  then show ?thesis using Unregister assms(3,4) by (auto simp: unregistered_def dom_def)
next
  case (Dispatch cs)
  then have "gw_enabled g (Dispatch cs)" using assms(2) by simp
  from this have "store (gw_hub (dispatch g cs)) c \<noteq> None \<and> gw_registering (dispatch g cs) = gw_registering g"
    by (rule dispatch_eq [OF assms(1)]) (simp add: assms(3) del: not_None_eq)
  then show ?thesis using Dispatch assms(4) by simp
next
  case (Commit r)
  then show ?thesis using assms by (cases rule: HandleCommit_cases [of "gw_hub g" r]) auto
qed (use assms in \<open>auto simp: gw_effects split: gw_splits if_splits\<close>)

text \<open>What a step gives a served client: the message the hub broadcasts, or what the client's own goroutines send.\<close>

lemma served_step:
  assumes "gw_ok g" and "gw_enabled g e" and "attached g c" and "attached (gw_effect net g e) c"
  shows "\<exists>ds. stream (gw_effect net g e) c = stream g c @ ds @ own_messages c g e \<and>
           broadcast (gw_hub g) @ accepted g e = ds @ broadcast (gw_hub (gw_effect net g e))"
proof (cases "\<exists>cs. e = Dispatch cs")
  case True
  then obtain cs where e: "e = Dispatch cs" by blast
  show ?thesis
    by (rule stream_dispatch [OF assms(1), of cs c])
      (use assms e in \<open>auto simp: accepted_def own_messages_def reported_def replayed_def\<close>)
next
  case False
  then show ?thesis
    using stream_extends [OF assms(1,2) _ assms(3,4)] effect_hub_queue [OF assms(1,2)] by (intro exI [of _ "[]"]) auto
qed

lemma served_run:
  assumes "gw_ok g" and "store (gw_hub g) c \<noteq> None" and "c \<notin> gw_registering g"
    and "gw_run net es g = Some g'" and "attached g' c"
  shows "attached g c \<and>
    (\<exists>ns ds. stream g' c = stream g c @ ns \<and> ns \<in> shuffles ds (gw_collect (own_messages c) net es g) \<and>
      broadcast (gw_hub g) @ gw_accepted net es g = ds @ broadcast (gw_hub g'))"
  using assms
proof (induction es arbitrary: g)
  case Nil
  then show ?case by simp
next
  case (Cons e es)
  let ?g = "gw_effect net g e"
  from Cons.prems(4) have en: "gw_enabled g e" and run: "gw_run net es ?g = Some g'"
    by (auto simp: gw_exec_Some split: option.splits)
  have "attached ?g c \<and> (\<exists>ns ds. stream g' c = stream ?g c @ ns \<and> ns \<in> shuffles ds (gw_collect (own_messages c) net es ?g) \<and>
      broadcast (gw_hub ?g) @ gw_accepted net es ?g = ds @ broadcast (gw_hub g'))"
    using gw_ok_effect [OF Cons.prems(1) en, where net = net] known_stays [OF Cons.prems(1) en Cons.prems(2,3), where net = net]
      run Cons.prems(5) by (intro Cons.IH) auto
  then obtain ns2 ds2 where a2: "attached ?g c" and s2: "stream g' c = stream ?g c @ ns2"
      "ns2 \<in> shuffles ds2 (gw_collect (own_messages c) net es ?g)"
      and b2: "broadcast (gw_hub ?g) @ gw_accepted net es ?g = ds2 @ broadcast (gw_hub g')" by blast
  have a1: "attached g c" using detached_stays [OF Cons.prems(1) en Cons.prems(2,3)] a2 by blast
  then obtain ds1 where s1: "stream ?g c = stream g c @ ds1 @ own_messages c g e"
      and b1: "broadcast (gw_hub g) @ accepted g e = ds1 @ broadcast (gw_hub ?g)"
    using served_step [OF Cons.prems(1) en _ a2] by blast
  have "ds1 @ own_messages c g e @ ns2 \<in> shuffles (ds1 @ ds2) (gw_collect (own_messages c) net (e # es) g)"
    using append_shuffles_left [OF append_shuffles_right [OF s2(2)]] by simp
  moreover have "broadcast (gw_hub g) @ gw_accepted net (e # es) g = (ds1 @ ds2) @ broadcast (gw_hub g')"
    using b1 b2 by (metis append.assoc gw_collect.simps(2))
  ultimately show ?case using a1 s1 s2(1) by auto
qed

section \<open>The replay of the board\<close>







section \<open>Properties\<close>

text \<open>
  C16. The hub's channels. In every run of the gateway, however its goroutines interleave: a client's channel is closed
  exactly when the client is no longer registered, so no channel is ever closed twice; a registered client's channel is open;
  and no queue exceeds its capacity.
\<close>

theorem hub_channels_safe:
  assumes "gw_run net es (gw_init t w) = Some g"
  shows "gw_crashed g \<noteq> Some CloseOfClosedSend \<and> finite (clients (gw_hub g)) \<and>
    length (broadcast (gw_hub g)) \<le> 256 \<and>
    (\<forall>c \<in> clients (gw_hub g). \<exists>cl. store (gw_hub g) c = Some cl \<and> \<not> send_closed cl) \<and>
    (\<forall>c cl. store (gw_hub g) c = Some cl \<longrightarrow>
       length (send_q cl) \<le> 256 \<and> (send_closed cl \<longleftrightarrow> c \<notin> clients (gw_hub g) \<and> c \<notin> gw_registering g))"
proof -
  from gw_run_ok [OF gw_ok_init assms] have "hub_ok (gw_registering g) (gw_hub g)" "gw_crashed g \<noteq> Some CloseOfClosedSend"
    by (simp_all add: gw_ok_def)
  moreover have "\<exists>cl. store (gw_hub g) c = Some cl \<and> \<not> send_closed cl" if "c \<in> clients (gw_hub g)" for c
    using that calculation(1) by (auto simp: hub_ok_def)
  ultimately show ?thesis by (simp add: hub_ok_def sendCap_def broadcastCap_def)
qed

text \<open>Two networks for examples: one that is down, one where every call answers a log with one entry.\<close>

definition down_net :: "unit net" where
  "down_net addr r = State_Monad.return None"

definition log_net :: "unit net" where
  "log_net addr r = State_Monad.return (Some (http_json 200 (JArr [enc_LogEntry zeroEntry])))"

definition joined :: "unit Gateway" where
  "joined = the (gw_run down_net [Connect 0, Register 0] (gw_init demoTracker ()))"

definition commitEvent :: "unit gw_event" where
  "commitEvent = Commit (post_request ''/commit'' (enc_CommitNotification zeroCommitNotification))"

lemma joined_run: "gw_run down_net [Connect 0, Register 0] (gw_init demoTracker ()) = Some joined"
  and joined_client: "clients (gw_hub joined) = {0}"
  by (simp_all add: joined_def gw_exec_def HandleWS_def registered_def Run_register_def set_client_def gw_init_def NewHub_def)

theorem hub_channels_safe_witness: "\<exists>cl. store (gw_hub joined) 0 = Some cl \<and> \<not> send_closed cl"
  using hub_channels_safe [OF joined_run] joined_client by simp

text \<open>
  C6. Every stroke reaches a connected browser, once and in order. Take a registered client of a running gateway and let the gateway run on, in
  any interleaving. If the client is still served at the end, then its stream has been extended by an interleaving of two lists: the messages that
  were waiting in the hub or were accepted from a replica meanwhile, less those still waiting in the hub, each exactly once and in the order
  of their arrival; and what the client's own reader and replay have put into its queue, the error reports and the messages of the board.
\<close>

theorem strokes_reach_clients:
  assumes "gw_run net es0 (gw_init t w) = Some g" and "c \<in> clients (gw_hub g)"
    and "gw_run net es g = Some g'" and "attached g' c"
  shows "\<exists>ns ds. stream g' c = stream g c @ ns \<and> ns \<in> shuffles ds (gw_collect (own_messages c) net es g) \<and>
           broadcast (gw_hub g) @ gw_accepted net es g = ds @ broadcast (gw_hub g')"
proof -
  have ok: "gw_ok g" by (rule gw_run_ok [OF gw_ok_init assms(1)])
  then have "store (gw_hub g) c \<noteq> None" "c \<notin> gw_registering g" using assms(2) by (auto simp: gw_ok_def hub_ok_def)
  from served_run [OF ok this assms(3,4)] show ?thesis by blast
qed

lemma demo_broadcast:
  "\<exists>g'. gw_run down_net [commitEvent, Dispatch [0], Take 0, Flush 0] joined = Some g' \<and> attached g' 0 \<and>
     broadcast (gw_hub g') = [] \<and> stream joined 0 = [] \<and>
     gw_collect (own_messages 0) down_net [commitEvent, Dispatch [0], Take 0, Flush 0] joined = [] \<and>
     broadcast (gw_hub joined) @ gw_accepted down_net [commitEvent, Dispatch [0], Take 0, Flush 0] joined = [strokeMessage zeroStroke]"
proof -
  let ?h = "gw_hub joined" and ?m = "strokeMessage zeroStroke"
  have "int64_ok (cn_Index zeroCommitNotification)" "int64_ok (cn_Term zeroCommitNotification)"
    "finite_stroke (cn_Stroke zeroCommitNotification)" by code_simp+
  then have c: "fst (HandleCommit h (post_request ''/commit'' (enc_CommitNotification zeroCommitNotification))) =
      h\<lparr>broadcast := broadcast h @ [?m]\<rparr>" if "broadcast h = []" for h
    using that by (simp add: HandleCommit_def post_request_def decode_body_def CommitNotification_roundtrip Broadcast_def
        chan_try_send_def broadcastCap_def) (simp add: zeroCommitNotification_def)
  show ?thesis
    by (simp add: joined_def gw_exec_def gw_effects gw_init_def NewHub_def commitEvent_def c dispatch_def try_send_def
        chan_try_send_def newClient_def sendCap_def client_def attached_def stream_def held_def accepted_def
        own_messages_def reported_def replayed_def)
qed

theorem strokes_reach_clients_witness:
  "\<exists>g'. gw_run down_net [commitEvent, Dispatch [0], Take 0, Flush 0] joined = Some g' \<and>
     stream g' 0 = [strokeMessage zeroStroke]"
proof -
  obtain g' where g': "gw_run down_net [commitEvent, Dispatch [0], Take 0, Flush 0] joined = Some g'" "attached g' 0"
      "broadcast (gw_hub g') = []" "stream joined 0 = []"
      "gw_collect (own_messages 0) down_net [commitEvent, Dispatch [0], Take 0, Flush 0] joined = []"
      "broadcast (gw_hub joined) @ gw_accepted down_net [commitEvent, Dispatch [0], Take 0, Flush 0] joined =
        [strokeMessage zeroStroke]"
    using demo_broadcast by blast
  have "(0::nat) \<in> clients (gw_hub joined)" using joined_client by simp
  from strokes_reach_clients [OF joined_run this g'(1,2)] show ?thesis using g' by (auto simp: shuffles_commutes)
qed

text \<open>
  C17. What can bring the gateway down. The only panic a run of the gateway can reach is a send on a closed channel, by an error
  report or by a replay for a client that is no longer registered. The hub's own sends never panic.
\<close>

theorem gateway_crash_cause:
  assumes "gw_run net es (gw_init t w) = Some g" and "gw_exec net e g = Some g'" and "gw_crashed g' = Some p"
  shows "p = SendOnClosedChannel \<and> (\<exists>c. (e = Report c \<or> e = Replay c) \<and> c \<notin> clients (gw_hub g))"
proof -
  have ok: "gw_ok g" by (rule gw_run_ok [OF gw_ok_init assms(1)])
  from assms(2) have g': "g' = gw_effect net g e" and en: "gw_enabled g e" and up: "gw_crashed g = None"
    by (auto simp: gw_exec_def split: if_splits)
  have closed: "c \<notin> clients (gw_hub g)" if "send_closed (client g c)" for c
    using ok that by (force simp: gw_ok_def hub_ok_def client_def)
  show ?thesis
  proof (cases e)
    case (Report c)
    then show ?thesis using assms(3) up closed [of c]
      by (auto simp: g' sendError_def set_client_def dest: try_send_crash split: sum.splits)
  next
    case (Replay c)
    then show ?thesis using assms(3) up closed [of c]
      by (auto simp: g' replay_next_def set_client_def dest: try_send_crash
          split: sum.splits list.splits bool.splits option.splits replay.splits)
  next
    case (Unregister c)
    then show ?thesis using assms(3) up en ok hub_ok_unregister [of "gw_registering g" "gw_hub g" c]
      by (auto simp: g' unregistered_def gw_ok_def)
  next
    case (Dispatch cs)
    then have d: "gw_enabled g (Dispatch cs)" using en by simp
    have "gw_crashed (dispatch g cs) = gw_crashed g" by (rule dispatch_eq [OF ok d]) simp
    then show ?thesis using Dispatch assms(3) up g' by simp
  qed (use assms(3) up in \<open>simp_all add: g' gw_effects split: prod.splits option.splits writer.splits\<close>)
qed

lemma demo_fetch:
  "run_state (replayHistory_fetch log_net demoTracker) () = ((demoTracker, [strokeMessage zeroStroke]), ())"
proof -
  have "replay_messages (Some (http_json 200 (JArr [enc_LogEntry zeroEntry]))) = [strokeMessage zeroStroke]" by code_simp
  then show ?thesis by (simp add: replayHistory_fetch_def log_net_def demoTracker_def LeaderAddr_def)
qed

theorem gateway_crash_cause_witness:
  "\<exists>g g'. gw_run log_net [Connect 0, Register 0, FetchLog 0, ReadFail 0, Unregister 0] (gw_init demoTracker ()) = Some g \<and>
     gw_exec log_net (Replay 0) g = Some g' \<and> gw_crashed g' = Some SendOnClosedChannel \<and> 0 \<notin> clients (gw_hub g)"
proof -
  obtain g g' where g: "gw_run log_net [Connect 0, Register 0, FetchLog 0, ReadFail 0, Unregister 0] (gw_init demoTracker ()) = Some g"
      "gw_exec log_net (Replay 0) g = Some g'" "gw_crashed g' = Some SendOnClosedChannel"
    using demo_fetch
    by (simp add: gw_exec_def gw_effects gw_init_def NewHub_def unregistered_def Run_unregister_def close_send_def
        client_def newClient_def)
  from gateway_crash_cause [OF this] g show ?thesis by auto
qed

text \<open>
  C18. A browser that leaves early brings the gateway down. Whenever a client disconnects while its replay still has a message to
  send, the hub may close the client's channel before the replay goes on; the replay then sends on the closed channel,
  which panics, and with it the gateway ends for every client.
\<close>

theorem early_disconnect_crashes:
  assumes "gw_run net es (gw_init t w) = Some g" and "gw_crashed g = None" and "c \<in> clients (gw_hub g)"
    and "gw_readers g c = Some Reading" and "gw_replays g c = Some (Sending (m # ms))"
  shows "\<exists>g'. gw_run net [ReadFail c, Unregister c, Replay c] g = Some g' \<and> gw_crashed g' = Some SendOnClosedChannel"
proof -
  obtain cl where "store (gw_hub g) c = Some cl" "\<not> send_closed cl"
    using gw_run_ok [OF gw_ok_init assms(1)] assms(3) by (auto simp: gw_ok_def hub_ok_def)
  then show ?thesis
    using assms(2-5)
    by (simp add: gw_exec_def read_failed_def unregistered_def Run_unregister_def close_send_def replay_next_def client_def)
qed

theorem early_disconnect_crashes_witness:
  "\<exists>g g'. gw_run log_net [Connect 0, Register 0, FetchLog 0] (gw_init demoTracker ()) = Some g \<and>
     gw_run log_net [ReadFail 0, Unregister 0, Replay 0] g = Some g' \<and> gw_crashed g' = Some SendOnClosedChannel"
proof -
  obtain g where g: "gw_run log_net [Connect 0, Register 0, FetchLog 0] (gw_init demoTracker ()) = Some g"
      "gw_crashed g = None" "0 \<in> clients (gw_hub g)" "gw_readers g 0 = Some Reading"
      "gw_replays g 0 = Some (Sending [strokeMessage zeroStroke])"
    using demo_fetch by (simp add: gw_exec_def gw_effects gw_init_def NewHub_def)
  from early_disconnect_crashes [OF g] g(1) show ?thesis by blast
qed





end
