(* ===== verification/EndToEnd.thy ===== *)
theory EndToEnd
  imports SharedLog GatewayRun
begin

text \<open>
  The whole system: browsers, gateway and cluster. The strokes the gateway forwards are events of the cluster, and the
  messages its hub accepts from the replicas are entries of the shared log.
\<close>

section \<open>Forwarded strokes are cluster events\<close>

text \<open>The cluster as the gateway's network sees it.\<close>

definition wire_of :: "cluster \<Rightarrow> fate list \<Rightarrow> Wire" where
  "wire_of s fs = \<lparr>wire_nodes = (\<lambda>a. if a \<in> set (members s) then Some (nodes s a) else None), wire_fates = fs\<rparr>"

definition wired :: "cluster \<Rightarrow> Wire \<Rightarrow> bool" where
  "wired s w \<longleftrightarrow> wire_nodes w = (\<lambda>a. if a \<in> set (members s) then Some (nodes s a) else None)"

lemma wired_wire_of: "wired s w \<Longrightarrow> w = wire_of s (wire_fates w)"
  by (simp add: wired_def wire_of_def)

lemma submitted_event:
  assumes "wired s w" and "submitted stroke a w w'"
  shows "\<exists>s'. run [Stroke a stroke] s = Some s' \<and> wired s' w'"
proof -
  obtain n where n: "wire_nodes w a = Some n" "wire_nodes w' = (wire_nodes w)(a \<mapsto> fst (HandleStroke n stroke))"
    using assms(2) by (auto simp: submitted_def)
  then have a: "a \<in> set (members s)" "n = nodes s a" using assms(1) by (auto simp: wired_def split: if_splits)
  let ?s = "set_node s a (fst (HandleStroke n stroke))"
  have "run [Stroke a stroke] s = Some ?s" using a by simp
  moreover have "wired ?s w'" using assms(1) n(2) a by (auto simp: wired_def fun_eq_iff)
  ultimately show ?thesis by blast
qed

lemma attempt_events:
  assumes "wired s w" and "run_state (forwardToLeaderAddr cluster_net stroke a) w = (e, w')"
  obtains es s' where "length es \<le> 1" and "run es s = Some s'" and "wired s' w'" and "set es \<subseteq> {Stroke a stroke}"
    and "e = None \<longrightarrow> es \<noteq> []"
proof (cases "submitted stroke a w w'")
  case True
  from submitted_event [OF assms(1) this] obtain s' where "run [Stroke a stroke] s = Some s'" "wired s' w'" by blast
  then show thesis using that [of "[Stroke a stroke]" s'] by simp
next
  case False
  then have "wired s w'" "e \<noteq> None" using forward_attempt [OF assms(2)] assms(1) by (auto simp: wired_def)
  then show thesis using that [of "[]" s] by simp
qed

text \<open>
  C15. The gateway drives the cluster only through its events. Forwarding a stroke, with any calls lost on the way, takes the
  cluster through at most two stroke events: what holds of every run of the cluster holds with the gateway attached.
\<close>

theorem forward_is_cluster_run:
  assumes "run_state (forwardToLeader cluster_net t stroke) (wire_of s fs) = ((t', e), w')"
  shows "\<exists>es s'. length es \<le> 2 \<and> run es s = Some s' \<and> later s (length es) s' \<and> w' = wire_of s' (wire_fates w') \<and>
           (\<forall>ev \<in> set es. \<exists>a. ev = Stroke a stroke) \<and> (e = None \<longrightarrow> es \<noteq> [])"
proof -
  have w: "wired s (wire_of s fs)" by (simp add: wired_def wire_of_def)
  from assms have "\<exists>es s'. length es \<le> 2 \<and> run es s = Some s' \<and> wired s' w' \<and> (\<forall>ev \<in> set es. \<exists>a. ev = Stroke a stroke) \<and>
      (e = None \<longrightarrow> es \<noteq> [])"
  proof (cases rule: forward_cases)
    case first
    from attempt_events [OF w first(3)] obtain es s' where
      "length es \<le> 1" "run es s = Some s'" "wired s' w'" "set es \<subseteq> {Stroke (LeaderAddr t) stroke}" "es \<noteq> []" by metis
    then show ?thesis by (intro exI [of _ es] exI [of _ s']) auto
  next
    case (retry e1 w1 w2)
    obtain es1 s1 where
      1: "length es1 \<le> 1" "run es1 s = Some s1" "wired s1 w1" "set es1 \<subseteq> {Stroke (LeaderAddr t) stroke}"
      by (rule attempt_events [OF w retry(1)])
    have "wired s1 w2" using 1(3) PollOnce_keeps_nodes [OF retry(2)] by (simp add: wired_def)
    then obtain es2 s' where
      2: "length es2 \<le> 1" "run es2 s1 = Some s'" "wired s' w'" "set es2 \<subseteq> {Stroke (LeaderAddr t') stroke}" "e = None \<longrightarrow> es2 \<noteq> []"
      by (rule attempt_events [OF _ retry(3)])
    have "run (es1 @ es2) s = Some s'" using 1(2) 2(2) by (simp add: run_events_append)
    then show ?thesis using 1 2 by (intro exI [of _ "es1 @ es2"] exI [of _ s']) auto
  qed
  then obtain es s' where es: "length es \<le> 2" "run es s = Some s'" "wired s' w'"
      "\<forall>ev \<in> set es. \<exists>a. ev = Stroke a stroke" "e = None \<longrightarrow> es \<noteq> []" by blast
  show ?thesis using es run_later [OF es(2)] wired_wire_of [OF es(3)] by blast
qed

theorem forward_is_cluster_run_witness:
  "\<exists>es s'. length es \<le> 2 \<and> run es (after electionRun) = Some s' \<and>
     snd (run_state (forwardToLeader cluster_net demoTracker demoStroke) (wire_of (after electionRun) [])) =
       wire_of s' (wire_fates (snd (run_state (forwardToLeader cluster_net demoTracker demoStroke) (wire_of (after electionRun) []))))"
proof -
  obtain t' e w' where r: "run_state (forwardToLeader cluster_net demoTracker demoStroke) (wire_of (after electionRun) []) = ((t', e), w')"
    by (metis surj_pair)
  from forward_is_cluster_run [OF r] r show ?thesis by auto
qed

section \<open>Browsers see committed strokes\<close>

lemma CommitNotification_reads_back:
  "dec_CommitNotification (enc_CommitNotification c) zeroCommitNotification = Some x \<Longrightarrow> x = c"
  by (auto simp: dec_CommitNotification_def enc_CommitNotification_def codec zeroCommitNotification_def
      StrokeEvent_roundtrip split: if_splits option.splits)

lemma accepted_notification:
  assumes "m \<in> set (accepted g (Commit (post_request ''/commit'' (enc_CommitNotification cn))))"
  shows "m = strokeMessage (cn_Stroke cn)"
  using assms
  by (auto simp: accepted_def HandleCommit_def post_request_def decode_body_def Broadcast_def chan_try_send_def
      split: option.splits if_splits dest: CommitNotification_reads_back)

lemma accepted_other: "m \<in> set (accepted g e) \<Longrightarrow> \<exists>r. e = Commit r"
  by (auto simp: accepted_def split: gw_event.splits)

lemma gw_accepted_source:
  fixes es :: "'w gw_event list"
  shows "m \<in> set (gw_accepted net es g) \<Longrightarrow> \<exists>(g' :: 'w Gateway) r. Commit r \<in> set es \<and> m \<in> set (accepted g' (Commit r))"
proof (induction es arbitrary: g)
  case (Cons e es)
  show ?case
  proof (cases "m \<in> set (accepted g e)")
    case True
    then obtain r where "e = Commit r" using accepted_other by blast
    then show ?thesis using True by (intro exI [of _ g] exI [of _ r]) simp
  next
    case False
    then have "m \<in> set (gw_accepted net es (gw_effect net g e))" using Cons.prems by simp
    from Cons.IH [OF this] show ?thesis by auto
  qed
qed simp

text \<open>
  C5. Browsers see committed strokes only. Take any state of the cluster, and any run of the gateway whose commit requests are
  notifications the replicas have posted by then, each delivered any number of times or never: every message the hub accepts
  for broadcast carries the stroke of an entry of the shared log.
\<close>

theorem browsers_see_committed:
  fixes es :: "'w gw_event list"
  assumes "deployment_ok d" and "reachable d k s" and "k \<le> nat max_int"
    and "gw_run net es (gw_init t w) = Some g"
    and "\<forall>r. Commit r \<in> set es \<longrightarrow> (\<exists>a cn. (a, cn) \<in> set (notified s) \<and> r = post_request ''/commit'' (enc_CommitNotification cn))"
    and "m \<in> set (gw_accepted net es (gw_init t w))"
  shows "\<exists>i. 0 < i \<and> i < length (sl_log (shared_of s)) \<and> m = strokeMessage (le_Stroke (sl_log (shared_of s) ! i))"
proof -
  obtain g' :: "'w Gateway" and r where r: "Commit r \<in> set es" "m \<in> set (accepted g' (Commit r))" using gw_accepted_source [OF assms(6)] by blast
  then obtain a cn where cn: "(a, cn) \<in> set (notified s)" "r = post_request ''/commit'' (enc_CommitNotification cn)"
    using assms(5) by blast
  have m: "m = strokeMessage (cn_Stroke cn)" using accepted_notification r(2) cn(2) by blast
  obtain h where I: "invs d k s h" "cinv s h" using reachable_invs [OF assms(2,1,3)] by blast
  note N = notice_in_log [OF I cn(1)]
  let ?i = "nat (cn_Index cn)" and ?k = "known_log (nodes s a)"
  have e: "?i < length (entries (nlog (nodes s a)))" "entries (nlog (nodes s a)) ! ?i = notice_entry cn"
    using N(1,5) by (auto simp: GetEntry_def split: if_splits)
  then have "?i < length ?k" "?k ! ?i = notice_entry cn" using N(4) by (simp_all add: known_log_def)
  moreover have "prefix ?k (sl_log (shared_of s))"
    by (rule known_log_prefix_shared [OF I notified_by_members [OF assms(2) cn(1)]])
  ultimately have "?i < length (sl_log (shared_of s))" "sl_log (shared_of s) ! ?i = notice_entry cn"
    by (auto simp: prefix_def nth_append)
  then show ?thesis using N(1) m by (intro exI [of _ ?i]) (simp add: notice_entry_def)
qed

text \<open>The notification of the demonstration run, delivered twice.\<close>

definition demoNotice :: CommitNotification where
  "demoNotice = \<lparr>cn_Stroke = demoStroke, cn_Index = 1, cn_Term = 1\<rparr>"

definition noticeRun :: "unit gw_event list" where
  "noticeRun = [Commit (post_request ''/commit'' (enc_CommitNotification demoNotice)),
     Commit (post_request ''/commit'' (enc_CommitNotification demoNotice))]"

lemma noticeRun_accepted:
  "\<exists>g. gw_run down_net noticeRun (gw_init demoTracker ()) = Some g \<and>
       strokeMessage demoStroke \<in> set (gw_accepted down_net noticeRun (gw_init demoTracker ()))"
proof -
  have "int64_ok (cn_Index demoNotice)" "int64_ok (cn_Term demoNotice)" "finite_stroke (cn_Stroke demoNotice)" by code_simp+
  then have c: "fst (HandleCommit h (post_request ''/commit'' (enc_CommitNotification demoNotice))) =
      h\<lparr>broadcast := broadcast h @ [strokeMessage demoStroke]\<rparr>" if "broadcast h = []" for h
    using that by (simp add: HandleCommit_def post_request_def decode_body_def CommitNotification_roundtrip Broadcast_def
        chan_try_send_def broadcastCap_def) (simp add: demoNotice_def)
  then show ?thesis by (simp add: noticeRun_def gw_exec_def gw_init_def NewHub_def accepted_def c)
qed

theorem browsers_see_committed_witness:
  "\<exists>i. 0 < i \<and> i < length (sl_log (shared_of (after commitRun))) \<and>
       strokeMessage demoStroke = strokeMessage (le_Stroke (sl_log (shared_of (after commitRun)) ! i))"
proof -
  obtain g where g: "gw_run down_net noticeRun (gw_init demoTracker ()) = Some g"
      "strokeMessage demoStroke \<in> set (gw_accepted down_net noticeRun (gw_init demoTracker ()))"
    using noticeRun_accepted by blast
  have "(''r1:9001'', demoNotice) \<in> set (notified (after commitRun))" by (simp add: commitRun_state demoNotice_def)
  then have "\<forall>r. Commit r \<in> set noticeRun \<longrightarrow> (\<exists>a cn. (a, cn) \<in> set (notified (after commitRun)) \<and>
      r = post_request ''/commit'' (enc_CommitNotification cn))"
    by (auto simp: noticeRun_def)
  from browsers_see_committed [OF trio_ok commitRun_reachable runs_short(2) g(1) this g(2)] show ?thesis .
qed

end
