(* ===== verification/CatchUp.thy ===== *)
theory CatchUp
  imports Replication LogMatching
begin

text \<open>
  How a leader brings a follower up to date. One round is \<open>sendAppendEntries\<close> with the follower's
  \<open>HandleAppendEntries\<close> as the transport. A refused round moves the leader's \<open>nextIndex\<close> for the follower
  strictly down, and at the latest at position 1 the consistency check succeeds, so the loop of
  rounds ends with the follower holding the leader's whole log.
\<close>

definition replicate_round :: "string \<Rightarrow> Node \<times> Node \<Rightarrow> Node \<times> Node" where
  "replicate_round p lf =
     (case lf of (l, f) \<Rightarrow>
        (case appendEntriesRequest l p of
           None \<Rightarrow> (l, f)
         | Some req \<Rightarrow>
             (case HandleAppendEntries f req of
                (f', Inl _) \<Rightarrow> (l, f')
              | (f', Inr resp) \<Rightarrow> (appendEntriesAnswer l p req resp, f'))))"

lemma replicate_round_is_sendAppendEntries:
  "fst (replicate_round p (l, f)) =
     sendAppendEntries (\<lambda>_ req. case snd (HandleAppendEntries f req) of Inl _ \<Rightarrow> None | Inr r \<Rightarrow> Some r) l p"
  by (auto simp: replicate_round_def sendAppendEntries_def split: option.splits prod.splits sum.splits)

definition can_follow :: "Node \<Rightarrow> Node \<Rightarrow> bool" where
  "can_follow l f \<longleftrightarrow>
     nstate l = Leader \<and> log_ok (nlog l) \<and> log_ok (nlog f) \<and> currentTerm f \<le> currentTerm l \<and>
     matching (entries (nlog f)) (entries (nlog l)) \<and>
     take (Suc (nat (commitIndex f))) (entries (nlog f)) = take (Suc (nat (commitIndex f))) (entries (nlog l))"

lemma can_followD:
  assumes "can_follow l f"
  shows "nstate l = Leader" and "log_ok (nlog l)" and "log_ok (nlog f)" and "currentTerm f \<le> currentTerm l"
    and "matching (entries (nlog f)) (entries (nlog l))"
    and "take (nat (commitIndex f) + 1) (entries (nlog f)) = take (nat (commitIndex f) + 1) (entries (nlog l))"
  using assms by (simp_all add: can_follow_def)

text \<open>The request of a round, with the leader's log cut at \<open>nextIndex\<close>.\<close>

lemma round_request:
  assumes "nstate l = Leader" and "nextIndex l p = Some i" and "1 \<le> i" and "i \<le> int (length (entries (nlog l)))"
  obtains req where "appendEntriesRequest l p = Some req" and "ar_Term req = currentTerm l"
    and "ar_PrevLogIndex req = i - 1" and "ar_PrevLogTerm req = le_Term (entries (nlog l) ! nat (i - 1))"
    and "ar_Entries req = slice (nat i) (length (entries (nlog l)) - nat i) (entries (nlog l))"
proof -
  have "GetFrom (nlog l) i = drop (nat i) (entries (nlog l))" using assms(3) by (simp add: rl.get_from_eq)
  then show thesis
    using that assms by (simp add: appendEntriesRequest_def Let_def Term_def slice_def)
qed

lemma prevConflict_None_prefix:
  assumes "prevConflict (nlog f) req = None" and "1 \<le> i" and "i \<le> int (length ls)" and "ar_PrevLogIndex req = i - 1"
    and "ar_PrevLogTerm req = le_Term (ls ! nat (i - 1))" and "matching (entries (nlog f)) ls"
    and "log_ok (nlog f)" and "hd ls = sentinel"
  shows "nat i \<le> length (entries (nlog f))" and "take (nat i) (entries (nlog f)) = take (nat i) ls"
proof -
  let ?es = "entries (nlog f)"
  have "nat i \<le> length ?es \<and> take (nat i) ?es = take (nat i) ls"
  proof (cases "i = 1")
    case True
    have ls: "ls \<noteq> []" using True assms(3) by auto
    have "take 1 ?es = [sentinel]" "0 < length ?es"
      using assms(7) by (cases ?es; simp add: log_ok_def)+
    moreover have "take 1 ls = [sentinel]" using assms(8) ls by (cases ls) simp_all
    ultimately show ?thesis using True by (simp add: Suc_le_eq)
  next
    case False
    then have "nat (i - 1) < length ?es" "le_Term (?es ! nat (i - 1)) = le_Term (ls ! nat (i - 1))"
      using assms(1,2,4,5) by (auto simp: prevConflict_def GetEntry_def split: if_splits)
    moreover have "nat (i - 1) < length ls" using assms(2,3) by simp
    ultimately have "take (Suc (nat (i - 1))) ?es = take (Suc (nat (i - 1))) ls"
      using matchingD [OF assms(6)] by blast
    moreover have "Suc (nat (i - 1)) = nat i" using assms(2) by simp
    ultimately show ?thesis using \<open>nat (i - 1) < length ?es\<close> by simp
  qed
  then show "nat i \<le> length ?es" "take (nat i) ?es = take (nat i) ls" by simp_all
qed

lemma round_success:
  assumes f: "can_follow l f" and i: "nextIndex l p = Some i" "1 \<le> i" "i \<le> int (length (entries (nlog l)))"
    and req: "appendEntriesRequest l p = Some req" and pc: "prevConflict (nlog f) req = None"
  shows "take (length (entries (nlog l))) (entries (nlog (snd (replicate_round p (l, f))))) = entries (nlog l)"
    and "nlog (fst (replicate_round p (l, f))) = nlog l"
proof -
  note F = can_followD [OF f]
  let ?ls = "entries (nlog l)" and ?es = "entries (nlog f)" and ?m = "length (entries (nlog l)) - nat i"
  have R: "ar_Term req = currentTerm l" "ar_PrevLogIndex req = i - 1"
      "ar_PrevLogTerm req = le_Term (?ls ! nat (i - 1))" "ar_Entries req = slice (nat i) ?m ?ls"
    using round_request [OF F(1) i] req by fastforce+
  have ix: "indexed ?ls" "hd ?ls = sentinel" using F(2) by (simp_all add: log_ok_def)
  note P = prevConflict_None_prefix [OF pc i(2,3) R(2,3) F(5,3) ix(2)]
  have len: "nat i + ?m = length ?ls" using i(2,3) by simp
  have "AppendEntries (nlog f) (ar_Entries req) (commitIndex f) =
        ((nlog f)\<lparr>entries := merged (nat i) ?m ?es ?ls\<rparr>, None)"
    unfolding R(4) by (rule AppendEntries_slice_no_panic [OF ix(1) P(1) F(6)])
  from HandleAppendEntries_store [OF _ pc this] F(4) R(1)
  have h: "HandleAppendEntries f req =
      (followCommit ((acceptLeader (fst (stepDown f (ar_Term req))) req)\<lparr>nlog := (nlog f)\<lparr>entries := merged (nat i) ?m ?es ?ls\<rparr>\<rparr>)
         (ar_LeaderCommit req), Inr \<lparr>ap_Term = ar_Term req, ap_Success = True, ap_ConflictIndex = 0\<rparr>)"
    by simp
  have "take (nat i + ?m) (merged (nat i) ?m ?es ?ls) = take (nat i + ?m) ?ls"
    by (rule merged_take(1) [OF F(5) P(2,1)]) (simp add: len)
  then show "take (length ?ls) (entries (nlog (snd (replicate_round p (l, f))))) = ?ls"
    using len by (simp add: replicate_round_def req h node_simps)
  show "nlog (fst (replicate_round p (l, f))) = nlog l" by (simp add: replicate_round_def req h node_simps)
qed

lemma round_refused:
  assumes f: "can_follow l f" and i: "nextIndex l p = Some i" "1 \<le> i" "i \<le> int (length (entries (nlog l)))"
    and req: "appendEntriesRequest l p = Some req" and pc: "prevConflict (nlog f) req = Some ci"
  obtains l' f' where "replicate_round p (l, f) = (l', f')" and "can_follow l' f'" and "nlog l' = nlog l"
    and "nextIndex l' p = Some ci" and "1 \<le> ci" and "ci < i"
proof -
  note F = can_followD [OF f]
  have R: "ar_Term req = currentTerm l" "ar_PrevLogIndex req = i - 1"
    using round_request [OF F(1) i] req by fastforce+
  have ci: "1 \<le> ci" "ci < i"
    using pc R(2) i(2) log_ok_length [OF F(3)]
    by (auto simp: prevConflict_def GetEntry_def LastIndex_def Suc_le_eq split: if_splits)
  let ?f = "acceptLeader (fst (stepDown f (ar_Term req))) req"
  let ?l = "l\<lparr>nextIndex := (nextIndex l)(p \<mapsto> ci)\<rparr>"
  have "HandleAppendEntries f req =
      (?f, Inr \<lparr>ap_Term = currentTerm f, ap_Success = False, ap_ConflictIndex = ci\<rparr>)"
    using F(4) R(1) by (intro HandleAppendEntries_conflict pc) simp
  then have "replicate_round p (l, f) = (?l, ?f)"
    using F(1,4) R(1) ci(1) by (simp add: replicate_round_def req appendEntriesAnswer_def stepDown_def Let_def)
  moreover have "can_follow ?l ?f"
    using f R(1) by (simp add: can_follow_def node_simps)
  ultimately show thesis using that ci by simp
qed

lemma catch_up_bounded:
  assumes "can_follow l f" and "nextIndex l p = Some i" and "1 \<le> i" and "i \<le> int (length (entries (nlog l)))"
  shows "\<exists>k l' f'. k \<le> nat i \<and> (replicate_round p ^^ k) (l, f) = (l', f') \<and> nlog l' = nlog l \<and>
           take (length (entries (nlog l))) (entries (nlog f')) = entries (nlog l)"
  using assms
proof (induction "nat i" arbitrary: l f i rule: less_induct)
  case less
  obtain req where req: "appendEntriesRequest l p = Some req"
    using round_request [OF can_followD(1) [OF less.prems(1)] less.prems(2-4)] by blast
  show ?case
  proof (cases "prevConflict (nlog f) req")
    case None
    obtain l' f' where r: "replicate_round p (l, f) = (l', f')" by fastforce
    with round_success [OF less.prems req None]
    have "nlog l' = nlog l \<and> take (length (entries (nlog l))) (entries (nlog f')) = entries (nlog l)" by simp
    then show ?thesis using r less.prems(3) by (intro exI [of _ 1]) auto
  next
    case (Some ci)
    obtain l' f' where r: "replicate_round p (l, f) = (l', f')" "can_follow l' f'" "nlog l' = nlog l"
        "nextIndex l' p = Some ci" "1 \<le> ci" "ci < i"
      by (rule round_refused [OF less.prems req Some])
    have "nat ci < nat i" "ci \<le> int (length (entries (nlog l')))" using r(3,5,6) less.prems(4) by simp_all
    from less.hyps [OF this(1) r(2,4,5) this(2)] obtain k l'' f'' where
      k: "k \<le> nat ci" "(replicate_round p ^^ k) (l', f') = (l'', f'')" "nlog l'' = nlog l'"
        "take (length (entries (nlog l'))) (entries (nlog f'')) = entries (nlog l')"
      by blast
    have "(replicate_round p ^^ Suc k) (l, f) = (l'', f'')" using k(2) r(1) by (simp add: funpow_swap1)
    moreover have "Suc k \<le> nat i" using k(1) \<open>nat ci < nat i\<close> by linarith
    ultimately show ?thesis using k(3,4) r(3) by metis
  qed
qed

text \<open>
  C22. Catching up ends. A leader and a follower whose logs match in the sense of Raft, the follower not ahead in
  its term and its committed entries part of the leader's log: after at most \<open>nextIndex\<close> rounds of
  \<open>sendAppendEntries\<close> the follower's log starts with the leader's whole log, no round panics, and
  the leader's log is unchanged.
\<close>

theorem catch_up_terminates:
  assumes "nstate l = Leader" and "log_ok (nlog l)" and "log_ok (nlog f)" and "currentTerm f \<le> currentTerm l"
    and "matching (entries (nlog f)) (entries (nlog l))"
    and "take (Suc (nat (commitIndex f))) (entries (nlog f)) = take (Suc (nat (commitIndex f))) (entries (nlog l))"
    and "nextIndex l p = Some i" and "1 \<le> i" and "i \<le> LastIndex (nlog l) + 1"
  shows "\<exists>k l' f'. k \<le> nat i \<and> (replicate_round p ^^ k) (l, f) = (l', f') \<and> nlog l' = nlog l \<and>
           take (length (entries (nlog l))) (entries (nlog f')) = entries (nlog l)"
  by (rule catch_up_bounded) (use assms in \<open>simp_all add: can_follow_def LastIndex_def\<close>)

definition leaderDemo :: Node where
  "leaderDemo = fst (HandleStroke (becomeLeader (becomeCandidate (fst (HandleAppendEntries voterDemo appendDemo)))) zeroStroke)"

theorem catch_up_terminates_witness:
  "\<exists>k l' f'. k \<le> nat 2 \<and> (replicate_round ''p1'' ^^ k) (leaderDemo, voterDemo) = (l', f') \<and>
     nlog l' = nlog leaderDemo \<and>
     take (length (entries (nlog leaderDemo))) (entries (nlog f')) = entries (nlog leaderDemo)"
proof (rule catch_up_terminates)
  have "entries (nlog voterDemo) = [sentinel]" "entries (nlog leaderDemo) ! 0 = sentinel"
    "entries (nlog leaderDemo) \<noteq> []" by code_simp+
  then show "matching (entries (nlog voterDemo)) (entries (nlog leaderDemo))"
    by (simp add: matching_def take_Suc hd_conv_nth)
  show "log_ok (nlog leaderDemo)"
    unfolding log_ok_def indexed_def by code_simp
  show "log_ok (nlog voterDemo)" by (simp add: voterDemo_def NewNode_def)
qed code_simp+

end
