(* ===== verification/NodeRun.thy ===== *)
theory NodeRun
  imports Replication Timed
begin

text \<open>
  The two goroutines that \<open>Node.Start\<close> launches, \<open>runElectionTimer\<close> (\<open>election.go\<close>) and \<open>runCommitApplier\<close>
  (\<open>node.go\<close>), in time. Each branch of their \<open>select\<close> statements is an operation that is \<open>None\<close> while the
  branch is not ready; when several are ready Go takes any of them, and so may a run. Everything else
  that happens to the node (handlers, the answers to vote requests, the loops of a leader) is the event
  \<open>NodeOp\<close>, which leaves an arbitrary node. A timer that is set (\<open>timerSet\<close>) has a value in its channel from \<open>timerAt\<close> on; once the value
  is received the timer is spent, and does not fire again before \<open>Reset\<close> sets it anew. A ticker has a value from \<open>tickAt\<close> on. A round of the
  applier is the sequence of its actions (\<open>applyCommitted_step\<close>), with anything in between.
\<close>

section \<open>The goroutines\<close>

text \<open>The goroutine of the timer waits in its \<open>select\<close>, waits for the election it has started, or has returned.\<close>

datatype phase = Selecting | Electing | Returned

record runState =
  rnode :: Node
  clock :: int
  cancelled :: bool
  timerAt :: int
  timerSet :: bool
  timerPhase :: phase
  tickAt :: int
  applierAt :: applier
  applierAlive :: bool

definition applierInterval :: int where
  "applierInterval = 50 * Millisecond"

text \<open>The results of \<open>rand.Int64N\<close> for the spread of the election timeout.\<close>

definition drawn :: "int \<Rightarrow> bool" where
  "drawn r \<longleftrightarrow> 0 \<le> r \<and> r < ElectionTimeoutMax - ElectionTimeoutMin"

definition Start :: "Node \<Rightarrow> int \<Rightarrow> int \<Rightarrow> runState" where
  "Start n now r =
     \<lparr>rnode = n, clock = now, cancelled = False,
      timerAt = now + randomElectionTimeout (\<lambda>_. r), timerSet = True, timerPhase = Selecting,
      tickAt = now + applierInterval, applierAt = AwaitTick, applierAlive = True\<rparr>"

text \<open>\<open>ctx.Done()\<close> or \<open>stopCh\<close> is closed.\<close>

definition leaving :: "runState \<Rightarrow> bool" where
  "leaving s \<longleftrightarrow> cancelled s \<or> stopped (rnode s)"

text \<open>\<open>timer.Reset(randomElectionTimeout())\<close>.\<close>

definition restartTimer :: "int \<Rightarrow> runState \<Rightarrow> runState" where
  "restartTimer r s = s\<lparr>timerAt := clock s + randomElectionTimeout (\<lambda>_. r), timerSet := True\<rparr>"

definition runElectionTimer_return :: "runState \<Rightarrow> runState option" where
  "runElectionTimer_return s =
     (if timerPhase s = Selecting \<and> leaving s then Some (s\<lparr>timerPhase := Returned\<rparr>) else None)"

definition runElectionTimer_reset :: "int \<Rightarrow> runState \<Rightarrow> runState option" where
  "runElectionTimer_reset r s =
     (if timerPhase s = Selecting \<and> drawn r then
        (case resetElectionCh (rnode s) of
           [] \<Rightarrow> None
         | _ # q \<Rightarrow> Some (restartTimer r (s\<lparr>rnode := (rnode s)\<lparr>resetElectionCh := q\<rparr>\<rparr>)))
      else None)"

definition runElectionTimer_fire :: "int \<Rightarrow> runState \<Rightarrow> runState option" where
  "runElectionTimer_fire r s =
     (if timerPhase s = Selecting \<and> drawn r \<and> timerSet s \<and> timerAt s \<le> clock s then
        let s1 = s\<lparr>timerSet := False\<rparr>
        in case electionTimerFired (rnode s1) of
             None \<Rightarrow> Some (restartTimer r s1)
           | Some (n', req) \<Rightarrow> Some (s1\<lparr>rnode := n', timerPhase := Electing\<rparr>)
      else None)"

text \<open>\<open>startElection\<close> has returned: the timer is set anew.\<close>

definition runElectionTimer_elected :: "int \<Rightarrow> runState \<Rightarrow> runState option" where
  "runElectionTimer_elected r s =
     (if timerPhase s = Electing \<and> drawn r then Some (restartTimer r (s\<lparr>timerPhase := Selecting\<rparr>))
      else None)"

text \<open>The applier waits in its \<open>select\<close>, or is somewhere in a round.\<close>

definition runCommitApplier_return :: "runState \<Rightarrow> runState option" where
  "runCommitApplier_return s =
     (if applierAlive s \<and> applierAt s = AwaitTick \<and> leaving s then Some (s\<lparr>applierAlive := False\<rparr>) else None)"

definition runCommitApplier_tick :: "runState \<Rightarrow> runState option" where
  "runCommitApplier_tick s =
     (if applierAlive s \<and> applierAt s = AwaitTick \<and> tickAt s \<le> clock s then
        Some (s\<lparr>applierAt := applyCommitted_begin (rnode s),
                tickAt := nextTick applierInterval (tickAt s) (clock s)\<rparr>)
      else None)"

definition runCommitApplier_act :: "runState \<Rightarrow> runState option" where
  "runCommitApplier_act s =
     (case applyCommitted_step (rnode s) (applierAt s) of
        None \<Rightarrow> None
      | Some (n, ap) \<Rightarrow> Some (s\<lparr>rnode := n, applierAt := ap\<rparr>))"

datatype revent =
    Elapse int
  | NodeOp Node
  | Cancel
  | TimerReturn
  | TimerReset int
  | TimerFire int
  | TimerElected int
  | ApplierReturn
  | ApplierTick
  | ApplierAct

fun node_exec :: "revent \<Rightarrow> runState \<Rightarrow> runState option" where
  "node_exec (Elapse d) s = (if 0 \<le> d then Some (s\<lparr>clock := clock s + d\<rparr>) else None)"
| "node_exec (NodeOp n) s = Some (s\<lparr>rnode := n\<rparr>)"
| "node_exec Cancel s = Some (s\<lparr>cancelled := True\<rparr>)"
| "node_exec TimerReturn s = runElectionTimer_return s"
| "node_exec (TimerReset r) s = runElectionTimer_reset r s"
| "node_exec (TimerFire r) s = runElectionTimer_fire r s"
| "node_exec (TimerElected r) s = runElectionTimer_elected r s"
| "node_exec ApplierReturn s = runCommitApplier_return s"
| "node_exec ApplierTick s = runCommitApplier_tick s"
| "node_exec ApplierAct s = runCommitApplier_act s"

abbreviation node_run :: "revent list \<Rightarrow> runState \<Rightarrow> runState option" where
  "node_run \<equiv> run_events node_exec"

text \<open>The time that passes in an event and in a run.\<close>

fun takes :: "revent \<Rightarrow> int" where
  "takes (Elapse d) = d"
| "takes _ = 0"

definition elapsed :: "revent list \<Rightarrow> int" where
  "elapsed es = sum_list (map takes es)"

section \<open>Time in a run\<close>

lemmas branch_defs =
  runElectionTimer_return_def runElectionTimer_reset_def runElectionTimer_fire_def
  runElectionTimer_elected_def runCommitApplier_return_def runCommitApplier_tick_def runCommitApplier_act_def restartTimer_def Let_def

lemma drawn_timeout:
  "drawn r \<Longrightarrow> ElectionTimeoutMin \<le> randomElectionTimeout (\<lambda>_. r) \<and>
    randomElectionTimeout (\<lambda>_. r) < ElectionTimeoutMax"
  by (simp add: drawn_def randomElectionTimeout_def Let_def)

lemma interval_pos: "0 < applierInterval" "0 < ElectionTimeoutMin"
  by (simp_all add: applierInterval_def ElectionTimeoutMin_def Millisecond_def)

lemmas event_splits = if_splits list.splits option.splits prod.splits

text \<open>The clock only moves in \<open>Elapse\<close>, and the timer is only ever set at least the smallest timeout ahead.\<close>

lemma node_exec_clock: "node_exec e s = Some s' \<Longrightarrow> clock s' = clock s + takes e \<and> 0 \<le> takes e"
  by (cases e) (auto simp: branch_defs split: event_splits)

lemma node_exec_timer: "node_exec e s = Some s' \<Longrightarrow> timerAt s' = timerAt s \<or> clock s + ElectionTimeoutMin \<le> timerAt s'"
  using drawn_timeout by (cases e) (auto simp: branch_defs split: event_splits)

interpretation election_timer: alarm_clock node_exec clock takes timerAt ElectionTimeoutMin
  by unfold_locales (blast dest: node_exec_clock node_exec_timer)+

text \<open>Between a setting of the timer and a firing, at least the smallest timeout passes.\<close>

lemma fire_after_timeout:
  assumes "clock s + ElectionTimeoutMin \<le> timerAt s" and "node_run (es @ [TimerFire r]) s = Some s'"
  shows "ElectionTimeoutMin \<le> elapsed es"
proof -
  obtain s1 where es: "node_run es s = Some s1" and f: "runElectionTimer_fire r s1 = Some s'"
    using assms(2) by (auto simp: run_events_append split: option.splits)
  have "timerAt s1 \<le> clock s1" using f by (auto simp: branch_defs split: if_splits)
  from election_timer.alarm_after_span [OF es assms(1) this] show ?thesis
    by (simp add: elapsed_def election_timer.total_def)
qed

text \<open>
  The timer and the ticker are never set further ahead than their intervals; and whenever the goroutine is in its \<open>select\<close>, the timer is set: every
  branch that receives from the timer sets it again.
\<close>

definition run_ok :: "runState \<Rightarrow> bool" where
  "run_ok s \<longleftrightarrow>
     timerAt s < clock s + ElectionTimeoutMax \<and> tickAt s \<le> clock s + applierInterval \<and> (timerPhase s = Selecting \<longrightarrow> timerSet s)"

lemma run_ok_Start: "drawn r \<Longrightarrow> run_ok (Start n now r)"
  using drawn_timeout [of r] by (simp add: run_ok_def Start_def)

lemma run_ok_exec:
  assumes "run_ok s" and "node_exec e s = Some s'"
  shows "run_ok s'"
  using assms drawn_timeout nextTick_bounds [OF interval_pos(1), of "tickAt s" "clock s"]
  by (cases e) (fastforce simp: run_ok_def branch_defs split: event_splits)+

lemma run_ok_run: "node_run es s = Some s' \<Longrightarrow> run_ok s \<Longrightarrow> run_ok s'"
  by (erule (1) run_events_invariant) (rule run_ok_exec)

section \<open>Elections\<close>

text \<open>A request of the node's own or a higher term leaves a reset signal, whatever the answer.\<close>

lemma append_request_signals:
  assumes "currentTerm n \<le> ar_Term req"
  shows "resetElectionCh (fst (HandleAppendEntries n req)) \<noteq> []"
proof -
  have "\<not> ar_Term req < currentTerm (fst (stepDown n (ar_Term req)))"
    using assms by (simp add: stepDown_def node_simps)
  then show ?thesis
    using acceptLeader_reset [of "fst (stepDown n (ar_Term req))" req]
    by (auto simp: HandleAppendEntries_def Let_def split: option.splits prod.splits)
qed

text \<open>
  C35. Heartbeats hold elections back. When a replica has handled an AppendEntries request of its own or a higher term, whatever its answer,
  the reset branch of its election timer is ready; and once that is taken, the timer does not fire again
  before 500 ms have passed, which is more than three heartbeat intervals, whatever else happens to the replica meanwhile.
\<close>

theorem heartbeat_postpones_election:
  assumes "currentTerm n \<le> ar_Term req" and "rnode s = fst (HandleAppendEntries n req)"
    and "timerPhase s = Selecting" and "drawn r"
  shows "\<exists>s1. node_exec (TimerReset r) s = Some s1 \<and>
           (\<forall>es r' s2. node_run (es @ [TimerFire r']) s1 = Some s2 \<longrightarrow>
              ElectionTimeoutMin \<le> elapsed es \<and> 3 * HeartbeatInterval < elapsed es)"
proof -
  let ?s1 = "restartTimer r (s\<lparr>rnode := (rnode s)\<lparr>resetElectionCh := tl (resetElectionCh (rnode s))\<rparr>\<rparr>)"
  have "node_exec (TimerReset r) s = Some ?s1"
    using append_request_signals [OF assms(1)] assms(2-4)
    by (auto simp: runElectionTimer_reset_def split: list.splits)
  moreover have "ElectionTimeoutMin \<le> elapsed es" if "node_run (es @ [TimerFire r']) ?s1 = Some s2" for es r' s2
    by (rule fire_after_timeout [OF _ that]) (use drawn_timeout [OF assms(4)] in \<open>simp add: restartTimer_def\<close>)
  moreover have "3 * HeartbeatInterval < ElectionTimeoutMin"
    by (simp add: HeartbeatInterval_def ElectionTimeoutMin_def Millisecond_def)
  ultimately show ?thesis by fastforce
qed

theorem heartbeat_postpones_election_witness:
  "\<exists>s1. node_exec (TimerReset 7) ((Start voterDemo 0 3)\<lparr>rnode := fst (HandleAppendEntries voterDemo appendDemo)\<rparr>) = Some s1 \<and>
     (\<forall>es r' s2. node_run (es @ [TimerFire r']) s1 = Some s2 \<longrightarrow>
        ElectionTimeoutMin \<le> elapsed es \<and> 3 * HeartbeatInterval < elapsed es)"
  by (rule heartbeat_postpones_election [of voterDemo appendDemo])
    (simp_all add: Start_def drawn_def voterDemo_def NewNode_def appendDemo_def
      ElectionTimeoutMax_def ElectionTimeoutMin_def Millisecond_def)

text \<open>
  C36. A replica that hears nothing stands for election. In every run of a node, however many elections, resets and turns as a leader it has
  behind it, while it is not the leader and its timer goroutine waits, the timer is set and its firing is less than 800 ms away; the firing makes the node a candidate of the next term
  that has voted for itself. If at that time no reset signal is pending and the node is not being stopped, the goroutine can do nothing else.
\<close>

theorem silent_replica_stands:
  assumes "node_run es (Start n now r0) = Some s" and "drawn r0" and "drawn r"
    and "timerPhase s = Selecting" and "nstate (rnode s) \<noteq> Leader"
  shows "\<exists>d s1 s'. 0 \<le> d \<and> d < 800 * Millisecond \<and> node_exec (Elapse d) s = Some s1 \<and>
           node_exec (TimerFire r) s1 = Some s' \<and> timerPhase s' = Electing \<and>
           nstate (rnode s') = Candidate \<and> votedFor (rnode s') = nid (rnode s) \<and>
           currentTerm (rnode s') = wrap64 (currentTerm (rnode s) + 1) \<and>
           (resetElectionCh (rnode s) = [] \<and> \<not> leaving s \<longrightarrow>
              node_exec TimerReturn s1 = None \<and> (\<forall>r'. node_exec (TimerReset r') s1 = None) \<and>
              (\<forall>r'. node_exec (TimerElected r') s1 = None))"
proof -
  let ?d = "max 0 (timerAt s - clock s)"
  let ?s1 = "s\<lparr>clock := clock s + ?d\<rparr>"
  let ?s2 = "?s1\<lparr>timerSet := False, rnode := becomeCandidate (rnode s), timerPhase := Electing\<rparr>"
  have ok: "run_ok s" by (rule run_ok_run [OF assms(1) run_ok_Start [OF assms(2)]])
  then have d: "0 \<le> ?d" "?d < 800 * Millisecond"
    by (auto simp: run_ok_def ElectionTimeoutMax_def Millisecond_def)
  have "node_exec (TimerFire r) ?s1 = Some ?s2"
    using ok assms(3-5) by (simp add: run_ok_def runElectionTimer_fire_def electionTimerFired_def startElection_begin_def Let_def)
  moreover have "resetElectionCh (rnode s) = [] \<and> \<not> leaving s \<longrightarrow>
      node_exec TimerReturn ?s1 = None \<and> (\<forall>r'. node_exec (TimerReset r') ?s1 = None) \<and>
      (\<forall>r'. node_exec (TimerElected r') ?s1 = None)"
    using assms(4) by (simp add: branch_defs leaving_def)
  ultimately show ?thesis
    using d
    by (intro exI [of _ ?d] exI [of _ ?s1] exI [of _ ?s2]) (simp add: node_simps)
qed

text \<open>A replica that has stood once without success.\<close>

definition onceStood :: runState where
  "onceStood = the (node_run [Elapse (700 * Millisecond), TimerFire 5, TimerElected 8] (Start voterDemo 0 3))"

lemma onceStood_run:
  "node_run [Elapse (700 * Millisecond), TimerFire 5, TimerElected 8] (Start voterDemo 0 3) = Some onceStood"
  "timerPhase onceStood = Selecting" "nstate (rnode onceStood) = Candidate"
  by (simp_all add: onceStood_def Start_def drawn_def voterDemo_def NewNode_def branch_defs electionTimerFired_def
      startElection_begin_def randomElectionTimeout_def becomeCandidate_def ElectionTimeoutMax_def ElectionTimeoutMin_def Millisecond_def)

theorem silent_replica_stands_witness:
  "\<exists>d s1 s'. 0 \<le> d \<and> d < 800 * Millisecond \<and> node_exec (Elapse d) onceStood = Some s1 \<and>
     node_exec (TimerFire 5) s1 = Some s' \<and> nstate (rnode s') = Candidate"
proof -
  have "drawn 3" "drawn 5" by (simp_all add: drawn_def ElectionTimeoutMax_def ElectionTimeoutMin_def Millisecond_def)
  from silent_replica_stands [OF onceStood_run(1) this onceStood_run(2)] onceStood_run(3) show ?thesis by fastforce
qed

text \<open>Both branches can be ready at once, and then Go may start an election although a heartbeat's signal is pending.\<close>

lemma pending_reset_may_lose:
  assumes "timerPhase s = Selecting" and "drawn r" and "timerSet s" and "timerAt s \<le> clock s" and "nstate (rnode s) \<noteq> Leader"
    and "resetElectionCh (rnode s) \<noteq> []"
  shows "runElectionTimer_reset r s \<noteq> None"
    and "\<exists>s'. runElectionTimer_fire r s = Some s' \<and> nstate (rnode s') = Candidate"
  using assms
  by (auto simp: branch_defs electionTimerFired_def startElection_begin_def Let_def node_simps split: list.splits)

section \<open>The applier\<close>

text \<open>Whenever the applier waits, its next round begins within 50 ms.\<close>

lemma applier_round:
  assumes "node_run es (Start n now r0) = Some s" and "drawn r0" and "applierAlive s" and "applierAt s = AwaitTick"
  shows "\<exists>d s'. 0 \<le> d \<and> d \<le> applierInterval \<and> node_run [Elapse d, ApplierTick] s = Some s' \<and>
           rnode s' = rnode s \<and> applierAt s' = AtLoop (lastApplied (rnode s) + 1) (commitIndex (rnode s))"
proof -
  let ?d = "max 0 (tickAt s - clock s)"
  have "run_ok s" by (rule run_ok_run [OF assms(1) run_ok_Start [OF assms(2)]])
  then have "0 \<le> ?d" "?d \<le> applierInterval" using interval_pos(1) by (auto simp: run_ok_def)
  then show ?thesis
    using assms(3,4) by (intro exI [of _ ?d]) (simp add: runCommitApplier_tick_def applyCommitted_begin_def)
qed

text \<open>A stopped node's goroutines can return, and do nothing afterwards.\<close>

lemma goroutines_end:
  assumes "leaving s" and "timerPhase s = Selecting" and "applierAlive s" and "applierAt s = AwaitTick"
  shows "\<exists>s'. node_run [TimerReturn, ApplierReturn] s = Some s' \<and> rnode s' = rnode s \<and>
           timerPhase s' = Returned \<and> \<not> applierAlive s'"
  using assms by (simp add: branch_defs leaving_def)

lemma returned_stays:
  "node_run es s = Some s' \<Longrightarrow> timerPhase s = Returned \<Longrightarrow> timerPhase s' = Returned"
proof (erule (1) run_events_invariant)
  fix e s s'
  assume "node_exec e s = Some s'" and "timerPhase s = Returned"
  then show "timerPhase s' = Returned" by (cases e) (auto simp: branch_defs split: if_splits option.splits)
qed

section \<open>The applier and the notifier on one channel\<close>

text \<open>
  The channel operations of the applier for one entry (\<open>applier_send\<close>), and the commit notifier, which receives from the
  same channel in between. The applier is the only sender.
\<close>

definition notifier_receive :: "LogEntry list \<times> send_phase \<Rightarrow> (LogEntry list \<times> send_phase) option" where
  "notifier_receive qp = (case qp of ([], _) \<Rightarrow> None | (_ # q, ph) \<Rightarrow> Some (q, ph))"

datatype goroutine = Applier | Notifier

fun channel_exec :: "goroutine \<Rightarrow> LogEntry list \<times> send_phase \<Rightarrow> (LogEntry list \<times> send_phase) option" where
  "channel_exec Applier = applier_send"
| "channel_exec Notifier = notifier_receive"

text \<open>Undisturbed, the applier gets its entry into the channel, at the cost of the oldest one if the channel was full.\<close>

lemma applier_alone:
  assumes "length q \<le> commitChCap"
  shows "\<exists>k. run_events channel_exec (replicate k Applier) (q, TrySend e) =
           Some ((if length q < commitChCap then q else tl q) @ [e], Sent)"
proof (cases "length q < commitChCap")
  case True
  then show ?thesis
    by (intro exI [of _ 1]) (simp add: applier_send_def chan_try_send_def)
next
  case False
  then obtain x q' where q: "q = x # q'" by (cases q) (simp_all add: commitChCap_def)
  then have "length q' < commitChCap" using assms by simp
  with False q show ?thesis
    by (intro exI [of _ 3]) (simp add: applier_send_def chan_try_send_def numeral_3_eq_3)
qed

lemma notifier_drains:
  "run_events channel_exec (replicate (length q) Notifier) (q, ph) = Some ([], ph)"
  by (induction q) (simp_all add: notifier_receive_def)

text \<open>
  C20. The applier can block for ever. If the channel is full when the applier tries to send, and the notifier empties it before the applier goes on to drop the oldest
  entry, then neither goroutine can ever act again: the applier waits for an entry to drop, the notifier for one to announce, and only the applier sends.
\<close>

theorem applier_can_deadlock:
  assumes "length q = 256"
  shows "run_events channel_exec (Applier # replicate 256 Notifier) (q, TrySend e) = Some ([], DropOldest e) \<and>
         (\<forall>g. channel_exec g ([], DropOldest e) = None)"
proof -
  have "applier_send (q, TrySend e) = Some (q, DropOldest e)"
    using assms by (simp add: applier_send_def chan_try_send_def commitChCap_def)
  moreover have "run_events channel_exec (replicate 256 Notifier) (q, DropOldest e) = Some ([], DropOldest e)"
    using notifier_drains [of q "DropOldest e"] by (simp add: assms)
  moreover have "channel_exec g ([], DropOldest e) = None" for g
    by (cases g) (simp_all add: applier_send_def notifier_receive_def)
  ultimately show ?thesis by simp
qed

theorem applier_can_deadlock_witness:
  "run_events channel_exec (Applier # replicate 256 Notifier) (replicate 256 zeroEntry, TrySend zeroEntry) = Some ([], DropOldest zeroEntry)"
  using applier_can_deadlock [of "replicate 256 zeroEntry" zeroEntry] by simp

end
