(* ===== verification/ReplicaRobust.thy ===== *)
theory ReplicaRobust
  imports ReplicaServer Timed
begin

text \<open>
  A replica on its own, in an arbitrary environment. Anyone who reaches its port may send it any request, and what comes
  back from a peer's address may be anything as well: the events below put no condition on what
  arrives, except that an answer is an answer to a request the replica has sent. The development's cluster theorems are about peers that run this
  code; here a replica's state is shown to stay well-formed, with its numbers in the range of their Go types, whatever it receives.
\<close>

section \<open>Decoded messages are in range\<close>

text \<open>A property of a struct that every field's decoder keeps is kept by the struct's decoder.\<close>

definition keeps :: "('r \<Rightarrow> bool) \<Rightarrow> 'r decoder \<Rightarrow> bool" where
  "keeps P d \<longleftrightarrow> (\<forall>j r r'. P r \<longrightarrow> d j r = Some r' \<longrightarrow> P r')"

lemma keepsD: "keeps P d \<Longrightarrow> d j r = Some r' \<Longrightarrow> P r \<Longrightarrow> P r'"
  by (auto simp: keeps_def)

lemma keeps_field:
  assumes "\<And>j r x. d j (get r) = Some x \<Longrightarrow> P r \<Longrightarrow> P (upd (\<lambda>_. x) r)"
  shows "keeps P (in_field get upd d)"
  using assms by (auto simp: keeps_def in_field_def)

lemma dec_key_keeps: "list_all (\<lambda>f. keeps P (snd f)) fs \<Longrightarrow> keeps P (dec_key fs k)"
proof (induction fs)
  case (Cons f fs)
  obtain tag d where f: "f = (tag, d)" by fastforce
  then have "dec_key (f # fs) k = (if fold_key k = fold_key tag then d else dec_key fs k)"
    by (simp add: fun_eq_iff)
  then show ?case using Cons f by simp
qed (simp add: keeps_def)

lemma dec_pairs_keeps:
  assumes "list_all (\<lambda>f. keeps P (snd f)) fs"
  shows "dec_pairs fs kvs r = Some r' \<Longrightarrow> P r \<Longrightarrow> P r'"
proof (induction kvs arbitrary: r)
  case (Cons kv kvs)
  obtain k j where kv: "kv = (k, j)" by fastforce
  then obtain r1 where "dec_key fs k j r = Some r1" "dec_pairs fs kvs r1 = Some r'"
    using Cons.prems(1) by (auto split: option.splits)
  then show ?case using Cons keepsD [OF dec_key_keeps [OF assms]] by blast
qed simp

lemma dec_struct_keeps:
  assumes "dec_struct fs j r = Some r'" and "P r" and "list_all (\<lambda>f. keeps P (snd f)) fs"
  shows "P r'"
  using assms dec_pairs_keeps [OF assms(3)] by (cases j) auto

lemma dec_int_range: "dec_int j cur = Some i \<Longrightarrow> int64_ok cur \<Longrightarrow> int64_ok i"
  by (cases "(j, cur)" rule: dec_int.cases) (auto split: if_splits)

lemma dec_list_range:
  assumes "dec_list d z j cur = Some xs" and "\<And>j x. d j z = Some x \<Longrightarrow> P x" and "list_all P cur"
  shows "list_all P xs"
proof -
  have "list_all P ys" if "dec_all d z js = Some ys" for js ys
    using that assms(2) by (induction js arbitrary: ys) (auto split: option.splits)
  with assms show ?thesis by (cases j) auto
qed

lemma int64_zero: "int64_ok 0"
  by (simp add: int64_ok_def max_int_def)

lemma dec_LogEntry_range:
  assumes "dec_LogEntry j zeroEntry = Some e"
  shows "int64_ok (le_Index e) \<and> int64_ok (le_Term e)"
  using assms unfolding dec_LogEntry_def
  by (rule dec_struct_keeps [where P = "\<lambda>e. int64_ok (le_Index e) \<and> int64_ok (le_Term e)"])
    (auto simp: zeroEntry_def int64_zero intro!: keeps_field intro: dec_int_range)

lemma dec_VoteRequest_range:
  assumes "dec_VoteRequest j zeroVoteRequest = Some r"
  shows "int64_ok (vr_Term r)"
  using assms unfolding dec_VoteRequest_def
  by (rule dec_struct_keeps [where P = "\<lambda>r. int64_ok (vr_Term r)"])
    (auto simp: zeroVoteRequest_def int64_zero intro!: keeps_field intro: dec_int_range)

lemma dec_VoteResponse_range:
  assumes "dec_VoteResponse j zeroVoteResponse = Some r"
  shows "int64_ok (vp_Term r)"
  using assms unfolding dec_VoteResponse_def
  by (rule dec_struct_keeps [where P = "\<lambda>r. int64_ok (vp_Term r)"])
    (auto simp: zeroVoteResponse_def int64_zero intro!: keeps_field intro: dec_int_range)

lemma dec_AppendEntriesResponse_range:
  assumes "dec_AppendEntriesResponse j zeroAppendEntriesResponse = Some r"
  shows "int64_ok (ap_Term r) \<and> int64_ok (ap_ConflictIndex r)"
  using assms unfolding dec_AppendEntriesResponse_def
  by (rule dec_struct_keeps [where P = "\<lambda>r. int64_ok (ap_Term r) \<and> int64_ok (ap_ConflictIndex r)"])
    (auto simp: zeroAppendEntriesResponse_def int64_zero intro!: keeps_field intro: dec_int_range)

lemma dec_entries_range:
  assumes "dec_list dec_LogEntry zeroEntry j cur = Some es"
    and "list_all (\<lambda>e. int64_ok (le_Index e) \<and> int64_ok (le_Term e)) cur"
  shows "list_all (\<lambda>e. int64_ok (le_Index e) \<and> int64_ok (le_Term e)) es"
  using assms(1) _ assms(2) by (rule dec_list_range) (rule dec_LogEntry_range)

lemma dec_AppendEntriesRequest_range:
  assumes "dec_AppendEntriesRequest j zeroAppendEntriesRequest = Some r"
  shows "request_in_range r"
  using assms unfolding dec_AppendEntriesRequest_def
  by (rule dec_struct_keeps)
    (auto simp: zeroAppendEntriesRequest_def request_in_range_def int64_zero intro!: keeps_field
      intro: dec_int_range dec_entries_range)

section \<open>A replica among strangers\<close>

text \<open>
  A replica: its node, its commit applier, and the AppendEntries requests it has sent, with the address each went to. Its events:
  a request to its port; its election timer; the sending of AppendEntries to a peer, by a heartbeat or a replication loop; whatever comes back from
  an address for a vote or AppendEntries request (\<open>None\<close>: an error), read by the RPC client; the end of an election; the next action of the applier, the
  notifier, the receivers of the two signal channels; \<open>Stop\<close>. \<open>None\<close>: the event is not possible. A Go slice has at most \<open>max_int\<close>
  elements: an event that would make the log longer is not possible either.
\<close>

record lone_replica =
  lr_node :: Node
  lr_applier :: applier
  lr_sent :: "(string \<times> AppendEntriesRequest) list"

datatype replica_event =
    Serve HttpRequest
  | TimerFires
  | ResetReceived
  | VoteReply string VoteRequest "HttpResponse option"
  | ElectionOver int int
  | SendAppend string
  | AppendReply string AppendEntriesRequest "HttpResponse option"
  | LoopTick string int
  | ApplierActs
  | NotifyNext
  | StopNode

definition on_node :: "lone_replica \<Rightarrow> Node option \<Rightarrow> lone_replica option" where
  "on_node s x = map_option (\<lambda>n. s\<lparr>lr_node := n\<rparr>) x"

definition note_sent :: "lone_replica \<Rightarrow> string \<Rightarrow> AppendEntriesRequest option \<Rightarrow> lone_replica" where
  "note_sent s p x = (case x of None \<Rightarrow> s | Some req \<Rightarrow> s\<lparr>lr_sent := (p, req) # lr_sent s\<rparr>)"

fun replica_act :: "replica_event \<Rightarrow> lone_replica \<Rightarrow> lone_replica option" where
  "replica_act (Serve r) s = on_node s (Some (fst (replica_serve (lr_node s) r)))"
| "replica_act TimerFires s = on_node s (map_option fst (electionTimerFired (lr_node s)))"
| "replica_act ResetReceived s =
     on_node s (case resetElectionCh (lr_node s) of [] \<Rightarrow> None | _ # q \<Rightarrow> Some ((lr_node s)\<lparr>resetElectionCh := q\<rparr>))"
| "replica_act (VoteReply a req x) s =
     on_node s (Some (fst (requestVoteFromPeer (rpc_RequestVote (\<lambda>_ _. x) a req) (vr_Term req) (lr_node s, 0))))"
| "replica_act (ElectionOver trm votes) s = on_node s (Some (fst (startElection_finish (lr_node s) trm votes)))"
| "replica_act (SendAppend p) s = Some (note_sent s p (appendEntriesRequest (lr_node s) p))"
| "replica_act (AppendReply a req x) s =
     (if (a, req) \<in> set (lr_sent s) then
        on_node s (map_option (appendEntriesAnswer (lr_node s) a req) (rpc_AppendEntries (\<lambda>_ _. x) a req))
      else None)"
| "replica_act (LoopTick p t) s =
     (case runReplicationLoop_tick (lr_node s) p t of
        None \<Rightarrow> None
      | Some (n, sends) \<Rightarrow> Some (note_sent (s\<lparr>lr_node := n\<rparr>) p (case sends of None \<Rightarrow> None | Some x \<Rightarrow> x)))"
| "replica_act ApplierActs s =
     map_option (\<lambda>(n, ap). s\<lparr>lr_node := n, lr_applier := ap\<rparr>) (runCommitApplier_step (lr_node s) (lr_applier s))"
| "replica_act NotifyNext s = on_node s (map_option fst (runCommitNotifier_tick (lr_node s)))"
| "replica_act StopNode s = on_node s (case Stop (lr_node s) of (n, None) \<Rightarrow> Some n | _ \<Rightarrow> None)"

definition log_fits :: "Node \<Rightarrow> bool" where
  "log_fits n \<longleftrightarrow> int (length (entries (nlog n))) \<le> max_int"

definition replica_exec :: "replica_event \<Rightarrow> lone_replica \<Rightarrow> lone_replica option" where
  "replica_exec e s =
     (case replica_act e s of
        None \<Rightarrow> None
      | Some s' \<Rightarrow> if log_fits (lr_node s') then Some s' else None)"

definition newReplica :: "Config \<Rightarrow> lone_replica" where
  "newReplica cfg = \<lparr>lr_node = NewNode cfg, lr_applier = AwaitTick, lr_sent = []\<rparr>"

text \<open>
  A well-formed node: its log, its indices within the log, its terms in 64 bits, the positions it keeps of its peers in range, its channels within
  capacity.
\<close>

definition peers_ok :: "(string \<rightharpoonup> int) \<Rightarrow> (string \<rightharpoonup> int) \<Rightarrow> bool" where
  "peers_ok nx mt \<longleftrightarrow>
     (\<forall>p i. nx p = Some i \<longrightarrow> 1 \<le> i \<and> i \<le> max_int) \<and> (\<forall>p i. mt p = Some i \<longrightarrow> 0 \<le> i \<and> i < max_int)"

definition node_ok :: "Node \<Rightarrow> bool" where
  "node_ok n \<longleftrightarrow>
     log_ok (nlog n) \<and> (\<forall>e \<in> set (entries (nlog n)). int64_ok (le_Term e)) \<and> int64_ok (currentTerm n) \<and>
     0 \<le> lastApplied n \<and> lastApplied n \<le> commitIndex n \<and> commitIndex n < int (length (entries (nlog n))) \<and>
     length (resetElectionCh n) \<le> Suc 0 \<and> length (newEntryCh n) \<le> Suc 0 \<and> length (commitCh n) \<le> commitChCap \<and>
     peers_ok (nextIndex n) (matchIndex n)"

definition committed :: "Node \<Rightarrow> LogEntry list" where
  "committed n = take (Suc (nat (commitIndex n))) (entries (nlog n))"

text \<open>
  What a step may do to a well-formed node: its committed entries stay, and it stays well-formed. Only the applier moves \<open>lastApplied\<close>.
\<close>

definition keeps_committed :: "Node \<Rightarrow> Node \<Rightarrow> bool" where
  "keeps_committed n n' \<longleftrightarrow>
     commitIndex n \<le> commitIndex n' \<and> take (Suc (nat (commitIndex n))) (entries (nlog n')) = committed n"

definition sound_step :: "Node \<Rightarrow> Node \<Rightarrow> bool" where
  "sound_step n n' \<longleftrightarrow> node_ok n' \<and> lastApplied n' = lastApplied n \<and> keeps_committed n n'"

text \<open>Requests the replica sends have their numbers in range, with room for the position after their last entry.\<close>

definition sent_ok :: "AppendEntriesRequest \<Rightarrow> bool" where
  "sent_ok req \<longleftrightarrow> request_in_range req \<and> (\<forall>e \<in> set (ar_Entries req). 0 \<le> le_Index e \<and> le_Index e < max_int)"

text \<open>Where the applier is: at the entry after \<open>lastApplied\<close>, within what is committed.\<close>

definition applier_at :: "applier \<Rightarrow> Node \<Rightarrow> bool" where
  "applier_at ap n \<longleftrightarrow>
     (case ap of
        AwaitTick \<Rightarrow> True
      | AtLoop i ci \<Rightarrow> i = lastApplied n + 1 \<and> ci \<le> commitIndex n
      | AtSend i ci ph \<Rightarrow> i = lastApplied n + 1 \<and> i \<le> ci \<and> ci \<le> commitIndex n)"

definition replica_ok :: "lone_replica \<Rightarrow> bool" where
  "replica_ok s \<longleftrightarrow>
     node_ok (lr_node s) \<and> log_fits (lr_node s) \<and> applier_at (lr_applier s) (lr_node s) \<and>
     (\<forall>(a, req) \<in> set (lr_sent s). sent_ok req)"

definition sound_run :: "lone_replica \<Rightarrow> lone_replica \<Rightarrow> bool" where
  "sound_run s s' \<longleftrightarrow> replica_ok s' \<and> keeps_committed (lr_node s) (lr_node s')"

lemma AppendEntries_committed:
  assumes "0 \<le> c" and "c < int (length (entries l))"
  shows "c < int (length (entries (fst (AppendEntries l es c)))) \<and>
         take (Suc (nat c)) (entries (fst (AppendEntries l es c))) = take (Suc (nat c)) (entries l)"
  using assms
proof (induction l es c rule: AppendEntries.induct)
  case (2 l entry rest c)
  have put: "c < int (length (entries (put_entry l entry))) \<and>
      take (Suc (nat c)) (entries (put_entry l entry)) = take (Suc (nat c)) (entries l)"
    using "2.prems" by (simp add: log_simps)
  have trunc: "c < int (length (entries (put_entry (l\<lparr>entries := take (nat (le_Index entry)) (entries l)\<rparr>) entry))) \<and>
      take (Suc (nat c)) (entries (put_entry (l\<lparr>entries := take (nat (le_Index entry)) (entries l)\<rparr>) entry)) =
      take (Suc (nat c)) (entries l)"
    if "c < le_Index entry" "le_Index entry < int (length (entries l))"
    using that "2.prems" by (auto simp: log_simps min_def)
  show ?case
    using "2.IH" "2.prems" trunc put by (simp add: not_le)
qed simp

lemma AppendEntries_terms:
  assumes "\<forall>e \<in> set (entries l). P (le_Term e)" and "\<forall>e \<in> set es. P (le_Term e)"
  shows "\<forall>e \<in> set (entries (fst (AppendEntries l es c))). P (le_Term e)"
  using assms
proof (induction l es c rule: AppendEntries.induct)
  case (2 l entry rest c)
  have "\<forall>e \<in> set (entries (put_entry l entry)). P (le_Term e)"
    "\<forall>e \<in> set (entries (put_entry (l\<lparr>entries := take k (entries l)\<rparr>) entry)). P (le_Term e)" for k
    using "2.prems" by (auto simp: log_simps dest: in_set_takeD)
  with 2 show ?case by simp
qed simp

section \<open>Every operation keeps a replica well-formed\<close>

lemma node_okD:
  assumes "node_ok n"
  shows "log_ok (nlog n)" and "\<forall>e \<in> set (entries (nlog n)). int64_ok (le_Term e)" and "int64_ok (currentTerm n)"
    and "0 \<le> lastApplied n" and "lastApplied n \<le> commitIndex n" and "commitIndex n < int (length (entries (nlog n)))"
    and "length (resetElectionCh n) \<le> Suc 0" and "length (newEntryCh n) \<le> Suc 0" and "length (commitCh n) \<le> commitChCap"
    and "peers_ok (nextIndex n) (matchIndex n)"
  using assms by (simp_all add: node_ok_def)

lemma peers_ok_next: "peers_ok nx mt \<Longrightarrow> 1 \<le> i \<Longrightarrow> i \<le> max_int \<Longrightarrow> peers_ok (nx(p \<mapsto> i)) mt"
  by (simp add: peers_ok_def)

lemma peers_ok_match: "peers_ok nx mt \<Longrightarrow> 0 \<le> i \<Longrightarrow> i < max_int \<Longrightarrow> peers_ok (nx(p \<mapsto> i + 1)) (mt(p \<mapsto> i))"
  by (simp add: peers_ok_def)

lemma keeps_trans: "keeps_committed n n' \<Longrightarrow> keeps_committed n' n'' \<Longrightarrow> keeps_committed n n''"
  unfolding keeps_committed_def committed_def
  using take_eq_mono [of "Suc (nat (commitIndex n'))" "entries (nlog n'')" "entries (nlog n')" "Suc (nat (commitIndex n))"]
  by (auto simp: nat_mono)

lemma keeps_same: "nlog n' = nlog n \<Longrightarrow> commitIndex n' = commitIndex n \<Longrightarrow> keeps_committed n n'"
  by (simp add: keeps_committed_def committed_def)

lemma sound_refl: "node_ok n \<Longrightarrow> sound_step n n"
  by (simp add: sound_step_def keeps_same)

lemma sound_trans: "sound_step n n' \<Longrightarrow> sound_step n' n'' \<Longrightarrow> sound_step n n''"
  using keeps_trans by (auto simp: sound_step_def)

text \<open>Operations that leave the log and the indices alone.\<close>

lemma sound_frame:
  assumes "node_ok n" and "nlog n' = nlog n" and "commitIndex n' = commitIndex n" and "lastApplied n' = lastApplied n"
    and "int64_ok (currentTerm n')" and "length (resetElectionCh n') \<le> Suc 0" and "length (newEntryCh n') \<le> Suc 0"
    and "length (commitCh n') \<le> commitChCap" and "peers_ok (nextIndex n') (matchIndex n')"
  shows "sound_step n n'"
  using assms by (simp add: sound_step_def node_ok_def keeps_same)

lemma int64_max: "int64_ok a \<Longrightarrow> int64_ok b \<Longrightarrow> int64_ok (max a b)"
  by (simp add: max_def)

lemma signals [node_simps]:
  "length (resetElectionCh n) \<le> Suc 0 \<Longrightarrow> length (resetElectionCh (resetElectionTimer n)) \<le> Suc 0"
  "newEntryCh (resetElectionTimer n) = newEntryCh n"
  "length (newEntryCh n) \<le> Suc 0 \<Longrightarrow> length (newEntryCh (signalNewEntry n)) \<le> Suc 0"
  "resetElectionCh (signalNewEntry n) = resetElectionCh n"
  by (simp_all add: resetElectionTimer_def signalNewEntry_def chan_try_send_def)

lemma stepDown_signals [node_simps]:
  "resetElectionCh (fst (stepDown n t)) = resetElectionCh n" "newEntryCh (fst (stepDown n t)) = newEntryCh n"
  by (simp_all add: stepDown_def node_simps)

lemma acceptLeader_signals [node_simps]:
  "length (resetElectionCh n) \<le> Suc 0 \<Longrightarrow> length (resetElectionCh (acceptLeader n req)) \<le> Suc 0"
  "newEntryCh (acceptLeader n req) = newEntryCh n"
  by (auto simp: acceptLeader_def Let_def node_simps)

lemma sound_vote:
  assumes "node_ok n" and "int64_ok (vr_Term req)"
  shows "sound_step n (fst (HandleVoteRequest n req))"
proof (rule sound_frame [OF assms(1)])
  show "int64_ok (currentTerm (fst (HandleVoteRequest n req)))"
    using assms node_okD(3) [OF assms(1)] by (simp add: node_simps int64_max)
  show "length (resetElectionCh (fst (HandleVoteRequest n req))) \<le> Suc 0"
    using node_okD(7) [OF assms(1)] by (auto simp: HandleVoteRequest_def Let_def node_simps)
  show "length (newEntryCh (fst (HandleVoteRequest n req))) \<le> Suc 0"
    using node_okD(8) [OF assms(1)] by (auto simp: HandleVoteRequest_def Let_def node_simps)
qed (use node_okD(9,10) [OF assms(1)] in \<open>simp_all add: node_simps\<close>)

text \<open>Accepting a leader, storing its entries (all of them, or those before a panic), following its commit index.\<close>

lemma sound_accept:
  assumes "node_ok n" and "int64_ok (ar_Term req)"
  shows "sound_step n (acceptLeader (fst (stepDown n (ar_Term req))) req)"
  by (rule sound_frame [OF assms(1)]) (use assms(2) node_okD [OF assms(1)] in \<open>simp_all add: node_simps\<close>)

lemma sound_store:
  assumes "node_ok n" and "\<forall>e \<in> set es. int64_ok (le_Term e)"
  shows "sound_step n (n\<lparr>nlog := fst (AppendEntries (nlog n) es (commitIndex n))\<rparr>)"
proof -
  note N = node_okD [OF assms(1)]
  have c: "0 \<le> commitIndex n" using N(4,5) by simp
  from AppendEntries_ok [OF N(1) c] AppendEntries_committed [OF c N(6)] AppendEntries_terms [OF N(2) assms(2)] N
  show ?thesis by (simp add: sound_step_def node_ok_def keeps_committed_def committed_def)
qed

lemma sound_follow:
  assumes "node_ok n"
  shows "sound_step n (followCommit n c)"
proof -
  note N = node_okD [OF assms]
  have "newEntryCh (followCommit n c) = newEntryCh n" by (simp add: followCommit_def Let_def)
  then show ?thesis
    using N by (auto simp: sound_step_def node_ok_def keeps_committed_def committed_def node_simps followCommit_commitIndex LastIndex_def)
qed

lemma sound_append:
  assumes "node_ok n" and "request_in_range req"
  shows "sound_step n (fst (HandleAppendEntries n req))"
proof -
  let ?a = "acceptLeader (fst (stepDown n (ar_Term req))) req"
  have r: "int64_ok (ar_Term req)" "\<forall>e \<in> set (ar_Entries req). int64_ok (le_Term e)"
    using assms(2) by (auto simp: request_in_range_def list_all_iff)
  note a = sound_accept [OF assms(1) r(1)]
  then have ok: "node_ok ?a" by (simp add: sound_step_def)
  have s: "sound_step n (?a\<lparr>nlog := l\<rparr>)" if "AppendEntries (nlog n) (ar_Entries req) (commitIndex n) = (l, p)" for l p
    using sound_trans [OF a sound_store [OF ok r(2)]] that by (simp add: node_simps)
  then have f: "sound_step n (followCommit (?a\<lparr>nlog := l\<rparr>) c)"
    if "AppendEntries (nlog n) (ar_Entries req) (commitIndex n) = (l, p)" for l p c
    using sound_trans [OF s [OF that] sound_follow] s [OF that] by (simp add: sound_step_def)
  show ?thesis
    by (cases rule: HandleAppendEntries_cases [of req n])
      (simp_all add: HandleAppendEntries_eqs sound_refl assms(1) a s f)
qed

lemma sound_stroke:
  assumes "node_ok n"
  shows "sound_step n (fst (HandleStroke n st))"
proof (cases "nstate n = Leader")
  case True
  let ?l = "fst (Append (nlog n) \<lparr>le_Index = 0, le_Term = currentTerm n, le_Stroke = st\<rparr>)"
  note N = node_okD [OF assms]
  have l: "log_ok ?l" "\<forall>e \<in> set (entries ?l). int64_ok (le_Term e)" "length (entries ?l) = Suc (length (entries (nlog n)))"
      "take (Suc (nat (commitIndex n))) (entries ?l) = committed n"
    using N by (simp_all add: Append_ok log_simps committed_def)
  have "fst (HandleStroke n st) = signalNewEntry (n\<lparr>nlog := ?l\<rparr>)"
    using True by (simp add: HandleStroke_def Let_def)
  moreover have "length (newEntryCh (signalNewEntry (n\<lparr>nlog := ?l\<rparr>))) \<le> Suc 0"
    by (rule signals(3)) (use N(8) in simp)
  ultimately show ?thesis
    using l N by (simp add: sound_step_def node_ok_def keeps_committed_def node_simps)
qed (simp add: HandleStroke_def sound_refl assms)

lemma decode_body_dest: "decode_body d z r = Some x \<Longrightarrow> \<exists>j. d j z = Some x"
  by (auto simp: decode_body_def split: option.splits)

lemma sound_answer_append:
  "node_ok n \<Longrightarrow> request_in_range req \<Longrightarrow> sound_step n (fst (answer_append n req))"
  using sound_append [of n req] by (auto simp: answer_append_def split: prod.splits sum.splits)

lemma sound_serve_vote:
  assumes "node_ok n"
  shows "sound_step n (fst (serve_RequestVote n r))"
proof (cases "decode_body dec_VoteRequest zeroVoteRequest r")
  case (Some req)
  then have "int64_ok (vr_Term req)" using decode_body_dest dec_VoteRequest_range by metis
  then have "sound_step n (fst (HandleVoteRequest n req))" by (rule sound_vote [OF assms])
  then show ?thesis
    using Some sound_refl [OF assms] by (cases "HandleVoteRequest n req") (simp add: serve_RequestVote_def)
qed (simp add: serve_RequestVote_def sound_refl assms)

lemma sound_serve_append:
  assumes "node_ok n"
  shows "sound_step n (fst (serve_AppendEntries n r))" and "sound_step n (fst (serve_Heartbeat n r))"
proof -
  let ?d = "decode_body dec_AppendEntriesRequest zeroAppendEntriesRequest r"
  have "request_in_range req" "request_in_range (req\<lparr>ar_Entries := []\<rparr>)" if "?d = Some req" for req
  proof -
    show "request_in_range req" using that decode_body_dest dec_AppendEntriesRequest_range by metis
    then show "request_in_range (req\<lparr>ar_Entries := []\<rparr>)" by (simp add: request_in_range_def)
  qed
  then have a: "sound_step n (fst (answer_append n req))" "sound_step n (fst (answer_append n (req\<lparr>ar_Entries := []\<rparr>)))"
    if "?d = Some req" for req
    using that sound_answer_append [OF assms] by blast+
  show "sound_step n (fst (serve_AppendEntries n r))" "sound_step n (fst (serve_Heartbeat n r))"
    using a sound_refl [OF assms] by (cases ?d; simp add: serve_AppendEntries_def serve_Heartbeat_def)+
qed

lemma sound_serve_stroke:
  assumes "node_ok n"
  shows "sound_step n (fst (serve_Stroke n r))"
proof (cases "rq_Method r = ''POST''")
  case True
  show ?thesis
  proof (cases "decode_body dec_StrokeEvent zeroStroke r")
    case (Some st)
    from stroke_endpoint [OF True Some, of n] obtain resp where
      "serve_Stroke n r = (fst (HandleStroke n st), Inr resp)" by blast
    then show ?thesis using sound_stroke [OF assms] by simp
  qed (simp add: serve_Stroke_def sound_refl assms)
qed (simp add: serve_Stroke_def sound_refl assms)

lemma sound_serve:
  assumes "node_ok n"
  shows "sound_step n (fst (replica_serve n r))"
  using assms
  by (simp add: replica_serve_def serve_Status_def serve_Health_def serve_Metrics_def serve_SyncLog_def Let_def
      sound_refl sound_serve_vote sound_serve_append sound_serve_stroke)

text \<open>The goroutines.\<close>

lemma sound_votes:
  assumes "node_ok n" and "\<And>resp. answer = Some resp \<Longrightarrow> int64_ok (vp_Term resp)"
  shows "sound_step n (fst (requestVoteFromPeer answer T (n, v)))"
proof (cases rule: requestVoteFromPeer_cases [of answer T n v])
  case (2 resp)
  then show ?thesis
    using node_okD [OF assms(1)] assms(2) by (simp add: sound_frame [OF assms(1)] node_simps)
qed (simp_all add: sound_refl assms)

lemma sound_candidate: "node_ok n \<Longrightarrow> sound_step n (becomeCandidate n)"
  using node_okD [of n] wrap64_range
  by (intro sound_frame) (simp_all add: node_simps int64_ok_def)

lemma sound_finish:
  assumes "node_ok n" and "log_fits n"
  shows "sound_step n (fst (startElection_finish n trm votes))"
proof -
  note N = node_okD [OF assms(1)]
  have "1 \<le> LastIndex (nlog n) + 1" "LastIndex (nlog n) + 1 \<le> max_int" "0 < max_int"
    using assms(2) N(4,5,6) by (simp_all add: LastIndex_def log_fits_def max_int_def)
  then have "peers_ok (nextIndex (becomeLeader n)) (matchIndex (becomeLeader n))"
    using N(10) by (auto simp: peers_ok_def becomeLeader_eq)
  then have "sound_step n (becomeLeader n)" using N by (intro sound_frame [OF assms(1)]) (simp_all add: becomeLeader_eq)
  then show ?thesis using sound_refl [OF assms(1)] by (simp add: startElection_finish_def)
qed

lemma sound_advance:
  assumes "node_ok n"
  shows "sound_step n (advanceCommitIndex n)"
proof -
  obtain c where "advanceCommitIndex n = n\<lparr>commitIndex := c\<rparr>"
    "c = commitIndex n \<or> commitIndex n + 1 \<le> c \<and> c \<le> LastIndex (nlog n)"
    using advanceLoop_spec [of n "commitIndex n + 1"] by (auto simp: advanceCommitIndex_def)
  then show ?thesis
    using node_okD [OF assms] by (auto simp: sound_step_def node_ok_def keeps_committed_def committed_def LastIndex_def)
qed

lemma sound_answer:
  assumes "node_ok n" and "sent_ok req" and "int64_ok (ap_Term resp)" and "int64_ok (ap_ConflictIndex resp)"
  shows "sound_step n (appendEntriesAnswer n a req resp)"
proof -
  note N = node_okD [OF assms(1)]
  let ?last = "le_Index (ar_Entries req ! (length (ar_Entries req) - 1))"
  let ?m = "n\<lparr>nextIndex := (nextIndex n)(a \<mapsto> ?last + 1), matchIndex := (matchIndex n)(a \<mapsto> ?last)\<rparr>"
  have m: "sound_step n ?m" if "ar_Entries req \<noteq> []"
  proof -
    have "0 \<le> ?last" "?last < max_int" using that assms(2) by (simp_all add: sent_ok_def)
    then show ?thesis using N peers_ok_match by (intro sound_frame [OF assms(1)]) simp_all
  qed
  have adv: "sound_step n (advanceCommitIndex ?m)" if "ar_Entries req \<noteq> []"
    by (rule sound_trans [OF m [OF that] sound_advance]) (use m [OF that] in \<open>simp add: sound_step_def\<close>)
  have next_index: "sound_step n (n\<lparr>nextIndex := (nextIndex n)(a \<mapsto> x)\<rparr>)" if "1 \<le> x" "x \<le> max_int" for x
    using N peers_ok_next [OF N(10) that] by (intro sound_frame [OF assms(1)]) simp_all
  have below: "map_get (nextIndex n) a - 1 \<le> max_int"
  proof (cases "nextIndex n a")
    case (Some i)
    then have "i \<le> max_int" using N(10) by (simp add: peers_ok_def)
    then show ?thesis using Some by (simp add: map_get_def)
  qed (simp add: map_get_def max_int_def)
  have "sound_step n (becomeFollower n (ap_Term resp) [])"
    using N assms(3) by (intro sound_frame [OF assms(1)]) (simp_all add: node_simps)
  then show ?thesis
    using adv next_index [of "ap_ConflictIndex resp"] next_index [of "map_get (nextIndex n) a - 1"] below assms(4)
      sound_advance [OF assms(1)] sound_refl [OF assms(1)]
    by (simp add: appendEntriesAnswer_def Let_def stepDown_def int64_ok_def)
qed

text \<open>The requests sent are slices of the log, whose entries carry their positions.\<close>

lemma request_sent_ok:
  assumes "node_ok n" and "log_fits n" and "appendEntriesRequest n p = Some req"
  shows "sent_ok req"
proof -
  note N = node_okD [OF assms(1)]
  obtain x where x: "nextIndex n p = Some x" "1 \<le> x" "x \<le> max_int"
    "req = \<lparr>ar_Term = currentTerm n, ar_LeaderID = nid n, ar_PrevLogIndex = x - 1, ar_PrevLogTerm = Term (nlog n) (x - 1),
            ar_Entries = GetFrom (nlog n) x, ar_LeaderCommit = commitIndex n\<rparr>"
    using assms(3) N(10) by (auto simp: appendEntriesRequest_def Let_def peers_ok_def split: if_splits option.splits)
  have es: "int64_ok (le_Term e) \<and> 0 \<le> le_Index e \<and> le_Index e < max_int" if "e \<in> set (GetFrom (nlog n) x)" for e
  proof -
    have "e \<in> set (entries (nlog n))" using that by (auto simp: GetFrom_def split: if_splits dest: in_set_dropD)
    then obtain i where "i < length (entries (nlog n))" "e = entries (nlog n) ! i" by (auto simp: in_set_conv_nth)
    then show ?thesis using N(1,2) assms(2) by (auto simp: log_ok_def indexed_def log_fits_def)
  qed
  have "int64_ok (Term (nlog n) (x - 1))" using N(2) x(2) by (auto simp: Term_def int64_zero)
  moreover have "int64_ok (x - 1)" "int64_ok (commitIndex n)"
    using x N(4,5,6) assms(2) by (simp_all add: int64_ok_def log_fits_def max_int_def)
  moreover have "int64_ok i" if "0 \<le> i" "i < max_int" for i using that by (simp add: int64_ok_def)
  ultimately show ?thesis
    using es N(3) by (simp add: x(4) sent_ok_def request_in_range_def list_all_iff)
qed

text \<open>The applier goes through what is committed, one entry after the other.\<close>

lemma applier_send_cap:
  assumes "applier_send (q, ph) = Some (q', ph')" and "length q \<le> commitChCap"
  shows "length q' \<le> commitChCap"
  using assms by (cases rule: applier_send_cases) auto

lemma sound_apply:
  assumes "node_ok n" and "applier_at ap n" and "runCommitApplier_step n ap = Some (n', ap')"
  shows "node_ok n' \<and> keeps_committed n n' \<and> applier_at ap' n'"
proof (cases ap)
  case AwaitTick
  then show ?thesis
    using assms by (auto simp: runCommitApplier_step_def applyCommitted_begin_def applier_at_def keeps_same)
next
  case (AtLoop i ci)
  then show ?thesis
    using assms
    by (auto simp: runCommitApplier_step_def applyCommitted_step_def applier_at_def keeps_same split: if_splits prod.splits)
next
  case (AtSend i ci ph)
  note N = node_okD [OF assms(1)]
  have i: "i = lastApplied n + 1" "i \<le> ci" "ci \<le> commitIndex n" using AtSend assms(2) by (simp_all add: applier_at_def)
  show ?thesis
  proof (cases "ph = Sent")
    case True
    then have "n' = n\<lparr>lastApplied := i\<rparr>" "ap' = AtLoop (i + 1) ci"
      using AtSend assms(3) by (simp_all add: runCommitApplier_step_def applyCommitted_step_def)
    then show ?thesis using N i by (simp add: node_ok_def keeps_same applier_at_def)
  next
    case False
    then obtain q ph' where send: "applier_send (commitCh n, ph) = Some (q, ph')" and n': "n' = n\<lparr>commitCh := q\<rparr>" "ap' = AtSend i ci ph'"
      using AtSend assms(3) by (auto simp: runCommitApplier_step_def applyCommitted_step_def split: option.splits)
    then show ?thesis
      using N i applier_send_cap [OF send N(9)] by (simp add: n' node_ok_def keeps_same applier_at_def)
  qed
qed

lemma sound_pops:
  assumes "node_ok n"
  shows "resetElectionCh n = x # q \<Longrightarrow> sound_step n (n\<lparr>resetElectionCh := q\<rparr>)"
    and "newEntryCh n = x # q \<Longrightarrow> sound_step n (n\<lparr>newEntryCh := q\<rparr>)"
    and "commitCh n = e # es \<Longrightarrow> sound_step n (n\<lparr>commitCh := es\<rparr>)"
  using node_okD [OF assms] by (auto intro!: sound_frame [OF assms])

lemma rpc_ranges:
  assumes "rpc_RequestVote (\<lambda>_ _. x) a req = Some resp"
  shows "int64_ok (vp_Term resp)"
  using assms
  by (auto simp: rpc_RequestVote_def doPost_def decode_content_def split: if_splits option.splits content.splits
      dest: dec_VoteResponse_range)

lemma rpc_append_range:
  assumes "rpc_AppendEntries (\<lambda>_ _. x) a req = Some resp"
  shows "int64_ok (ap_Term resp) \<and> int64_ok (ap_ConflictIndex resp)"
  using assms
  by (auto simp: rpc_AppendEntries_def doPost_def decode_content_def split: if_splits option.splits content.splits
      dest: dec_AppendEntriesResponse_range)

lemma rpc_append_sound:
  assumes "node_ok n" and "sent_ok req" and "map_option (appendEntriesAnswer n a req) (rpc_AppendEntries (\<lambda>_ _. x) a req) = Some n'"
  shows "sound_step n n'"
  using assms sound_answer [OF assms(1,2)] by (auto dest: rpc_append_range)

lemma loop_tick_sound:
  assumes "node_ok n" and "runReplicationLoop_tick n p t = Some (n', sends)"
  shows "sound_step n n'" and "sends = Some (Some req) \<Longrightarrow> appendEntriesRequest n' p = Some req"
  using assms sound_pops(2) [OF assms(1)]
  by (auto simp: runReplicationLoop_tick_def Let_def split: list.splits if_splits)

text \<open>An event on the node alone, and an event that sends.\<close>

lemma on_node_cases: "on_node s x = Some s' \<Longrightarrow> \<exists>n. x = Some n \<and> s' = s\<lparr>lr_node := n\<rparr>"
  by (auto simp: on_node_def)

lemma sound_run_node:
  assumes "replica_ok s" and "sound_step (lr_node s) n" and "lastApplied n = lastApplied (lr_node s)" and "log_fits n"
  shows "sound_run s (s\<lparr>lr_node := n\<rparr>)"
  using assms by (auto simp: sound_run_def replica_ok_def sound_step_def applier_at_def keeps_committed_def split: applier.splits)

lemma sound_run_send:
  assumes "sound_run s s'" and "\<And>req. x = Some req \<Longrightarrow> appendEntriesRequest (lr_node s') p = Some req"
  shows "sound_run s (note_sent s' p x)"
  using assms request_sent_ok [of "lr_node s'" p]
  by (auto simp: sound_run_def replica_ok_def note_sent_def split: option.splits)

lemma replica_act_sound:
  assumes "replica_ok s" and "replica_act e s = Some s'" and "log_fits (lr_node s')"
  shows "sound_run s s'"
proof -
  let ?n = "lr_node s"
  have ok: "node_ok ?n" "log_fits ?n" "applier_at (lr_applier s) ?n" using assms(1) by (simp_all add: replica_ok_def)
  have on: "sound_run s s'" if "on_node s x = Some s'" "\<And>n. x = Some n \<Longrightarrow> sound_step ?n n" for x
    using on_node_cases [OF that(1)] that(2) sound_run_node [OF assms(1)] assms(3) by (auto simp: sound_step_def)
  note A = assms(2)
  show ?thesis
  proof (cases e)
    case (Serve r)
    then show ?thesis using A sound_serve [OF ok(1)] by (intro on [of "Some (fst (replica_serve ?n r))"]) auto
  next
    case TimerFires
    then show ?thesis
      using A sound_candidate [OF ok(1)]
      by (intro on [of "map_option fst (electionTimerFired ?n)"])
        (auto simp: electionTimerFired_def startElection_begin_def Let_def split: if_splits)
  next
    case ResetReceived
    with A show ?thesis by (intro on) (auto split: list.splits intro: sound_pops(1) [OF ok(1)])
  next
    case (VoteReply a req x)
    have "sound_step ?n (fst (requestVoteFromPeer (rpc_RequestVote (\<lambda>_ _. x) a req) (vr_Term req) (?n, 0)))"
      by (rule sound_votes [OF ok(1)]) (rule rpc_ranges)
    with VoteReply A show ?thesis by (intro on) auto
  next
    case (ElectionOver trm votes)
    with A sound_finish [OF ok(1,2)] show ?thesis by (intro on) auto
  next
    case (SendAppend p)
    have "sound_run s s" using assms(1) by (simp add: sound_run_def keeps_same)
    with SendAppend A show ?thesis by (auto intro: sound_run_send)
  next
    case (AppendReply a req x)
    have "sent_ok req" if "(a, req) \<in> set (lr_sent s)" using that assms(1) by (auto simp: replica_ok_def)
    with AppendReply A show ?thesis by (intro on) (auto split: if_splits intro: rpc_append_sound [OF ok(1)])
  next
    case (LoopTick p t)
    with A obtain n sends where r: "runReplicationLoop_tick ?n p t = Some (n, sends)"
      "s' = note_sent (s\<lparr>lr_node := n\<rparr>) p (case sends of None \<Rightarrow> None | Some x \<Rightarrow> x)"
      by (auto split: option.splits)
    have "log_fits n" using assms(3) r(2) by (simp add: note_sent_def split: option.splits)
    then have "sound_run s (s\<lparr>lr_node := n\<rparr>)"
      using loop_tick_sound(1) [OF ok(1) r(1)] by (intro sound_run_node [OF assms(1)]) (simp_all add: sound_step_def)
    then show ?thesis
      unfolding r(2) by (rule sound_run_send) (use loop_tick_sound(2) [OF ok(1) r(1)] in \<open>auto split: option.splits\<close>)
  next
    case ApplierActs
    then show ?thesis
      using A sound_apply [OF ok(1,3)] assms(1,3) by (auto simp: sound_run_def replica_ok_def)
  next
    case NotifyNext
    with A show ?thesis
      using sound_pops(3) [OF ok(1)]
      by (intro on) (auto simp: runCommitNotifier_tick_def Let_def split: list.splits)
  next
    case StopNode
    have "sound_step ?n (?n\<lparr>stopped := True\<rparr>)"
      using node_okD [OF ok(1)] by (intro sound_frame [OF ok(1)]) simp_all
    with StopNode A show ?thesis by (intro on) (auto simp: Stop_def split: if_splits)
  qed
qed

section \<open>Runs\<close>

abbreviation replica_run :: "replica_event list \<Rightarrow> lone_replica \<Rightarrow> lone_replica option" where
  "replica_run \<equiv> run_events replica_exec"

lemma replica_ok_new: "replica_ok (newReplica cfg)"
  by (simp add: replica_ok_def newReplica_def node_ok_def peers_ok_def log_fits_def applier_at_def max_int_def
      NewNode_def NewLog_def log_ok_def sentinel_def indexed_def int64_zero)

lemma replica_run_sound:
  assumes "replica_ok s" and "replica_run es s = Some s'"
  shows "sound_run s s'"
  using assms(2,1)
proof (rule run_events_progress)
  show "sound_run s s' \<Longrightarrow> replica_ok s'" for s s' by (simp add: sound_run_def)
  show "replica_exec e s = Some s' \<Longrightarrow> replica_ok s \<Longrightarrow> sound_run s s'" for e s s'
    using replica_act_sound by (auto simp: replica_exec_def split: option.splits if_splits)
  show "replica_ok s \<Longrightarrow> sound_run s s" for s by (simp add: sound_run_def keeps_same)
  show "sound_run r s \<Longrightarrow> sound_run s t \<Longrightarrow> sound_run r t" for r s t
    using keeps_trans by (auto simp: sound_run_def)
qed

section \<open>Property\<close>

text \<open>
  C7. A replica withstands any input. In every run of a replica from its start, whatever requests arrive at its port and whatever comes back for
  the requests it has sent, its log keeps the sentinel and consecutive indices, with room for one more; the applied and the committed position stay in
  order and within the log; every term fits 64 bits; the next index it keeps of a peer is at least 1 and fits 64 bits, the match index is not negative and its
  successor fits, so that no index computation wraps around; every number in the requests it sends fits; the three channels keep to their capacities of
  1, 1 and 256; and what it has committed at some point of the run it holds unchanged at every later point.
\<close>

theorem replica_withstands_any_input:
  assumes "replica_run es (newReplica cfg) = Some s" and "replica_run fs s = Some s'"
    and "n = lr_node s" and "n' = lr_node s'"
  shows "log_ok (nlog n') \<and> LastIndex (nlog n') < max_int \<and>
         0 \<le> lastApplied n' \<and> lastApplied n' \<le> commitIndex n' \<and> commitIndex n' \<le> LastIndex (nlog n') \<and>
         int64_ok (currentTerm n') \<and> (\<forall>e \<in> set (entries (nlog n')). int64_ok (le_Term e)) \<and>
         (\<forall>p i. nextIndex n' p = Some i \<longrightarrow> 1 \<le> i \<and> i \<le> max_int) \<and>
         (\<forall>p i. matchIndex n' p = Some i \<longrightarrow> 0 \<le> i \<and> i < max_int) \<and>
         (\<forall>(p, req) \<in> set (lr_sent s'). request_in_range req) \<and>
         length (resetElectionCh n') \<le> 1 \<and> length (newEntryCh n') \<le> 1 \<and> length (commitCh n') \<le> 256 \<and>
         commitIndex n \<le> commitIndex n' \<and>
         (\<forall>i. 0 \<le> i \<longrightarrow> i \<le> commitIndex n \<longrightarrow> GetEntry (nlog n') i = GetEntry (nlog n) i)"
proof -
  have s: "replica_ok s" using replica_run_sound [OF replica_ok_new assms(1)] by (simp add: sound_run_def)
  then have n: "node_ok n" by (simp add: replica_ok_def assms(3))
  from replica_run_sound [OF s assms(2)]
  have s': "node_ok n'" "log_fits n'" "\<forall>(p, req) \<in> set (lr_sent s'). sent_ok req" and k: "commitIndex n \<le> commitIndex n'"
    "take (Suc (nat (commitIndex n))) (entries (nlog n')) = take (Suc (nat (commitIndex n))) (entries (nlog n))"
    by (simp_all add: sound_run_def replica_ok_def keeps_committed_def committed_def assms(3,4))
  have "GetEntry (nlog n') i = GetEntry (nlog n) i" if "0 \<le> i" "i \<le> commitIndex n" for i
  proof -
    have "nat i < Suc (nat (commitIndex n))" using that by simp
    moreover have "i < int (length (entries (nlog n)))" "i < int (length (entries (nlog n')))"
      using that k(1) node_okD(6) [OF n] node_okD(6) [OF s'(1)] by linarith+
    ultimately show ?thesis using take_eq_nth [OF k(2), of "nat i"] that(1) by (simp add: GetEntry_def)
  qed
  moreover have "\<forall>(p, req) \<in> set (lr_sent s'). request_in_range req" using s'(3) by (auto simp: sent_ok_def)
  ultimately show ?thesis
    using node_okD [OF s'(1)] s'(2) k(1) by (simp add: LastIndex_def commitChCap_def log_fits_def peers_ok_def)
qed

text \<open>
  A first entry is committed; then come a conflict with the committed entry, in the largest term there is, and the largest conflict index as the answer to
  the request the replica sends as a leader.
\<close>

definition hostileLog :: AppendEntriesRequest where
  "hostileLog = appendDemo\<lparr>ar_Term := max_int, ar_Entries := [\<lparr>le_Index = 1, le_Term = 9, le_Stroke = zeroStroke\<rparr>]\<rparr>"

definition hostileHint :: AppendEntriesResponse where
  "hostileHint = \<lparr>ap_Term = - (2 ^ 63), ap_Success = False, ap_ConflictIndex = max_int\<rparr>"

definition hostileAsked :: AppendEntriesRequest where
  "hostileAsked =
     \<lparr>ar_Term = - (2 ^ 63), ar_LeaderID = ''n2'', ar_PrevLogIndex = 1, ar_PrevLogTerm = 1, ar_Entries = [], ar_LeaderCommit = 1\<rparr>"

definition hostileRun :: "replica_event list" where
  "hostileRun =
     [Serve (post_request ''/append-entries'' (enc_AppendEntriesRequest appendDemo)),
      Serve (post_request ''/append-entries'' (enc_AppendEntriesRequest hostileLog)),
      TimerFires, ElectionOver (- (2 ^ 63)) 2, SendAppend ''p1'',
      AppendReply ''p1'' hostileAsked (Some (http_json 200 (enc_AppendEntriesResponse hostileHint)))]"

definition demoConfig :: Config where
  "demoConfig = \<lparr>NodeID = ''n2'', PeerAddrs = [''p1'', ''p3''], GatewayAddr = ''g''\<rparr>"

theorem replica_withstands_any_input_witness:
  "\<exists>s'. replica_run hostileRun (newReplica demoConfig) = Some s' \<and> commitIndex (lr_node s') = 1 \<and>
     currentTerm (lr_node s') = - (2 ^ 63) \<and> nextIndex (lr_node s') ''p1'' = Some max_int \<and> log_ok (nlog (lr_node s'))"
proof -
  have "map_option (\<lambda>s'. (commitIndex (lr_node s'), currentTerm (lr_node s'), nextIndex (lr_node s') ''p1''))
      (replica_run hostileRun (newReplica demoConfig)) = Some (1, - (2 ^ 63), Some max_int)"
    by code_simp
  then obtain s' where s': "replica_run hostileRun (newReplica demoConfig) = Some s'" "commitIndex (lr_node s') = 1"
    "currentTerm (lr_node s') = - (2 ^ 63)" "nextIndex (lr_node s') ''p1'' = Some max_int"
    by (auto simp: map_option_case split: option.splits)
  have "replica_run [] (newReplica demoConfig) = Some (newReplica demoConfig)" by simp
  from replica_withstands_any_input [OF this s'(1) refl refl] s' show ?thesis by simp
qed

end
