(* ===== verification/GatewayServer.thy ===== *)
theory GatewayServer
  imports Gateway
begin

text \<open>
  The gateway's HTTP server, \<open>gateway/internal/gateway/server.go\<close>: the \<open>statusRecorder\<close> that every handler writes its answer through, the
  request log, and the server's settings. The handlers of \<open>Gateway\<close> give their answers as values; here they are the sequences of calls they make
  on an \<open>http.ResponseWriter\<close>, an interface of which \<open>net/http\<close>'s own writer and the recorder are two implementations, and
  the two views are shown to agree.
\<close>

section \<open>Response writers\<close>

text \<open>The interface, with the optional \<open>http.Hijacker\<close>; \<open>None\<close> is an error.\<close>

record 'w writer_ops =
  wo_WriteHeader :: "int \<Rightarrow> 'w \<Rightarrow> 'w"
  wo_Write :: "content \<Rightarrow> 'w \<Rightarrow> 'w"
  wo_Hijack :: "'w \<Rightarrow> 'w option"

text \<open>
  The writer of \<open>net/http\<close>: the first status counts, a write without one sends 200, and a hijacked connection takes no more
  writes. Connections of HTTP/1 can be hijacked and flushed.
\<close>

record ResponseWriter =
  w_status :: "int option"
  w_body :: "content list"
  w_hijacked :: bool
  w_hijacker :: bool
  w_flusher :: bool

definition newWriter :: "bool \<Rightarrow> bool \<Rightarrow> ResponseWriter" where
  "newWriter hj fl = \<lparr>w_status = None, w_body = [], w_hijacked = False, w_hijacker = hj, w_flusher = fl\<rparr>"

definition rw_WriteHeader :: "int \<Rightarrow> ResponseWriter \<Rightarrow> ResponseWriter" where
  "rw_WriteHeader code w = (if w_hijacked w \<or> w_status w \<noteq> None then w else w\<lparr>w_status := Some code\<rparr>)"

definition rw_Write :: "content \<Rightarrow> ResponseWriter \<Rightarrow> ResponseWriter" where
  "rw_Write c w =
     (if w_hijacked w then w else (rw_WriteHeader 200 w)\<lparr>w_body := w_body w @ [c]\<rparr>)"

definition rw_Hijack :: "ResponseWriter \<Rightarrow> ResponseWriter option" where
  "rw_Hijack w = (if \<not> w_hijacker w \<or> w_hijacked w then None else Some (w\<lparr>w_hijacked := True\<rparr>))"

definition rw_Flush :: "ResponseWriter \<Rightarrow> ResponseWriter" where
  "rw_Flush w = rw_WriteHeader 200 w"

definition rw_ops :: "ResponseWriter writer_ops" where
  "rw_ops = \<lparr>wo_WriteHeader = rw_WriteHeader, wo_Write = rw_Write, wo_Hijack = rw_Hijack\<rparr>"

text \<open>What the client has received when the handler has returned; nothing, over HTTP, from a hijacked connection.\<close>

definition body_content :: "content list \<Rightarrow> content" where
  "body_content cs = (case cs of [c] \<Rightarrow> c | _ \<Rightarrow> Empty)"

definition rw_finish :: "ResponseWriter \<Rightarrow> HttpResponse option" where
  "rw_finish w =
     (if w_hijacked w then None
      else Some \<lparr>rs_Status = (case w_status w of None \<Rightarrow> 200 | Some s \<Rightarrow> s), rs_Content = body_content (w_body w)\<rparr>)"

section \<open>The status recorder\<close>

record statusRecorder =
  rec_writer :: ResponseWriter
  rec_status :: int

definition rec_WriteHeader :: "int \<Rightarrow> statusRecorder \<Rightarrow> statusRecorder" where
  "rec_WriteHeader code s = s\<lparr>rec_status := code, rec_writer := rw_WriteHeader code (rec_writer s)\<rparr>"

text \<open>\<open>Write\<close> is the embedded writer's own method.\<close>

definition rec_Write :: "content \<Rightarrow> statusRecorder \<Rightarrow> statusRecorder" where
  "rec_Write c s = s\<lparr>rec_writer := rw_Write c (rec_writer s)\<rparr>"

definition rec_Hijack :: "statusRecorder \<Rightarrow> statusRecorder option" where
  "rec_Hijack s =
     (if \<not> w_hijacker (rec_writer s) then None
      else map_option (\<lambda>w. s\<lparr>rec_writer := w\<rparr>) (rw_Hijack (rec_writer s)))"

definition rec_Flush :: "statusRecorder \<Rightarrow> statusRecorder" where
  "rec_Flush s = (if w_flusher (rec_writer s) then s\<lparr>rec_writer := rw_Flush (rec_writer s)\<rparr> else s)"

definition rec_ops :: "statusRecorder writer_ops" where
  "rec_ops = \<lparr>wo_WriteHeader = rec_WriteHeader, wo_Write = rec_Write, wo_Hijack = rec_Hijack\<rparr>"

section \<open>The handlers' calls\<close>

definition http_Error :: "'w writer_ops \<Rightarrow> string \<Rightarrow> int \<Rightarrow> 'w \<Rightarrow> 'w" where
  "http_Error ops msg code w = wo_Write ops (Text msg) (wo_WriteHeader ops code w)"

definition write_HandleCommit :: "'w writer_ops \<Rightarrow> Hub \<Rightarrow> HttpRequest \<Rightarrow> 'w \<Rightarrow> Hub \<times> 'w" where
  "write_HandleCommit ops h r w =
     (if rq_Method r \<noteq> ''POST'' then (h, http_Error ops ''method not allowed'' 405 w)
      else
        case decode_body dec_CommitNotification zeroCommitNotification r of
          None \<Rightarrow> (h, http_Error ops ''invalid request body'' 400 w)
        | Some notification \<Rightarrow>
            if \<not> finite_stroke (cn_Stroke notification) then (h, http_Error ops ''internal error'' 500 w)
            else (snd (Broadcast h (strokeMessage (cn_Stroke notification))), wo_WriteHeader ops 200 w))"

definition write_HandleHealth :: "'w writer_ops \<Rightarrow> 'w \<Rightarrow> 'w" where
  "write_HandleHealth ops w = wo_Write ops (Json (JObj [(''status'', JStr ''ok'')])) w"

definition write_HandleStatus :: "'w writer_ops \<Rightarrow> Hub \<Rightarrow> Tracker \<Rightarrow> 'w \<Rightarrow> 'w" where
  "write_HandleStatus ops h t w =
     wo_Write ops (Json (JObj [(''clients'', enc_int (int (ClientCount h))), (''leader'', JStr (LeaderAddr t))])) w"

definition write_HandleLeader :: "'w writer_ops \<Rightarrow> Tracker \<Rightarrow> 'w \<Rightarrow> 'w" where
  "write_HandleLeader ops t w =
     wo_Write ops (Json (JObj [(''leader'', JStr (LeaderAddr t)), (''leaderAddr'', JStr (LeaderAddr t))])) w"

definition write_HandleMetrics :: "'w writer_ops \<Rightarrow> Hub \<Rightarrow> 'w \<Rightarrow> 'w" where
  "write_HandleMetrics ops h w =
     wo_Write ops (Text (''smolraft_gateway_connected_clients '' @ show_int (int (ClientCount h)) @ [CHR 0x0A])) w"

text \<open>
  The upgrade of the WebSocket library: an answer of its own to a request that is no handshake (the parameter), otherwise the
  connection is hijacked, or refused if that fails.
\<close>

definition ws_Upgrade :: "'w writer_ops \<Rightarrow> (HttpRequest \<Rightarrow> HttpResponse option) \<Rightarrow> HttpRequest \<Rightarrow> 'w \<Rightarrow> 'w" where
  "ws_Upgrade ops upgrade_error r w =
     (case upgrade_error r of
        Some resp \<Rightarrow> wo_Write ops (rs_Content resp) (wo_WriteHeader ops (rs_Status resp) w)
      | None \<Rightarrow> (case wo_Hijack ops w of Some w' \<Rightarrow> w' | None \<Rightarrow> http_Error ops ''Internal Server Error'' 500 w))"

definition mux_ServeHTTP ::
    "'w writer_ops \<Rightarrow> (HttpRequest \<Rightarrow> HttpResponse option) \<Rightarrow> Hub \<Rightarrow> Tracker \<Rightarrow> HttpRequest \<Rightarrow> 'w \<Rightarrow> Hub \<times> 'w" where
  "mux_ServeHTTP ops upgrade_error h t r w =
     (if rq_Path r = ''/ws'' then (h, ws_Upgrade ops upgrade_error r w)
      else if rq_Path r = ''/commit'' then write_HandleCommit ops h r w
      else if rq_Path r = ''/health'' then (h, write_HandleHealth ops w)
      else if rq_Path r = ''/status'' then (h, write_HandleStatus ops h t w)
      else if rq_Path r = ''/leader'' then (h, write_HandleLeader ops t w)
      else if rq_Path r = ''/metrics'' then (h, write_HandleMetrics ops h w)
      else (h, http_Error ops ''404 page not found'' 404 w))"

section \<open>The server\<close>

record log_line =
  lg_method :: string
  lg_path :: string
  lg_status :: int

definition loggedHandler ::
    "(HttpRequest \<Rightarrow> HttpResponse option) \<Rightarrow> Hub \<Rightarrow> Tracker \<Rightarrow> HttpRequest \<Rightarrow> ResponseWriter \<Rightarrow> Hub \<times> ResponseWriter \<times> log_line" where
  "loggedHandler upgrade_error h t r w =
     (case mux_ServeHTTP rec_ops upgrade_error h t r \<lparr>rec_writer = w, rec_status = 200\<rparr> of
        (h', rec) \<Rightarrow>
          (h', rec_writer rec, \<lparr>lg_method = rq_Method r, lg_path = rq_Path r, lg_status = rec_status rec\<rparr>))"

section \<open>What every response writer promises\<close>

text \<open>
  The contract of the interface, on a connection that is open: a status that is set before anything is written is the answer's, a
  write without a status sends 200, and the parts written follow each other.
\<close>

locale response_writer =
  fixes ops :: "'w writer_ops" and live :: "'w \<Rightarrow> bool" and sent :: "'w \<Rightarrow> int option \<times> content list"
  assumes header_live: "live w \<Longrightarrow> sent w = (None, b) \<Longrightarrow> live (wo_WriteHeader ops c w)"
    and write_live: "live w \<Longrightarrow> live (wo_Write ops x w)"
    and header_sent: "live w \<Longrightarrow> sent w = (None, b) \<Longrightarrow> sent (wo_WriteHeader ops c w) = (Some c, b)"
    and write_sent: "live w \<Longrightarrow> sent w = (s, b) \<Longrightarrow>
        sent (wo_Write ops x w) = (Some (case s of None \<Rightarrow> 200 | Some c \<Rightarrow> c), b @ [x])"
begin

definition answered :: "'w \<Rightarrow> HttpResponse \<Rightarrow> bool" where
  "answered w resp \<longleftrightarrow> live w \<and>
     (\<exists>b. sent w = (Some (rs_Status resp), b) \<and> body_content b = rs_Content resp)"

lemma error_answered: "live w \<Longrightarrow> sent w = (None, []) \<Longrightarrow> answered (http_Error ops msg code w) (http_error msg code)"
  by (simp add: answered_def http_Error_def http_error_def header_live write_live header_sent write_sent body_content_def)

lemma write_answered:
  "live w \<Longrightarrow> sent w = (None, []) \<Longrightarrow> answered (wo_Write ops x w) \<lparr>rs_Status = 200, rs_Content = x\<rparr>"
  by (simp add: answered_def write_live write_sent body_content_def)

lemma header_answered:
  "live w \<Longrightarrow> sent w = (None, []) \<Longrightarrow> answered (wo_WriteHeader ops c w) \<lparr>rs_Status = c, rs_Content = Empty\<rparr>"
  by (simp add: answered_def header_live header_sent body_content_def)

lemma header_write_answered:
  "live w \<Longrightarrow> sent w = (None, []) \<Longrightarrow>
   answered (wo_Write ops (rs_Content resp) (wo_WriteHeader ops (rs_Status resp) w)) resp"
  by (simp add: answered_def header_live write_live header_sent write_sent body_content_def)

text \<open>Every handler answers through the writer what \<open>gateway_serve\<close> says.\<close>

lemma commit_answered:
  assumes "live w" and "sent w = (None, [])" and "HandleCommit h r = (h', resp)"
  shows "\<exists>w'. write_HandleCommit ops h r w = (h', w') \<and> answered w' resp"
  using assms(3) error_answered [OF assms(1,2)] header_answered [OF assms(1,2)]
  by (auto simp: HandleCommit_def write_HandleCommit_def split: if_splits option.splits)

lemma mux_answered:
  assumes "live w" and "sent w = (None, [])" and "gateway_serve up h t r = (h', Reply resp)"
  shows "\<exists>w'. mux_ServeHTTP ops up h t r w = (h', w') \<and> answered w' resp"
proof (cases "rq_Path r = ''/commit''")
  case True
  then have "HandleCommit h r = (h', resp)" using assms(3) by (auto simp: gateway_serve_def split: prod.splits)
  from commit_answered [OF assms(1,2) this] True show ?thesis by (simp add: mux_ServeHTTP_def)
next
  case False
  then show ?thesis
    using assms(3) error_answered [OF assms(1,2)] write_answered [OF assms(1,2)] header_write_answered [OF assms(1,2)]
    by (auto simp: gateway_serve_def mux_ServeHTTP_def ws_Upgrade_def write_HandleHealth_def write_HandleStatus_def
        write_HandleLeader_def write_HandleMetrics_def HandleHealth_def HandleStatus_def HandleLeader_def
        HandleMetrics_def http_json_def split: if_splits option.splits)
qed

end

text \<open>
  Both writers keep the contract. The recorder keeps it with more: as long as no handler sets a second status, the status it
  records is the one that is sent.
\<close>

definition recorded :: "statusRecorder \<Rightarrow> bool" where
  "recorded s \<longleftrightarrow>
     \<not> w_hijacked (rec_writer s) \<and> rec_status s = (case w_status (rec_writer s) of None \<Rightarrow> 200 | Some c \<Rightarrow> c)"

interpretation plain: response_writer rw_ops "\<lambda>w. \<not> w_hijacked w" "\<lambda>w. (w_status w, w_body w)"
  by unfold_locales (auto simp: rw_ops_def rw_WriteHeader_def rw_Write_def split: option.split)

interpretation recorder: response_writer rec_ops recorded "\<lambda>s. (w_status (rec_writer s), w_body (rec_writer s))"
  by unfold_locales
    (auto simp: rec_ops_def rec_WriteHeader_def rec_Write_def recorded_def rw_WriteHeader_def rw_Write_def split: option.splits)

lemma recorder_answered:
  assumes "recorder.answered s resp"
  shows "rw_finish (rec_writer s) = Some resp" and "rec_status s = rs_Status resp"
  using assms by (auto simp: recorder.answered_def recorded_def rw_finish_def)

text \<open>A second status would be recorded, but not sent.\<close>

lemma second_status_recorded:
  "rec_status (rec_WriteHeader b (rec_WriteHeader a \<lparr>rec_writer = newWriter hj fl, rec_status = 200\<rparr>)) = b \<and>
   w_status (rec_writer (rec_WriteHeader b (rec_WriteHeader a \<lparr>rec_writer = newWriter hj fl, rec_status = 200\<rparr>))) = Some a"
  by (simp add: rec_WriteHeader_def rw_WriteHeader_def newWriter_def)

section \<open>Property\<close>

text \<open>
  C30. Answers and the request log. Through the recorder, over a connection of HTTP/1, the handlers do to the hub what \<open>gateway_serve\<close> says and the client receives exactly the
  answer \<open>gateway_serve\<close> gives; the request log has one line for the request, with its method, its path and the status the client received. A
  connection upgraded to a WebSocket is handed over, and logged with status 200.
\<close>

theorem answers_are_logged:
  assumes "gateway_serve up h t r = (h', ans)" and "loggedHandler up h t r (newWriter True fl) = (h'', w', line)"
  shows "h'' = h' \<and> lg_method line = rq_Method r \<and> lg_path line = rq_Path r \<and>
    (case ans of
       Reply resp \<Rightarrow> rw_finish w' = Some resp \<and> lg_status line = rs_Status resp
     | ServeWS \<Rightarrow> w_hijacked w' \<and> rw_finish w' = None \<and> lg_status line = 200)"
proof (cases ans)
  case (Reply resp)
  let ?s = "\<lparr>rec_writer = newWriter True fl, rec_status = 200\<rparr>"
  have "recorded ?s" "(w_status (rec_writer ?s), w_body (rec_writer ?s)) = (None, [])"
    by (simp_all add: recorded_def newWriter_def)
  from recorder.mux_answered [OF this assms(1) [unfolded Reply]] obtain s' where
    s': "mux_ServeHTTP rec_ops up h t r ?s = (h', s')" "recorder.answered s' resp" by blast
  then show ?thesis using assms(2) recorder_answered [OF s'(2)] by (auto simp: loggedHandler_def Reply)
next
  case ServeWS
  then have "rq_Path r = ''/ws''" "up r = None" "h' = h"
    using assms(1) by (auto simp: gateway_serve_def split: if_splits option.splits prod.splits)
  then show ?thesis
    using assms(2) ServeWS
    by (auto simp: loggedHandler_def mux_ServeHTTP_def ws_Upgrade_def rec_ops_def rec_Hijack_def rw_Hijack_def newWriter_def rw_finish_def)
qed

theorem answers_are_logged_witness:
  "\<exists>h w line. loggedHandler (\<lambda>_. None) NewHub (NewTracker [])
       \<lparr>rq_Method = ''GET'', rq_Path = ''/commit'', rq_From = [], rq_Body = None\<rparr> (newWriter True True) = (h, w, line) \<and>
     rw_finish w = Some (http_error ''method not allowed'' 405) \<and> lg_status line = 405"
proof -
  let ?r = "\<lparr>rq_Method = ''GET'', rq_Path = ''/commit'', rq_From = [], rq_Body = None\<rparr>"
  have g: "gateway_serve (\<lambda>_. None) NewHub (NewTracker []) ?r = (NewHub, Reply (http_error ''method not allowed'' 405))"
    by (simp add: gateway_serve_def HandleCommit_def)
  obtain h w line where l: "loggedHandler (\<lambda>_. None) NewHub (NewTracker []) ?r (newWriter True True) = (h, w, line)"
    using prod_cases3 by blast
  from answers_are_logged [OF g l] l show ?thesis by (auto simp: http_error_def)
qed

end
