(* ===== verification/GatewayTime.thy ===== *)
theory GatewayTime
  imports Gateway Timed
begin

text \<open>
  The gateway in time: how long its calls to the replicas take, the loop of \<open>Tracker.Start\<close> (\<open>gateway/internal/leader/tracker.go\<close>) with its
  ticker and its context. Time is in nanoseconds. A call takes as long as the network makes it take, and is given up at the time limit
  of the HTTP client that makes it, whether or not the replica has handled the request.
\<close>

section \<open>Time limits\<close>

definition Second :: int where
  "Second = 1000 * Millisecond"

definition PollInterval :: int where
  "PollInterval = 2 * Second"

definition PollTimeout :: int where
  "PollTimeout = 500 * Millisecond"

definition strokeForwardTimeout :: int where
  "strokeForwardTimeout = 2 * Second"

text \<open>The tracker's client makes the status calls, the handler's client all others.\<close>

definition call_limit :: "HttpRequest \<Rightarrow> int" where
  "call_limit r = (if rq_Path r = ''/status'' then PollTimeout else strokeForwardTimeout)"

section \<open>A network that takes time\<close>

text \<open>The time each of the next calls would take; calls beyond the list are answered at once.\<close>

record SlowWire =
  sw_now :: int
  sw_delays :: "int list"
  sw_wire :: Wire

definition slow_net :: "SlowWire net" where
  "slow_net addr r = State (\<lambda>w.
     let d = (case sw_delays w of [] \<Rightarrow> 0 | d # _ \<Rightarrow> max 0 d);
         (x, wire) = run_state (cluster_net addr r) (sw_wire w);
         w1 = w\<lparr>sw_delays := tl (sw_delays w), sw_wire := wire, sw_now := sw_now w + min d (call_limit r)\<rparr>
     in (if d < call_limit r then x else None, w1))"

lemma limits_pos: "0 < Second" "0 < PollInterval" "0 < PollTimeout" "0 < strokeForwardTimeout" "0 < call_limit r"
  by (simp_all add: Second_def PollInterval_def PollTimeout_def strokeForwardTimeout_def call_limit_def Millisecond_def)

interpretation slow: bounded_calls slow_net sw_now call_limit
  by unfold_locales
    (use less_imp_le [OF limits_pos(5)] in \<open>auto simp: slow_net_def Let_def min_def max_def
      split: prod.splits list.splits if_splits\<close>)

text \<open>When no call is delayed and the replicas hold still, discovery works over this network as over the plain one.\<close>

definition prompt :: "SlowWire \<Rightarrow> bool" where
  "prompt w \<longleftrightarrow> sw_delays w = [] \<and> calm (sw_wire w)"

lemma slow_net_prompt:
  assumes "sw_delays w = []"
  shows "run_state (slow_net a r) w =
    (case run_state (cluster_net a r) (sw_wire w) of (x, wire) \<Rightarrow> (x, w\<lparr>sw_wire := wire\<rparr>))"
  using assms limits_pos(5) [of r] by (simp add: slow_net_def Let_def split: prod.split)

interpretation slow_status: status_service slow_net prompt "\<lambda>w. status_of (sw_wire w)"
proof
  fix w a
  assume "prompt w"
  then have p: "sw_delays w = []" "calm (sw_wire w)" by (simp_all add: prompt_def)
  obtain x wire where n: "run_state (cluster_net a status_request) (sw_wire w) = (x, wire)" by fastforce
  with fetchStatus_cluster [OF p(2), of a] have "read_status x = status_of (sw_wire w) a" "wire = sw_wire w"
    by (auto simp: fetchStatus_def)
  with n show "run_state (fetchStatus slow_net a) w = (status_of (sw_wire w) a, w)"
    by (simp add: fetchStatus_def slow_net_prompt p(1))
qed

section \<open>The time a stroke takes\<close>

lemma forward_attempt_time:
  assumes "run_state (forwardToLeaderAddr slow_net stroke a) w = (e, w')"
  shows "sw_now w \<le> sw_now w' \<and> sw_now w' \<le> sw_now w + strokeForwardTimeout"
  using assms slow.call_cost limits_pos(4)
  by (fastforce simp: forwardToLeaderAddr_def call_limit_def post_request_def split: if_splits prod.splits)

lemma status_limit: "call_limit status_request = PollTimeout"
  by (simp add: call_limit_def status_request_def)

text \<open>
  C27. How long a stroke takes. Whatever the network does, \<open>forwardToLeader\<close> returns after at most two attempts of two seconds and
  one poll, which for \<open>n\<close> replicas takes at most \<open>n * (n + 1)\<close> status calls of half a second.
\<close>

theorem forward_time_bound:
  assumes "run_state (forwardToLeader slow_net t stroke) w = (r, w')"
  shows "sw_now w \<le> sw_now w' \<and>
    sw_now w' - sw_now w \<le> 2 * strokeForwardTimeout +
      int (length (replicaAddrs t) * (length (replicaAddrs t) + 1)) * PollTimeout"
proof -
  obtain t' e where r: "r = (t', e)" by fastforce
  have n: "0 \<le> int (length (replicaAddrs t) * (length (replicaAddrs t) + 1)) * PollTimeout"
    using limits_pos(3) by simp
  from assms [unfolded r] show ?thesis
  proof (cases rule: forward_cases)
    case first
    then show ?thesis using forward_attempt_time [OF first(3)] n limits_pos(4) by simp
  next
    case (retry e1 w1 w2)
    from slow.PollOnce_cost [OF retry(2)] forward_attempt_time [OF retry(1)] forward_attempt_time [OF retry(3)]
    show ?thesis unfolding status_limit by linarith
  qed
qed

text \<open>Three overloaded replicas: two followers that name the leader, and the leader, which hardly answers in time.\<close>

definition slowWire :: Wire where
  "slowWire =
     \<lparr>wire_nodes = [''r1:9001'' \<mapsto> voterDemo\<lparr>leaderID := ''n3''\<rparr>, ''r2:9001'' \<mapsto> voterDemo\<lparr>leaderID := ''n3''\<rparr>,
                    ''r3:9001'' \<mapsto> voterDemo\<lparr>nid := ''n3'', nstate := Leader\<rparr>], wire_fates = []\<rparr>"

definition slowCluster :: SlowWire where
  "slowCluster =
     (let near = 490 * Millisecond
      in \<lparr>sw_now = 0, sw_delays = [3 * Second, near, near, near, Second, near, near, near, Second, near, 3 * Second],
          sw_wire = slowWire\<lparr>wire_fates := [RequestLost]\<rparr>\<rparr>)"

definition slowTracker :: Tracker where
  "slowTracker = \<lparr>leaderAddr = ''r3:9001'', replicaAddrs = [''r1:9001'', ''r2:9001'', ''r3:9001'']\<rparr>"

theorem forward_time_bound_witness:
  "sw_now (snd (run_state (forwardToLeader slow_net slowTracker zeroStroke) slowCluster)) \<le> 10 * Second"
proof -
  obtain r w' where r: "run_state (forwardToLeader slow_net slowTracker zeroStroke) slowCluster = (r, w')" by fastforce
  from forward_time_bound [OF r] r show ?thesis
    by (simp add: slowTracker_def slowCluster_def Second_def strokeForwardTimeout_def PollTimeout_def Millisecond_def)
qed

section \<open>The tracker's loop\<close>

text \<open>
  \<open>Tracker.Start\<close>: a poll at once, then one at every tick, until the context is cancelled. A cancelled context may find the ticker ready as well, and the loop
  then polls once more; its calls are made with that context, so each of them fails at once. A poll is one action: cancelling falls between polls. Meanwhile time passes, the replicas change, and
  other goroutines poll as well (\<open>TkOther\<close>). An operation is \<open>None\<close> while the loop is not ready for it.
\<close>

definition ctx_net :: "bool \<Rightarrow> SlowWire net" where
  "ctx_net cancelled addr r = (if cancelled then State_Monad.return None else slow_net addr r)"

interpretation ctx: bounded_calls "ctx_net cancelled" sw_now call_limit for cancelled
  by unfold_locales
    (use slow.call_cost less_imp_le [OF limits_pos(5)] in \<open>auto simp: ctx_net_def split: if_splits\<close>)

lemma ctx_net_live [simp]: "ctx_net False = slow_net"
  by (simp add: ctx_net_def fun_eq_iff)

text \<open>A poll with a cancelled context finds nobody and clears the cache.\<close>

lemma cancelled_poll: "run_state (PollOnce (ctx_net True) t) w = (setLeader t [], w)"
proof -
  have "run_state (poll_addrs (ctx_net True) all addrs) w = (None, w)" for all addrs
    by (induction addrs) (simp_all add: fetchStatus_def ctx_net_def read_status_def)
  then show ?thesis by (simp add: PollOnce_def)
qed

datatype trackerPhase = TkStarting | TkLooping | TkEnded

record TrackerRun =
  tk_tracker :: Tracker
  tk_world :: SlowWire
  tk_phase :: trackerPhase
  tk_tickAt :: int
  tk_cancelled :: bool

definition Tracker_Start :: "Tracker \<Rightarrow> SlowWire \<Rightarrow> TrackerRun" where
  "Tracker_Start t w = \<lparr>tk_tracker = t, tk_world = w, tk_phase = TkStarting, tk_tickAt = 0, tk_cancelled = False\<rparr>"

definition Start_first :: "TrackerRun \<Rightarrow> TrackerRun option" where
  "Start_first s =
     (if tk_phase s = TkStarting then
        (case run_state (PollOnce (ctx_net (tk_cancelled s)) (tk_tracker s)) (tk_world s) of
           (t, w) \<Rightarrow> Some (s\<lparr>tk_tracker := t, tk_world := w, tk_phase := TkLooping, tk_tickAt := sw_now w + PollInterval\<rparr>))
      else None)"

definition Start_tick :: "TrackerRun \<Rightarrow> TrackerRun option" where
  "Start_tick s =
     (if tk_phase s = TkLooping \<and> tk_tickAt s \<le> sw_now (tk_world s) then
        (case run_state (PollOnce (ctx_net (tk_cancelled s)) (tk_tracker s)) (tk_world s) of
           (t, w) \<Rightarrow> Some (s\<lparr>tk_tracker := t, tk_world := w,
                           tk_tickAt := nextTick PollInterval (tk_tickAt s) (sw_now (tk_world s))\<rparr>))
      else None)"

definition Start_done :: "TrackerRun \<Rightarrow> TrackerRun option" where
  "Start_done s = (if tk_phase s = TkLooping \<and> tk_cancelled s then Some (s\<lparr>tk_phase := TkEnded\<rparr>) else None)"

datatype tracker_event = TkFirst | TkTick | TkDone | TkCancel | TkOther string SlowWire

fun tracker_exec :: "tracker_event \<Rightarrow> TrackerRun \<Rightarrow> TrackerRun option" where
  "tracker_exec TkFirst s = Start_first s"
| "tracker_exec TkTick s = Start_tick s"
| "tracker_exec TkDone s = Start_done s"
| "tracker_exec TkCancel s = Some (s\<lparr>tk_cancelled := True\<rparr>)"
| "tracker_exec (TkOther a w) s =
     (if sw_now (tk_world s) \<le> sw_now w then Some (s\<lparr>tk_tracker := setLeader (tk_tracker s) a, tk_world := w\<rparr>) else None)"

abbreviation tracker_run :: "tracker_event list \<Rightarrow> TrackerRun \<Rightarrow> TrackerRun option" where
  "tracker_run \<equiv> run_events tracker_exec"

definition tracker_ok :: "string list \<Rightarrow> TrackerRun \<Rightarrow> bool" where
  "tracker_ok addrs s \<longleftrightarrow>
     replicaAddrs (tk_tracker s) = addrs \<and> (tk_phase s = TkLooping \<longrightarrow> tk_tickAt s \<le> sw_now (tk_world s) + PollInterval)"

lemma PollOnce_addrs: "run_state (PollOnce net t) w = (t', w') \<Longrightarrow> replicaAddrs t' = replicaAddrs t"
  by (auto simp: PollOnce_def setLeader_def split: prod.splits)

lemma tracker_ok_exec:
  assumes "tracker_ok addrs s" and "tracker_exec e s = Some s'"
  shows "tracker_ok addrs s'"
proof (cases e)
  case TkFirst
  obtain t w where p: "run_state (PollOnce (ctx_net (tk_cancelled s)) (tk_tracker s)) (tk_world s) = (t, w)" by fastforce
  then show ?thesis
    using TkFirst assms PollOnce_addrs [OF p] by (auto simp: Start_first_def tracker_ok_def split: if_splits)
next
  case TkTick
  obtain t w where p: "run_state (PollOnce (ctx_net (tk_cancelled s)) (tk_tracker s)) (tk_world s) = (t, w)" by fastforce
  have "nextTick PollInterval (tk_tickAt s) (sw_now (tk_world s)) \<le> sw_now (tk_world s) + PollInterval"
    if "tk_tickAt s \<le> sw_now (tk_world s)"
    using nextTick_bounds [OF limits_pos(2) that] by simp
  then show ?thesis
    using TkTick assms PollOnce_addrs [OF p] ctx.PollOnce_cost(1) [OF p] p
    by (fastforce simp: Start_tick_def tracker_ok_def split: if_splits)
qed (use assms in \<open>auto simp: tracker_ok_def Start_done_def setLeader_def split: if_splits\<close>)

lemma tracker_ok_run: "tracker_run es s = Some s' \<Longrightarrow> tracker_ok addrs s \<Longrightarrow> tracker_ok addrs s'"
  by (erule (1) run_events_invariant) (rule tracker_ok_exec)

text \<open>
  C26. The tracker keeps up. In every run of the tracker's loop, whatever other goroutines did to the cached address, the next poll is due within two
  seconds. If the context is not cancelled, the replicas answer promptly by then and one of them leads, that poll leaves the address of a leader in the
  cache; with the context cancelled, it leaves none.
\<close>

theorem tracker_keeps_up:
  assumes "tracker_run es (Tracker_Start (NewTracker addrs) w0) = Some s" and "tk_phase s = TkLooping"
    and "[] \<notin> set addrs" and "prompt (tk_world s)" and "a \<in> set addrs" and "wire_nodes (sw_wire (tk_world s)) a = Some n" and "nstate n = Leader"
  shows "\<exists>d s'. 0 \<le> d \<and> d \<le> PollInterval \<and>
    tracker_run [TkOther (LeaderAddr (tk_tracker s)) ((tk_world s)\<lparr>sw_now := sw_now (tk_world s) + d\<rparr>), TkTick] s = Some s' \<and>
    (if tk_cancelled s then LeaderAddr (tk_tracker s') = []
     else \<exists>m. wire_nodes (sw_wire (tk_world s')) (LeaderAddr (tk_tracker s')) = Some m \<and> nstate m = Leader)"
proof -
  have ok: "tracker_ok addrs s"
    by (rule tracker_ok_run [OF assms(1)]) (simp add: tracker_ok_def Tracker_Start_def NewTracker_def)
  let ?w = "tk_world s"
  let ?d = "max 0 (tk_tickAt s - sw_now ?w)"
  let ?w' = "?w\<lparr>sw_now := sw_now ?w + ?d\<rparr>" and ?t = "setLeader (tk_tracker s) (LeaderAddr (tk_tracker s))"
  have d: "0 \<le> ?d" "?d \<le> PollInterval" using ok assms(2) limits_pos(2) by (auto simp: tracker_ok_def)
  have "[] \<notin> set (replicaAddrs ?t)" "prompt ?w'" "\<exists>s. status_of (sw_wire ?w') a = Some s \<and> is_leader s"
    "a \<in> set (replicaAddrs ?t)"
    using ok assms(3-7) by (auto simp: tracker_ok_def prompt_def setLeader_def status_of_def is_leader_Status)
  with slow_status.PollOnce_correct [of ?w' ?t] obtain t' where
    t': "run_state (PollOnce slow_net ?t) ?w' = (t', ?w')"
      "\<exists>s. status_of (sw_wire ?w') (LeaderAddr t') = Some s \<and> is_leader s"
    by (auto split: if_splits)
  from t'(2) obtain m where m: "wire_nodes (sw_wire ?w) (LeaderAddr t') = Some m" "nstate m = Leader"
    by (auto simp: status_of_def is_leader_Status)
  show ?thesis
    using d t'(1) m assms(2)
    by (intro exI [of _ ?d]) (cases "tk_cancelled s"; simp add: Start_tick_def cancelled_poll setLeader_def LeaderAddr_def)
qed

theorem tracker_keeps_up_witness:
  "\<exists>d s s'. tracker_run [TkFirst] (Tracker_Start (NewTracker [''r1:9001'', ''r2:9001'']) \<lparr>sw_now = 0, sw_delays = [], sw_wire = demoWire\<rparr>) = Some s \<and>
     0 \<le> d \<and> d \<le> PollInterval \<and>
     tracker_run [TkOther (LeaderAddr (tk_tracker s)) ((tk_world s)\<lparr>sw_now := sw_now (tk_world s) + d\<rparr>), TkTick] s = Some s' \<and>
     (\<exists>m. wire_nodes (sw_wire (tk_world s')) (LeaderAddr (tk_tracker s')) = Some m \<and> nstate m = Leader)"
proof -
  let ?w = "\<lparr>sw_now = 0, sw_delays = [], sw_wire = demoWire\<rparr>" and ?as = "[''r1:9001'', ''r2:9001'']"
  have p: "prompt ?w" by (simp add: prompt_def calm_demoWire)
  obtain t' where t': "run_state (PollOnce slow_net (NewTracker ?as)) ?w = (t', ?w)"
    using slow_status.PollOnce_correct [OF p, of "NewTracker ?as"] by (auto simp: NewTracker_def)
  then obtain s where s: "tracker_run [TkFirst] (Tracker_Start (NewTracker ?as) ?w) = Some s" "tk_phase s = TkLooping" "tk_world s = ?w" "\<not> tk_cancelled s"
    by (simp add: Tracker_Start_def Start_first_def)
  have "[] \<notin> set ?as" "''r2:9001'' \<in> set ?as" by simp_all
  moreover have "wire_nodes (sw_wire (tk_world s)) ''r2:9001'' = Some (voterDemo\<lparr>nstate := Leader\<rparr>)"
    by (simp add: s(3) demoWire_def)
  moreover have "prompt (tk_world s)" using p by (simp add: s(3))
  ultimately show ?thesis using tracker_keeps_up [OF s(1,2)] s(1,4) by fastforce
qed

end
