(* ===== verification/Connection.thy ===== *)
theory Connection
  imports GatewayTime
begin

text \<open>
  The keep-alive of one client's WebSocket connection, \<open>readPump\<close> and \<open>writePump\<close> of \<open>gateway/internal/gateway/handler.go\<close>, in time: the
  read deadline that only a pong extends, the ping ticker, and the read pump's absence while it forwards a stroke. What the pumps do with the
  messages themselves is in \<open>Gateway\<close> and \<open>GatewayRun\<close>.

  The WebSocket library is a parameter. \<open>lib\<close> says what a call of \<open>ReadMessage\<close> does next, given the library's own state, the read limit, the
  read deadline and the time: it calls the pong handler, returns a message, fails because of the deadline, fails otherwise
  (a closed connection, a message above the limit), or goes on. What arrives from the peer changes the library's state in any way.
  The properties rely on two documented facts of Go's connections, as hypotheses: a read fails with a timeout only when its deadline has
  passed (\<open>deadline_respected\<close>), and once it has passed, a read that finds nothing the library has read before fails (\<open>deadline_enforced\<close>).
\<close>

section \<open>The library\<close>

datatype ws_result = PongRead | MessageRead | TimedOut | ReadFailed | Pending

type_synonym 'l ws_lib = "'l \<Rightarrow> nat \<Rightarrow> int \<Rightarrow> int \<Rightarrow> 'l \<times> ws_result"

definition deadline_respected :: "'l ws_lib \<Rightarrow> bool" where
  "deadline_respected lib \<longleftrightarrow> (\<forall>l limit deadline t. snd (lib l limit deadline t) = TimedOut \<longrightarrow> deadline \<le> t)"

definition deadline_enforced :: "'l ws_lib \<Rightarrow> ('l \<Rightarrow> bool) \<Rightarrow> bool" where
  "deadline_enforced lib unbuffered \<longleftrightarrow>
     (\<forall>l limit deadline t. unbuffered l \<longrightarrow> deadline \<le> t \<longrightarrow> snd (lib l limit deadline t) = TimedOut)"

section \<open>The connection\<close>

definition pongWait :: int where
  "pongWait = 60 * Second"

definition pingPeriod :: int where
  "pingPeriod = (pongWait * 9) div 10"

definition maxMessageSize :: nat where
  "maxMessageSize = 8192"

datatype readerPhase = AtRead | Forwarding | Gone

record 'l Conn =
  co_now :: int
  co_lib :: 'l
  co_limit :: nat
  co_deadline :: int
  co_reader :: readerPhase
  co_pingAt :: int
  co_pings :: nat
  co_writer :: bool

text \<open>Both pumps have begun: the limit and the first deadline are set and the ticker runs.\<close>

definition startPumps :: "'l \<Rightarrow> int \<Rightarrow> 'l Conn" where
  "startPumps l t =
     \<lparr>co_now = t, co_lib = l, co_limit = maxMessageSize, co_deadline = t + pongWait, co_reader = AtRead,
      co_pingAt = t + pingPeriod, co_pings = 0, co_writer = True\<rparr>"

definition pongHandler :: "'l Conn \<Rightarrow> 'l Conn" where
  "pongHandler c = c\<lparr>co_deadline := co_now c + pongWait\<rparr>"

text \<open>\<open>readPump\<close>: what the library does next in \<open>ReadMessage\<close>, and the end of the forwarding of a message.\<close>

definition read_next :: "'l ws_lib \<Rightarrow> 'l Conn \<Rightarrow> ('l Conn \<times> ws_result) option" where
  "read_next lib c =
     (if co_reader c \<noteq> AtRead then None
      else
        case lib (co_lib c) (co_limit c) (co_deadline c) (co_now c) of
          (l, r) \<Rightarrow>
            let c1 = c\<lparr>co_lib := l\<rparr>
            in Some (case r of
                       PongRead \<Rightarrow> pongHandler c1
                     | MessageRead \<Rightarrow> c1\<lparr>co_reader := Forwarding\<rparr>
                     | TimedOut \<Rightarrow> c1\<lparr>co_reader := Gone\<rparr>
                     | ReadFailed \<Rightarrow> c1\<lparr>co_reader := Gone\<rparr>
                     | Pending \<Rightarrow> c1, r))"

definition read_again :: "'l Conn \<Rightarrow> 'l Conn option" where
  "read_again c = (if co_reader c = Forwarding then Some (c\<lparr>co_reader := AtRead\<rparr>) else None)"

text \<open>The ping branch of \<open>writePump\<close>; a write that fails ends it.\<close>

definition ping_tick :: "'l Conn \<Rightarrow> 'l Conn option" where
  "ping_tick c =
     (if co_writer c \<and> co_pingAt c \<le> co_now c
      then Some (c\<lparr>co_pings := Suc (co_pings c), co_pingAt := nextTick pingPeriod (co_pingAt c) (co_now c)\<rparr>) else None)"

text \<open>The event \<open>Reads r\<close>: the library does \<open>r\<close> next.\<close>

datatype 'l conn_event =
    Passes int
  | Peer 'l
  | Reads ws_result
  | Resumes
  | PingSent
  | WriterEnds

fun conn_exec :: "'l ws_lib \<Rightarrow> 'l conn_event \<Rightarrow> 'l Conn \<Rightarrow> 'l Conn option" where
  "conn_exec lib (Passes d) c = (if 0 \<le> d then Some (c\<lparr>co_now := co_now c + d\<rparr>) else None)"
| "conn_exec lib (Peer l) c = Some (c\<lparr>co_lib := l\<rparr>)"
| "conn_exec lib (Reads r) c =
     (case read_next lib c of None \<Rightarrow> None | Some (c', r') \<Rightarrow> if r' = r then Some c' else None)"
| "conn_exec lib Resumes c = read_again c"
| "conn_exec lib PingSent c = ping_tick c"
| "conn_exec lib WriterEnds c = Some (c\<lparr>co_writer := False\<rparr>)"

abbreviation conn_run :: "'l ws_lib \<Rightarrow> 'l conn_event list \<Rightarrow> 'l Conn \<Rightarrow> 'l Conn option" where
  "conn_run lib \<equiv> run_events (conn_exec lib)"

fun lasts :: "'l conn_event \<Rightarrow> int" where
  "lasts (Passes d) = d"
| "lasts _ = 0"

definition passed :: "'l conn_event list \<Rightarrow> int" where
  "passed es = sum_list (map lasts es)"

section \<open>Time in a run\<close>

lemmas conn_defs = read_next_def pongHandler_def read_again_def ping_tick_def Let_def

lemma conn_times: "0 < pingPeriod" "pongWait - pingPeriod = 6 * Second" "pingPeriod < pongWait"
  by (simp_all add: pingPeriod_def pongWait_def Second_def Millisecond_def)

lemmas conn_splits = if_splits prod.splits ws_result.splits

lemma conn_exec_now: "conn_exec lib e c = Some c' \<Longrightarrow> co_now c' = co_now c + lasts e \<and> 0 \<le> lasts e"
  by (cases e) (auto simp: conn_defs split: conn_splits)

lemma conn_exec_deadline:
  "conn_exec lib e c = Some c' \<Longrightarrow> co_deadline c' = co_deadline c \<or> co_deadline c' = co_now c + pongWait"
  by (cases e) (auto simp: conn_defs split: conn_splits)

interpretation read_deadline: alarm_clock "conn_exec lib" co_now lasts co_deadline pongWait for lib
  by unfold_locales (auto dest: conn_exec_now conn_exec_deadline)

lemma conn_exec_ping:
  assumes "conn_exec lib e c = Some c'"
  shows "if e = PingSent then co_pings c' = Suc (co_pings c) \<and> co_now c < co_pingAt c' \<and> co_pingAt c' \<le> co_now c + pingPeriod
         else co_pings c' = co_pings c \<and> co_pingAt c' = co_pingAt c"
  using assms nextTick_bounds [OF conn_times(1), of "co_pingAt c" "co_now c"]
  by (cases e) (auto simp: conn_defs split: conn_splits)

text \<open>A pong sets the deadline anew, and reading fails with a timeout only at the deadline.\<close>

lemma conn_exec_pong: "conn_exec lib (Reads PongRead) c = Some c' \<Longrightarrow> co_deadline c' = co_now c' + pongWait"
  by (auto simp: conn_defs split: conn_splits)

lemma conn_exec_timeout:
  assumes "deadline_respected lib" and "conn_exec lib (Reads TimedOut) c = Some c'"
  shows "co_deadline c \<le> co_now c" and "co_now c' = co_now c" and "co_pingAt c' = co_pingAt c"
proof -
  from assms(2) have "snd (lib (co_lib c) (co_limit c) (co_deadline c) (co_now c)) = TimedOut"
    by (auto simp: conn_defs split: conn_splits)
  then show "co_deadline c \<le> co_now c" using assms(1) by (simp add: deadline_respected_def)
qed (use assms(2) in \<open>auto simp: conn_defs split: conn_splits\<close>)

lemma read_enforced:
  assumes "deadline_enforced lib unbuffered" and "unbuffered (co_lib c)" and "co_reader c = AtRead" and "co_deadline c \<le> co_now c"
  shows "\<exists>c'. conn_exec lib (Reads TimedOut) c = Some c' \<and> co_reader c' = Gone \<and> co_pings c' = co_pings c"
proof -
  obtain l r where l: "lib (co_lib c) (co_limit c) (co_deadline c) (co_now c) = (l, r)" by fastforce
  have "snd (lib (co_lib c) (co_limit c) (co_deadline c) (co_now c)) = TimedOut"
    using assms(1,2,4) by (simp add: deadline_enforced_def)
  with l have "r = TimedOut" by simp
  with l assms(3) show ?thesis by (simp add: read_next_def Let_def)
qed

text \<open>The deadline and the ticker are never set further ahead than their periods.\<close>

definition conn_ok :: "'l Conn \<Rightarrow> bool" where
  "conn_ok c \<longleftrightarrow> co_deadline c \<le> co_now c + pongWait \<and> co_pingAt c \<le> co_now c + pingPeriod"

lemma conn_ok_exec:
  assumes "conn_exec lib e c = Some c'" and "conn_ok c"
  shows "conn_ok c'"
  using conn_exec_deadline [OF assms(1)] conn_exec_now [OF assms(1)] conn_exec_ping [OF assms(1)] assms(2)
  by (auto simp: conn_ok_def split: if_splits)

lemma conn_ok_run: "conn_run lib es c = Some c' \<Longrightarrow> conn_ok c \<Longrightarrow> conn_ok c'"
  by (erule (1) run_events_invariant) (rule conn_ok_exec)

text \<open>Without a ping, the ticker stands still.\<close>

lemma conn_run_no_ping: "conn_run lib es c = Some c' \<Longrightarrow> PingSent \<notin> set es \<Longrightarrow> co_pingAt c' = co_pingAt c"
proof (induction es arbitrary: c)
  case (Cons e es)
  from Cons.prems(1) obtain c1 where c1: "conn_exec lib e c = Some c1" "conn_run lib es c1 = Some c'" by (rule run_events_Cons)
  with Cons conn_exec_ping [OF c1(1)] show ?case by (auto split: if_splits)
qed simp

section \<open>Who is dropped\<close>

lemma startPumps_ok: "conn_ok (startPumps l t)"
  by (simp add: conn_ok_def startPumps_def)

lemma deadline_set:
  assumes "conn_run lib as (startPumps l t) = Some c" and "as = [] \<or> last as = Reads PongRead"
  shows "co_deadline c = co_now c + pongWait"
proof (cases as rule: rev_cases)
  case Nil
  then show ?thesis using assms(1) by (auto simp: startPumps_def)
next
  case (snoc bs e)
  then obtain c1 where "conn_exec lib (Reads PongRead) c1 = Some c"
    using assms by (auto simp: run_events_append split: option.splits)
  then show ?thesis by (rule conn_exec_pong)
qed

text \<open>
  C31. No client is dropped unasked. Take any point of a connection that is its start or the moment the library has handed a pong to the gateway's handler. If the read pump then fails for lack of
  a pong, at least 60 seconds have passed since; and in that time a ping has been sent, or it has been due for at least six seconds (with the
  write pump held up or gone). And a client of which nothing arrives from then on is dropped after these 60 seconds.
\<close>

theorem no_client_dropped_unasked:
  assumes "deadline_respected lib" and "deadline_enforced lib unbuffered"
    and "conn_run lib as (startPumps l t) = Some c" and "as = [] \<or> last as = Reads PongRead"
  shows "(\<forall>es c'. conn_run lib (es @ [Reads TimedOut]) c = Some c' \<longrightarrow>
            60 * Second \<le> passed es \<and> (PingSent \<in> set es \<or> co_pingAt c' + 6 * Second \<le> co_now c')) \<and>
         (co_reader c = AtRead \<and> unbuffered (co_lib c) \<longrightarrow>
            (\<exists>c'. conn_run lib [Passes (60 * Second), Reads TimedOut] c = Some c' \<and> co_reader c' = Gone))"
proof (intro conjI allI impI)
  note set = deadline_set [OF assms(3,4)]
  fix es c'
  assume "conn_run lib (es @ [Reads TimedOut]) c = Some c'"
  then obtain c1 where es: "conn_run lib es c = Some c1" and c': "conn_exec lib (Reads TimedOut) c1 = Some c'"
    by (auto simp: run_events_append split: option.splits)
  note due = conn_exec_timeout [OF assms(1) c']
  have p: "pongWait \<le> passed es"
    using read_deadline.alarm_after_span [OF es _ due(1)] set by (simp add: passed_def read_deadline.total_def)
  then show "60 * Second \<le> passed es" by (simp add: pongWait_def)
  have "co_pingAt c \<le> co_now c + pingPeriod"
    using conn_ok_run [OF assms(3) startPumps_ok] by (simp add: conn_ok_def)
  moreover have "co_now c1 = co_now c + passed es"
    using read_deadline.run_time [OF es] by (simp add: passed_def read_deadline.total_def)
  ultimately show "PingSent \<in> set es \<or> co_pingAt c' + 6 * Second \<le> co_now c'"
    using conn_run_no_ping [OF es] p conn_times(2) due(2,3) by fastforce
next
  assume "co_reader c = AtRead \<and> unbuffered (co_lib c)"
  then show "\<exists>c'. conn_run lib [Passes (60 * Second), Reads TimedOut] c = Some c' \<and> co_reader c' = Gone"
    using deadline_set [OF assms(3,4)] limits_pos(1) read_enforced [OF assms(2), of "c\<lparr>co_now := co_now c + 60 * Second\<rparr>"]
    by (auto simp: pongWait_def)
qed

text \<open>A library that reads one frame at a time from the socket, and nothing after the deadline.\<close>

datatype inframe = PongIn | MessageIn nat

definition plainLib :: "inframe list ws_lib" where
  "plainLib fs limit deadline t =
     (if deadline \<le> t then (fs, TimedOut)
      else
        case fs of
          [] \<Rightarrow> (fs, Pending)
        | PongIn # fs' \<Rightarrow> (fs', PongRead)
        | MessageIn sz # fs' \<Rightarrow> (fs', if sz > limit then ReadFailed else MessageRead))"

lemma plainLib_ok: "deadline_respected plainLib" "deadline_enforced plainLib (\<lambda>_. True)"
  by (auto simp: deadline_respected_def deadline_enforced_def plainLib_def split: list.splits inframe.splits if_splits)

definition pongRun :: "inframe list conn_event list" where
  "pongRun = [Passes (30 * Second), Peer [PongIn], Reads PongRead]"

theorem no_client_dropped_unasked_witness:
  "\<exists>c c'. conn_run plainLib pongRun (startPumps [] 0) = Some c \<and>
     conn_run plainLib [Passes (60 * Second), Reads TimedOut] c = Some c' \<and> co_reader c' = Gone \<and> co_now c' = 90 * Second"
proof -
  obtain c where c: "conn_run plainLib pongRun (startPumps [] 0) = Some c" "co_reader c = AtRead" "co_now c = 30 * Second"
    using limits_pos(1) by (simp add: pongRun_def startPumps_def conn_defs plainLib_def pongWait_def)
  have "last pongRun = Reads PongRead" by (simp add: pongRun_def)
  from no_client_dropped_unasked [OF plainLib_ok c(1) disjI2 [OF this]] c(2)
  obtain c' where c': "conn_run plainLib [Passes (60 * Second), Reads TimedOut] c = Some c'" "co_reader c' = Gone" by blast
  moreover have "co_now c' = 90 * Second"
    using read_deadline.run_time [OF c'(1)] c(3) by (simp add: read_deadline.total_def)
  ultimately show ?thesis using c(1) by blast
qed

section \<open>A client that is dropped although it answers\<close>

text \<open>The status calls of a poll over a slow network, with the JSON round trip taken out.\<close>

lemma slow_fetch:
  assumes "calm (sw_wire w)"
  shows "run_state (fetchStatus slow_net a) w =
    (let d = (case sw_delays w of [] \<Rightarrow> 0 | d # _ \<Rightarrow> max 0 d)
     in (if d < PollTimeout then status_of (sw_wire w) a else None,
         w\<lparr>sw_delays := tl (sw_delays w), sw_now := sw_now w + min d PollTimeout\<rparr>))"
proof -
  obtain x wire where n: "run_state (cluster_net a status_request) (sw_wire w) = (x, wire)" by fastforce
  with fetchStatus_cluster [OF assms, of a] have "read_status x = status_of (sw_wire w) a" "wire = sw_wire w"
    by (auto simp: fetchStatus_def)
  with n show ?thesis
    by (simp add: fetchStatus_def slow_net_def Let_def status_limit read_status_def split: option.split)
qed

lemma calm_slowWire: "calm slowWire"
proof -
  have "node_in_range (voterDemo\<lparr>leaderID := ''n3''\<rparr>)" "node_in_range (voterDemo\<lparr>nid := ''n3'', nstate := Leader\<rparr>)"
    by code_simp+
  then show ?thesis by (auto simp: calm_def slowWire_def)
qed

lemma slowWire_status:
  "status_of slowWire ''r1:9001'' = Some (Status (voterDemo\<lparr>leaderID := ''n3''\<rparr>))"
  "status_of slowWire ''r2:9001'' = Some (Status (voterDemo\<lparr>leaderID := ''n3''\<rparr>))"
  "status_of slowWire ''r3:9001'' = Some (Status (voterDemo\<lparr>nid := ''n3'', nstate := Leader\<rparr>))"
  by (simp_all add: status_of_def slowWire_def)

lemma slow_poll:
  "run_state (poll_addrs slow_net (replicaAddrs slowTracker) (replicaAddrs slowTracker))
     \<lparr>sw_now = t, sw_delays = tl (sw_delays slowCluster), sw_wire = slowWire\<rparr> =
   (Some ''r3:9001'', \<lparr>sw_now = t + 4430 * Millisecond, sw_delays = [3 * Second], sw_wire = slowWire\<rparr>)"
  by (simp add: slowTracker_def slowCluster_def slow_fetch calm_slowWire slowWire_status is_leader_Status
      Let_def PollTimeout_def Second_def Millisecond_def Status_def voterDemo_def NewNode_def is_leader_def)

text \<open>An attempt that is given up after two seconds.\<close>

lemma slow_attempt:
  assumes "sw_delays w = (3 * Second) # ds"
  shows "\<exists>w'. run_state (forwardToLeaderAddr slow_net zeroStroke ''r3:9001'') w = (Some PostFailed, w') \<and>
    w' = w\<lparr>sw_delays := ds, sw_now := sw_now w + 2 * Second,
            sw_wire := snd (run_state (cluster_net ''r3:9001'' (post_request ''/stroke'' (enc_StrokeEvent zeroStroke))) (sw_wire w))\<rparr>"
proof -
  have "finite_stroke zeroStroke" by code_simp
  moreover have "call_limit (post_request ''/stroke'' (enc_StrokeEvent zeroStroke)) = 2 * Second"
    by (simp add: call_limit_def post_request_def strokeForwardTimeout_def)
  ultimately show ?thesis
    using assms by (simp add: forwardToLeaderAddr_def slow_net_def Let_def forward_outcome_def limits_pos(1) less_imp_le
        split: prod.split)
qed

lemma slow_forward: "sw_now (snd (run_state (forwardToLeader slow_net slowTracker zeroStroke) slowCluster)) = 8430 * Millisecond"
proof -
  let ?ds = "tl (sw_delays slowCluster)"
  let ?w1 = "\<lparr>sw_now = 2 * Second, sw_delays = ?ds, sw_wire = slowWire\<rparr>"
  have "sw_delays slowCluster = (3 * Second) # ?ds" by (simp add: slowCluster_def Let_def)
  from slow_attempt [OF this]
  have 1: "run_state (forwardToLeaderAddr slow_net zeroStroke ''r3:9001'') slowCluster = (Some PostFailed, ?w1)"
    by (simp add: slowCluster_def Let_def cluster_net_def slowWire_def)
  let ?w2 = "\<lparr>sw_now = 2 * Second + 4430 * Millisecond, sw_delays = [3 * Second], sw_wire = slowWire\<rparr>"
  have 2: "run_state (PollOnce slow_net slowTracker) ?w1 = (slowTracker, ?w2)"
    using slow_poll [of "2 * Second"] by (simp add: PollOnce_def setLeader_def) (simp add: slowTracker_def)
  have "sw_delays ?w2 = (3 * Second) # []" by simp
  from slow_attempt [OF this] obtain w3 where
    3: "run_state (forwardToLeaderAddr slow_net zeroStroke ''r3:9001'') ?w2 = (Some PostFailed, w3)"
      "sw_now w3 = 2 * Second + 4430 * Millisecond + 2 * Second"
    by auto
  from 1 2 3 show ?thesis
    by (simp add: forwardToLeader_def LeaderAddr_def slowTracker_def Second_def Millisecond_def)
qed

text \<open>
  C21. A responsive client can be dropped. Take a connection whose read pump is forwarding a message, with its ping due before the forwarding ends. If \<open>forwardToLeader\<close> takes
  until the read deadline, then a client that answers the ping at once is dropped: the read pump does not look at the answer before it has
  finished, and then the deadline has passed.
\<close>

theorem busy_reader_drops_client:
  assumes "deadline_enforced lib unbuffered" and "conn_run lib as (startPumps l0 t) = Some c"
    and "co_reader c = Forwarding" and "co_writer c"
    and "run_state (forwardToLeader slow_net tr stroke) w = (r, w')" and "d = sw_now w' - sw_now w"
    and "co_now c \<le> co_pingAt c" and "co_pingAt c \<le> co_now c + d" and "co_deadline c \<le> co_now c + d"
    and "unbuffered pong"
  shows "\<exists>c'. conn_run lib [Passes (co_pingAt c - co_now c), PingSent, Peer pong, Passes (co_now c + d - co_pingAt c), Resumes, Reads TimedOut] c = Some c' \<and>
    co_reader c' = Gone \<and> co_pings c' = Suc (co_pings c)"
proof -
  let ?c = "c\<lparr>co_now := co_now c + d, co_pings := Suc (co_pings c), co_pingAt := nextTick pingPeriod (co_pingAt c) (co_pingAt c),
    co_lib := pong, co_reader := AtRead\<rparr>"
  have "\<exists>c'. conn_exec lib (Reads TimedOut) ?c = Some c' \<and> co_reader c' = Gone \<and> co_pings c' = co_pings ?c"
    by (rule read_enforced [OF assms(1)]) (use assms(9,10) in simp_all)
  then obtain c' where c': "conn_exec lib (Reads TimedOut) ?c = Some c'" "co_reader c' = Gone" "co_pings c' = Suc (co_pings c)" by auto
  have "conn_run lib [Passes (co_pingAt c - co_now c), PingSent, Peer pong, Passes (co_now c + d - co_pingAt c), Resumes] c = Some ?c"
    using assms(3,4,7,8) by (simp add: ping_tick_def read_again_def)
  with c' run_events_append [of "conn_exec lib" "[Passes (co_pingAt c - co_now c), PingSent, Peer pong, Passes (co_now c + d - co_pingAt c), Resumes]" "[Reads TimedOut]" c]
  show ?thesis by simp
qed

text \<open>
  With three overloaded replicas \<open>forwardToLeader\<close> takes 8.43 seconds, all calls within their time limits; the message has come shortly before the ping is due.
\<close>

theorem busy_reader_drops_client_witness:
  "\<exists>c c' es. conn_run plainLib [Passes (pingPeriod - 1), Peer [MessageIn 200], Reads MessageRead] (startPumps [] 0) = Some c \<and>
     conn_run plainLib es c = Some c' \<and> co_reader c' = Gone \<and> co_pings c' = 1"
proof -
  obtain c where c: "conn_run plainLib [Passes (pingPeriod - 1), Peer [MessageIn 200], Reads MessageRead] (startPumps [] 0) = Some c"
      "co_reader c = Forwarding" "co_writer c" "co_now c = pingPeriod - 1" "co_pingAt c = pingPeriod" "co_deadline c = pongWait"
      "co_pings c = 0"
    using conn_times(1,3) by (simp add: startPumps_def conn_defs plainLib_def maxMessageSize_def)
  obtain r w' where f: "run_state (forwardToLeader slow_net slowTracker zeroStroke) slowCluster = (r, w')" by fastforce
  have d: "8430 * Millisecond = sw_now w' - sw_now slowCluster"
    using slow_forward f by (simp add: slowCluster_def Let_def)
  have "co_now c \<le> co_pingAt c" "co_pingAt c \<le> co_now c + 8430 * Millisecond" "co_deadline c \<le> co_now c + 8430 * Millisecond"
    using conn_times(2) by (simp_all add: c Second_def Millisecond_def)
  from busy_reader_drops_client [OF plainLib_ok(2) c(1-3) f d this, of "[PongIn]"] c(7)
  have "\<exists>es c'. conn_run plainLib es c = Some c' \<and> co_reader c' = Gone \<and> co_pings c' = 1"
    unfolding One_nat_def by metis
  with c(1) show ?thesis by blast
qed

end
