(* ===== verification/ProcessLife.thy ===== *)
theory ProcessLife
  imports GatewayTime
begin

text \<open>
  The life of the two programs, from the start of \<open>main\<close> to the exit of the process: \<open>replica/cmd/main.go\<close> and \<open>gateway/cmd/main.go\<close> with
  \<open>Start\<close> and \<open>Shutdown\<close> of \<open>replica/internal/server/server.go\<close> and \<open>gateway/internal/gateway/server.go\<close>. Three goroutines matter: the
  main one, which blocks in the server's \<open>Start\<close>; the one that waits for a signal, and then cancels the context, stops the node (in a replica) and
  shuts the server down; and the server, with its requests in flight. \<open>net/http\<close> is modelled as documented: \<open>Shutdown\<close> closes the listener, on which
  \<open>ListenAndServe\<close> returns \<open>ErrServerClosed\<close> at once, and itself waits until no request is in flight or its context has
  expired. When \<open>main\<close> returns, or a goroutine panics, the process is gone; any other goroutine of the program may panic at any time here
  (\<open>GoroutinePanics\<close>), as the replay of the gateway can (theory \<open>GatewayRun\<close>).
\<close>

section \<open>The servers\<close>

record HttpServer =
  srv_Addr :: string
  srv_ReadTimeout :: int
  srv_WriteTimeout :: int
  srv_IdleTimeout :: int

definition replica_NewServer :: "string \<Rightarrow> HttpServer" where
  "replica_NewServer port =
     \<lparr>srv_Addr = '':'' @ port, srv_ReadTimeout = 10 * Second, srv_WriteTimeout = 10 * Second, srv_IdleTimeout = 60 * Second\<rparr>"

definition gateway_NewServer :: "string \<Rightarrow> HttpServer" where
  "gateway_NewServer port =
     \<lparr>srv_Addr = '':'' @ port, srv_ReadTimeout = 10 * Second, srv_WriteTimeout = 10 * Second, srv_IdleTimeout = 120 * Second\<rparr>"

text \<open>What \<open>ListenAndServe\<close> returns, and what the servers' \<open>Start\<close> makes of it: \<open>None\<close> is Go's \<open>nil\<close>.\<close>

datatype listen_error = ErrServerClosed | ListenFailed string

definition replica_Start :: "listen_error \<Rightarrow> string option" where
  "replica_Start err = (case err of ErrServerClosed \<Rightarrow> None | ListenFailed msg \<Rightarrow> Some (''http server: '' @ msg))"

definition gateway_Start :: "listen_error \<Rightarrow> string option" where
  "gateway_Start err = (case err of ErrServerClosed \<Rightarrow> None | ListenFailed msg \<Rightarrow> Some (''gateway server: '' @ msg))"

definition shutdownTimeout :: int where
  "shutdownTimeout = 10 * Second"

section \<open>Processes\<close>

datatype listener = Opening | Listening | ListenReturned listen_error

datatype sig_phase = AwaitSignal | Received | Cancelled | NodeStopped | InShutdown int | SigDone

text \<open>
  \<open>pr_node\<close> is the replica's node, \<open>None\<close> in the gateway, \<open>pr_start\<close> the \<open>Start\<close> of its server. The exit code is that of a return from \<open>main\<close> (0), of
  \<open>log.Fatalf\<close> (1) or of a panic (2).
\<close>

record Process =
  pr_now :: int
  pr_server :: HttpServer
  pr_start :: "listen_error \<Rightarrow> string option"
  pr_node :: "Node option"
  pr_sigCh :: nat
  pr_sig :: sig_phase
  pr_cancelled :: bool
  pr_listener :: listener
  pr_inflight :: nat
  pr_exit :: "int option"

definition newProcess :: "HttpServer \<Rightarrow> (listen_error \<Rightarrow> string option) \<Rightarrow> Node option \<Rightarrow> int \<Rightarrow> Process" where
  "newProcess srv st n t =
     \<lparr>pr_now = t, pr_server = srv, pr_start = st, pr_node = n, pr_sigCh = 0, pr_sig = AwaitSignal, pr_cancelled = False,
      pr_listener = Opening, pr_inflight = 0, pr_exit = None\<rparr>"

text \<open>The processes once their configuration is read; a bad configuration ends them before (\<open>Inl\<close>).\<close>

definition replica_process :: "string \<Rightarrow> string \<Rightarrow> string \<Rightarrow> string \<Rightarrow> int \<Rightarrow> string + Process" where
  "replica_process nodeID port peerAddrs gateway t =
     (case replicaMain nodeID peerAddrs gateway of
        Inl msg \<Rightarrow> Inl msg
      | Inr n \<Rightarrow> Inr (newProcess (replica_NewServer (replicaPort port)) replica_Start (Some n) t))"

definition gateway_process :: "string \<Rightarrow> string \<Rightarrow> int \<Rightarrow> string + Process" where
  "gateway_process port addrs t =
     (case gatewayMain port addrs of
        Inl msg \<Rightarrow> Inl msg
      | Inr (port', _, _) \<Rightarrow> Inr (newProcess (gateway_NewServer port') gateway_Start None t))"

text \<open>The goroutine that waits for a signal.\<close>

definition sig_receive :: "Process \<Rightarrow> Process option" where
  "sig_receive p =
     (if pr_sig p = AwaitSignal \<and> 0 < pr_sigCh p then Some (p\<lparr>pr_sigCh := pr_sigCh p - 1, pr_sig := Received\<rparr>) else None)"

definition sig_cancel :: "Process \<Rightarrow> Process option" where
  "sig_cancel p = (if pr_sig p = Received then Some (p\<lparr>pr_cancelled := True, pr_sig := Cancelled\<rparr>) else None)"

definition sig_stop :: "Process \<Rightarrow> Process option" where
  "sig_stop p =
     (if pr_sig p \<noteq> Cancelled then None
      else
        case pr_node p of
          None \<Rightarrow> Some (p\<lparr>pr_sig := NodeStopped\<rparr>)
        | Some n \<Rightarrow>
            (case Stop n of
               (n', None) \<Rightarrow> Some (p\<lparr>pr_node := Some n', pr_sig := NodeStopped\<rparr>)
             | (n', Some _) \<Rightarrow> Some (p\<lparr>pr_exit := Some 2\<rparr>)))"

text \<open>\<open>Shutdown\<close>: it closes the listener, and returns when nothing is in flight or after ten seconds.\<close>

definition Shutdown_begin :: "Process \<Rightarrow> Process option" where
  "Shutdown_begin p =
     (if pr_sig p = NodeStopped then
        Some (p\<lparr>pr_sig := InShutdown (pr_now p + shutdownTimeout),
                pr_listener := (case pr_listener p of ListenReturned e \<Rightarrow> ListenReturned e | _ \<Rightarrow> ListenReturned ErrServerClosed)\<rparr>)
      else None)"

definition Shutdown_end :: "Process \<Rightarrow> Process option" where
  "Shutdown_end p =
     (case pr_sig p of
        InShutdown limit \<Rightarrow>
          if pr_inflight p = 0 \<or> limit \<le> pr_now p then Some (p\<lparr>pr_sig := SigDone\<rparr>) else None
      | _ \<Rightarrow> None)"

text \<open>The main goroutine: \<open>Start\<close> returns what \<open>ListenAndServe\<close> gave, and \<open>main\<close> returns or calls \<open>log.Fatalf\<close>.\<close>

definition main_return :: "Process \<Rightarrow> Process option" where
  "main_return p =
     (case pr_listener p of
        ListenReturned err \<Rightarrow>
          Some (case pr_start p err of
                  None \<Rightarrow> p\<lparr>pr_cancelled := True, pr_exit := Some 0\<rparr>
                | Some _ \<Rightarrow> p\<lparr>pr_exit := Some 1\<rparr>)
      | _ \<Rightarrow> None)"

datatype process_event =
    Wait int
  | Signal
  | SigReceive
  | SigCancel
  | SigStop
  | ShutdownBegin
  | ShutdownEnd
  | Listen
  | ListenFails string
  | RequestIn
  | RequestDone
  | NodeRuns Node
  | MainReturns
  | GoroutinePanics

text \<open>\<open>signal.Notify\<close> does not block: a signal that finds the channel full is lost. Only \<open>Stop\<close> closes a node's \<open>stopCh\<close>.\<close>

fun process_step :: "process_event \<Rightarrow> Process \<Rightarrow> Process option" where
  "process_step (Wait d) p = (if 0 \<le> d then Some (p\<lparr>pr_now := pr_now p + d\<rparr>) else None)"
| "process_step Signal p = Some (p\<lparr>pr_sigCh := 1\<rparr>)"
| "process_step SigReceive p = sig_receive p"
| "process_step SigCancel p = sig_cancel p"
| "process_step SigStop p = sig_stop p"
| "process_step ShutdownBegin p = Shutdown_begin p"
| "process_step ShutdownEnd p = Shutdown_end p"
| "process_step Listen p = (if pr_listener p = Opening then Some (p\<lparr>pr_listener := Listening\<rparr>) else None)"
| "process_step (ListenFails msg) p =
     (if pr_listener p = Opening \<or> pr_listener p = Listening then Some (p\<lparr>pr_listener := ListenReturned (ListenFailed msg)\<rparr>) else None)"
| "process_step RequestIn p = (if pr_listener p = Listening then Some (p\<lparr>pr_inflight := Suc (pr_inflight p)\<rparr>) else None)"
| "process_step RequestDone p = (if 0 < pr_inflight p then Some (p\<lparr>pr_inflight := pr_inflight p - 1\<rparr>) else None)"
| "process_step (NodeRuns n') p =
     (case pr_node p of
        Some n \<Rightarrow> if stopped n' = stopped n then Some (p\<lparr>pr_node := Some n'\<rparr>) else None
      | None \<Rightarrow> None)"
| "process_step MainReturns p = main_return p"
| "process_step GoroutinePanics p = Some (p\<lparr>pr_exit := Some 2\<rparr>)"

definition process_exec :: "process_event \<Rightarrow> Process \<Rightarrow> Process option" where
  "process_exec e p = (if pr_exit p = None then process_step e p else None)"

abbreviation process_run :: "process_event list \<Rightarrow> Process \<Rightarrow> Process option" where
  "process_run \<equiv> run_events process_exec"

section \<open>The order of events\<close>

text \<open>How far the signal's goroutine has come.\<close>

fun sig_rank :: "sig_phase \<Rightarrow> nat" where
  "sig_rank AwaitSignal = 0"
| "sig_rank Received = 1"
| "sig_rank Cancelled = 2"
| "sig_rank NodeStopped = 3"
| "sig_rank (InShutdown _) = 4"
| "sig_rank SigDone = 5"

text \<open>
  The context is cancelled before the node is stopped, the node before the server is shut down, and only a shutdown closes the
  server; the ways out are that shutdown, a failed listener and a panic.
\<close>

definition start_ok :: "(listen_error \<Rightarrow> string option) \<Rightarrow> bool" where
  "start_ok st \<longleftrightarrow> (\<forall>err. st err = None \<longleftrightarrow> err = ErrServerClosed)"

definition process_ok :: "Process \<Rightarrow> bool" where
  "process_ok p \<longleftrightarrow>
     (2 \<le> sig_rank (pr_sig p) \<longrightarrow> pr_cancelled p) \<and>
     (\<forall>n. pr_node p = Some n \<longrightarrow> (stopped n \<longleftrightarrow> 3 \<le> sig_rank (pr_sig p))) \<and>
     (pr_listener p = ListenReturned ErrServerClosed \<longrightarrow> 4 \<le> sig_rank (pr_sig p)) \<and>
     start_ok (pr_start p) \<and>
     (\<forall>k. pr_exit p = Some k \<longrightarrow>
        k = 0 \<and> pr_listener p = ListenReturned ErrServerClosed \<or> k = 1 \<and> (\<exists>msg. pr_listener p = ListenReturned (ListenFailed msg)) \<or> k = 2)"

lemma starts: "start_ok replica_Start" "start_ok gateway_Start"
  by (auto simp: start_ok_def replica_Start_def gateway_Start_def split: listen_error.splits)

lemma process_new:
  assumes "replica_process nodeID rport peerAddrs gw t = Inr p \<or> gateway_process port addrs t = Inr p"
  obtains (replica) srv m where "p = newProcess srv replica_Start (Some m) t" and "\<not> stopped m"
  | (gateway) srv where "p = newProcess srv gateway_Start None t"
  using assms
proof
  assume "replica_process nodeID rport peerAddrs gw t = Inr p"
  then obtain m where m: "replicaMain nodeID peerAddrs gw = Inr m" "p = newProcess (replica_NewServer (replicaPort rport)) replica_Start (Some m) t"
    by (auto simp: replica_process_def split: sum.splits)
  then have "\<not> stopped m" by (auto simp: replicaMain_def NewNode_def Let_def split: option.splits)
  with m(2) show thesis by (rule replica)
next
  assume "gateway_process port addrs t = Inr p"
  then obtain srv where "p = newProcess srv gateway_Start None t" by (auto simp: gateway_process_def split: sum.splits prod.splits)
  then show thesis by (rule gateway)
qed

lemma process_ok_new:
  assumes "replica_process nodeID rport peerAddrs gw t = Inr p \<or> gateway_process port addrs t = Inr p"
  shows "process_ok p" and "pr_sigCh p = 0" and "pr_sig p = AwaitSignal"
  by (cases rule: process_new [OF assms]; simp add: newProcess_def process_ok_def starts)+

lemmas process_defs = sig_receive_def sig_cancel_def sig_stop_def Shutdown_begin_def Shutdown_end_def main_return_def

lemma process_ok_stop:
  assumes "process_ok p" and "sig_stop p = Some p'" and "pr_exit p = None"
  shows "process_ok p'"
proof (cases "pr_node p")
  case None
  then show ?thesis using assms by (auto simp: sig_stop_def process_ok_def split: if_splits)
next
  case (Some n)
  have "pr_sig p = Cancelled" using assms(2) by (auto simp: sig_stop_def split: if_splits)
  with assms(1) Some have "\<not> stopped n" "pr_cancelled p" by (auto simp: process_ok_def)
  then show ?thesis
    using assms Some \<open>pr_sig p = Cancelled\<close> by (auto simp: sig_stop_def Stop_def process_ok_def)
qed

lemma process_ok_begin:
  assumes "process_ok p" and "Shutdown_begin p = Some p'" and "pr_exit p = None"
  shows "process_ok p'"
proof -
  have "pr_sig p = NodeStopped" using assms(2) by (auto simp: Shutdown_begin_def split: if_splits)
  then show ?thesis
    using assms by (auto simp: Shutdown_begin_def process_ok_def split: listener.splits)
qed

lemma process_ok_end:
  assumes "process_ok p" and "Shutdown_end p = Some p'" and "pr_exit p = None"
  shows "process_ok p'"
  using assms by (cases "pr_sig p") (auto simp: Shutdown_end_def process_ok_def split: if_splits)

lemma process_ok_return:
  assumes "process_ok p" and "main_return p = Some p'" and "pr_exit p = None"
  shows "process_ok p'"
proof -
  obtain err where err: "pr_listener p = ListenReturned err" using assms(2) by (auto simp: main_return_def split: listener.splits)
  have "pr_start p err = None \<longleftrightarrow> err = ErrServerClosed" using assms(1) by (simp add: process_ok_def start_ok_def)
  then show ?thesis
    using assms err by (cases err) (auto simp: main_return_def process_ok_def split: option.splits)
qed

lemma process_ok_exec:
  assumes "process_exec e p = Some p'" and "process_ok p"
  shows "process_ok p'"
proof -
  have run: "pr_exit p = None" and e: "process_step e p = Some p'"
    using assms(1) by (auto simp: process_exec_def split: if_splits)
  show ?thesis
  proof (cases e)
    case SigStop
    then show ?thesis using process_ok_stop [OF assms(2) _ run] e by simp
  next
    case ShutdownBegin
    then show ?thesis using process_ok_begin [OF assms(2) _ run] e by simp
  next
    case ShutdownEnd
    then show ?thesis using process_ok_end [OF assms(2) _ run] e by simp
  next
    case MainReturns
    then show ?thesis using process_ok_return [OF assms(2) _ run] e by simp
  next
    case (NodeRuns n')
    then show ?thesis using e assms(2) by (auto simp: process_ok_def split: option.splits if_splits)
  qed (use e assms(2) run in \<open>auto simp: process_ok_def sig_receive_def sig_cancel_def split: if_splits\<close>)
qed

lemma process_ok_run: "process_run es p = Some p' \<Longrightarrow> process_ok p \<Longrightarrow> process_ok p'"
  by (erule (1) run_events_invariant) (rule process_ok_exec)

text \<open>The shutdown stops a node that is running, so it does not panic: only another goroutine's panic ends the process with 2.\<close>

lemma exit_by_panic:
  assumes "process_exec e p = Some p'" and "process_ok p" and "pr_exit p' = Some 2"
  shows "e = GoroutinePanics"
proof (rule ccontr)
  assume ne: "e \<noteq> GoroutinePanics"
  have run: "pr_exit p = None" and e: "process_step e p = Some p'"
    using assms(1) by (auto simp: process_exec_def split: if_splits)
  have "\<not> stopped n" if "pr_node p = Some n" "pr_sig p = Cancelled" for n
    using assms(2) that by (simp add: process_ok_def)
  then show False
    using run e ne assms(3)
    by (cases e) (auto simp: process_defs Stop_def split: if_splits option.splits listener.splits sig_phase.splits)
qed

lemma run_last_event:
  assumes "process_run es p = Some p'" and "pr_exit p = None" and "pr_exit p' \<noteq> None"
  obtains p1 where "process_run (butlast es) p = Some p1" and "process_exec (last es) p1 = Some p'" and "es \<noteq> []"
proof (cases es rule: rev_cases)
  case (snoc es1 e)
  with assms(1) that show thesis by (auto simp: run_events_append split: option.splits)
qed (use assms in simp)

text \<open>A signal is needed to get the signal's goroutine going.\<close>

lemma no_signal_no_shutdown:
  assumes "process_run es p = Some p'" and "Signal \<notin> set es" and "pr_sigCh p = 0" and "pr_sig p = AwaitSignal"
  shows "pr_sig p' = AwaitSignal"
  using assms
proof (induction es arbitrary: p)
  case (Cons e es)
  from Cons.prems(1) obtain p1 where p1: "process_exec e p = Some p1" "process_run es p1 = Some p'" by (rule run_events_Cons)
  have "pr_sigCh p1 = 0 \<and> pr_sig p1 = AwaitSignal"
    using p1(1) Cons.prems(2-4)
    by (cases e) (auto simp: process_exec_def process_defs split: if_splits option.splits listener.splits)
  with Cons p1(2) show ?case by simp
qed simp

section \<open>Properties\<close>

text \<open>
  C32. How the programs end. Whatever signals arrive, however often and in whatever order with everything else, a replica or gateway process that was started with a valid
  configuration exits with 0 only after a signal, with its context cancelled and its node stopped; with 1 only when its server could not listen; and
  with 2 only by the panic of a goroutine other than the main one and the shutdown's, which never panics (\<open>node.Stop\<close> is called once).
\<close>

theorem process_exit_causes:
  assumes "replica_process nodeID rport peerAddrs gw t = Inr p \<or> gateway_process port addrs t = Inr p"
    and "process_run es p = Some p'" and "pr_exit p' = Some k"
  shows "(k = 0 \<and> last es \<noteq> GoroutinePanics \<and> Signal \<in> set es \<and> pr_cancelled p' \<and> (\<forall>n. pr_node p' = Some n \<longrightarrow> stopped n)) \<or>
         (k = 1 \<and> last es \<noteq> GoroutinePanics \<and> (\<exists>msg. pr_listener p' = ListenReturned (ListenFailed msg))) \<or>
         (k = 2 \<and> last es = GoroutinePanics)"
proof -
  note new = process_ok_new [OF assms(1)]
  have ok: "process_ok p'" by (rule process_ok_run [OF assms(2) new(1)])
  have "pr_exit p = None" by (cases rule: process_new [OF assms(1)]) (simp_all add: newProcess_def)
  then obtain p1 where p1: "process_run (butlast es) p = Some p1" "process_exec (last es) p1 = Some p'"
    using run_last_event [OF assms(2)] assms(3) by auto
  have panic: "last es = GoroutinePanics \<longleftrightarrow> k = 2"
    using exit_by_panic [OF p1(2) process_ok_run [OF p1(1) new(1)]] p1(2) assms(3)
    by (auto simp: process_exec_def split: if_splits)
  show ?thesis
  proof (cases "k = 0")
    case True
    then have r: "4 \<le> sig_rank (pr_sig p')" using ok assms(3) by (auto simp: process_ok_def)
    then have "Signal \<in> set es" using no_signal_no_shutdown [OF assms(2) _ new(2,3)] by fastforce
    with True r ok panic show ?thesis by (auto simp: process_ok_def)
  next
    case False
    then show ?thesis using ok assms(3) panic by (auto simp: process_ok_def)
  qed
qed

definition stopRun :: "process_event list" where
  "stopRun = [Listen, Signal, SigReceive, Signal, SigCancel, SigStop, ShutdownBegin, MainReturns]"

lemma stopRun_exits:
  assumes "pr_listener p = Opening" and "pr_sig p = AwaitSignal" and "pr_exit p = None"
    and "\<forall>n. pr_node p = Some n \<longrightarrow> \<not> stopped n" and "pr_start p ErrServerClosed = None"
  shows "\<exists>p'. process_run stopRun p = Some p' \<and> pr_exit p' = Some 0"
  using assms
  by (cases "pr_node p") (auto simp: stopRun_def process_exec_def process_defs Stop_def)

theorem process_exit_causes_witness:
  "\<exists>p p'. replica_process ''n1'' [] ''r2:9001,r3:9001'' ''gw:8080'' 0 = Inr p \<and> process_run stopRun p = Some p' \<and>
     pr_exit p' = Some 0 \<and> pr_cancelled p'"
proof -
  obtain n where n: "replicaMain ''n1'' ''r2:9001,r3:9001'' ''gw:8080'' = Inr n" "\<not> stopped n"
  proof -
    have "map_sum (\<lambda>_. ()) stopped (replicaMain ''n1'' ''r2:9001,r3:9001'' ''gw:8080'') = Inr False" by code_simp
    then show thesis using that by (cases "replicaMain ''n1'' ''r2:9001,r3:9001'' ''gw:8080''") auto
  qed
  let ?p = "newProcess (replica_NewServer ''9001'') replica_Start (Some n) 0"
  have p: "replica_process ''n1'' [] ''r2:9001,r3:9001'' ''gw:8080'' 0 = Inr ?p" by (simp add: replica_process_def replicaPort_def n(1))
  obtain p' where p': "process_run stopRun ?p = Some p'" "pr_exit p' = Some 0"
    using stopRun_exits [of ?p] n(2) by (auto simp: newProcess_def replica_Start_def)
  from process_exit_causes [OF disjI1 [OF p] p'] p p' show ?thesis by auto
qed

text \<open>What \<open>Shutdown\<close> itself waits for.\<close>

lemma shutdown_waits:
  "Shutdown_end p = Some p' \<Longrightarrow> pr_inflight p = 0 \<or> (\<exists>limit. pr_sig p = InShutdown limit \<and> limit \<le> pr_now p)"
  by (auto simp: Shutdown_end_def split: sig_phase.splits if_splits)

text \<open>
  C19. Shutdown does not wait for requests. Although \<open>Shutdown\<close> waits up to ten seconds for the requests in flight, the process does not: the same call makes \<open>Start\<close> return, \<open>main\<close> returns, and
  the process exits with 0 at that moment, with a request still in flight, in the replica and in the gateway alike.
\<close>

theorem shutdown_cuts_requests:
  assumes "replica_process nodeID rport peerAddrs gw t = Inr p \<or> gateway_process port addrs t = Inr p"
  shows "\<exists>p'. process_run [Listen, RequestIn, Signal, SigReceive, SigCancel, SigStop, ShutdownBegin, MainReturns] p = Some p' \<and>
    pr_exit p' = Some 0 \<and> pr_inflight p' = 1 \<and> pr_now p' = t \<and> pr_sig p' = InShutdown (t + 10 * Second)"
  using assms
  by (cases rule: process_new)
    (simp_all add: newProcess_def process_exec_def process_defs Stop_def shutdownTimeout_def replica_Start_def gateway_Start_def)

theorem shutdown_cuts_requests_witness:
  "\<exists>p p'. gateway_process [] ''r1:9001'' 0 = Inr p \<and>
     process_run [Listen, RequestIn, Signal, SigReceive, SigCancel, SigStop, ShutdownBegin, MainReturns] p = Some p' \<and>
     pr_exit p' = Some 0 \<and> pr_inflight p' = 1"
proof -
  let ?p = "newProcess (gateway_NewServer ''8080'') gateway_Start None 0"
  have p: "gateway_process [] ''r1:9001'' 0 = Inr ?p" by (simp add: gateway_process_def gatewayMain_def)
  from shutdown_cuts_requests [OF disjI2 [OF p]] p show ?thesis by blast
qed

end
