(* ===== verification/Spec2Isabelle.thy ===== *)
theory Spec2Isabelle
  imports EndToEnd CatchUp NodeRun ReplicaRobust GatewayServer Connection ProcessLife
begin

text \<open>
  \<^bold>\<open>A verification of smolRAFT\<close>

  smolRAFT is a shared drawing board. Browsers send strokes over WebSockets to a gateway; the gateway forwards them to the leader
  of a cluster of replicas, which replicate them with the Raft protocol; when a stroke is committed, the leader notifies the
  gateway, which broadcasts it to all browsers. This development models the Go code of the replicas, of the gateway and of the
  types they share, and proves what makes them correct, each alone and together.

  \<^bold>\<open>The theories and the code they model\<close> (paths under \<open>src/\<close>)

  \<^item> \<open>Prelude\<close>: 64 bit integers with wrap-around, Go maps, channels and tickers, quorum systems and transition systems with counted
    reachability (locales), lists. \<open>Timed\<close>: runs of executable events, components with a clock and an alarm (locales).
  \<^item> \<open>Types\<close>, \<open>Json\<close>: \<open>types/types.go\<close>, the records field by field and the JSON the struct tags stand for, with decoding as
    \<open>encoding/json\<close> does it and round trips for every message.
  \<^item> \<open>RaftLog\<close>: \<open>replica/internal/raft/log.go\<close>, the log with its sentinel entry, all methods, its panics, and the
    interface by which the rest uses it (a locale, interpreted on these definitions).
  \<^item> \<open>RaftNode\<close>: \<open>node.go\<close>, a node's state as a record, the role transitions, and the commit applier action by action (its locked sections and its channel operations).
  \<^item> \<open>Election\<close>: \<open>election.go\<close>; \<open>Replication\<close>: \<open>replication.go\<close>. Every handler whole, every goroutine as the pieces between
    its lock acquisitions. \<open>CatchUp\<close>: repeated rounds of replication to one follower.
  \<^item> \<open>NodeRun\<close>: the goroutines \<open>Node.Start\<close> launches, \<open>runElectionTimer\<close> and \<open>runCommitApplier\<close>, with a clock, and the commit channel between the
    applier and the notifier.
  \<^item> \<open>ReplicaMain\<close>: \<open>replica/cmd/main.go\<close>, configuration and the commit notifier. \<open>ReplicaServer\<close>: \<open>replica/internal/server\<close> and the
    RPC client of \<open>rpc.go\<close>: handlers, routes, status codes, the path of a call through JSON and HTTP. \<open>ReplicaRobust\<close>: one replica, with its
    applier and the requests it has sent, in an arbitrary environment.
  \<^item> \<open>LogMatching\<close>, \<open>Cluster\<close>, \<open>ClusterVotes\<close>, \<open>ClusterLogs\<close>, \<open>ClusterQuorums\<close>, \<open>ClusterCommit\<close>: the cluster as a transition system
    whose events run the node operations above, with messages that may be lost, delayed, repeated and reordered, and its
    inductive invariants: votes and leaders; logs; quorums of acknowledgements; commitment and notification.
  \<^item> \<open>Scenarios\<close>: a deployment of three replicas and concrete runs of it. \<open>SharedLog\<close>: the abstract specification, one shared
    append-only log, and the proof that the cluster refines it (a simulation locale).
  \<^item> \<open>LeaderTracker\<close>: \<open>gateway/internal/leader/tracker.go\<close>, in the state monad over a network that is a parameter.
  \<^item> \<open>Hub\<close>: \<open>gateway/internal/gateway/hub.go\<close>; \<open>Gateway\<close>: the handlers, \<open>handler.go\<close>, the routes of \<open>server.go\<close> and
    \<open>gateway/cmd/main.go\<close>; \<open>GatewayRun\<close>: the gateway's goroutines interleaved, with Go's panics on closed channels.
  \<^item> \<open>GatewayServer\<close>: \<open>server.go\<close>, the status recorder and the request log, with \<open>http.ResponseWriter\<close> as an interface (a locale) of which the recorder and
    \<open>net/http\<close>'s writer are two implementations. \<open>GatewayTime\<close>: time limits of calls and the loop of \<open>Tracker.Start\<close>; \<open>Connection\<close>: the keep-alive
    of a client's connection, deadlines and pings, with the WebSocket library as a parameter.
  \<^item> \<open>ProcessLife\<close>: both programs from \<open>main\<close> to the exit of the process: signals, \<open>Start\<close> and \<open>Shutdown\<close> of the servers, panics.
  \<^item> \<open>EndToEnd\<close>: the gateway attached to the cluster.
  \<^item> this theory: the properties of the cluster as a whole.

  \<^bold>\<open>What is shown\<close>

  \<^item> Raft's safety properties for this implementation: one leader per term, log matching, leader completeness, state machine
    safety, leaders append only, committed entries never change. They hold although a replica may vote twice in a term (the
    code clears its vote when it hears from the term's leader), which is shown too, for every reachable cluster with such a candidate.
  \<^item> No message ever sent makes a replica panic; indices stay in range; terms do not wrap around in fewer than \<open>2 ^ 63\<close> events;
    notifications to the gateway are committed entries, in order, without contradiction, and at most one of them ahead of \<open>lastApplied\<close>.
  \<^item> A single replica keeps its state well-formed, every number of it in 64 bits, and its committed entries unchanged whatever it is sent, by peers that do
    not run this code included.
  \<^item> A lagging follower is brought up to date in a bounded number of rounds. A replica that hears nothing stands for election within
    800 ms; one that hears from its leader does not for 500 ms.
  \<^item> Each operation on every branch: the log's append and merge against a reference merge, the vote handler, elections, commit
    advancement, the applier, the HTTP endpoints, calls over HTTP as plain calls.
  \<^item> The gateway finds the leader if there is one, fails over to it, gets an accepted stroke into a leader's log and changes nothing else at the
    replicas, gives every connected client each broadcast message once and in order, broadcasts committed strokes only, and never closes a channel
    twice. It may submit a stroke twice, its replay sends a prefix of the committed board that is cut short when the client's queue is full, and
    it can be brought down by a client that leaves during its replay.
  \<^item> In time: a forward and a poll are bounded, the tracker polls every two seconds, a client is dropped only 60 seconds after the last pong that was handled (but then
    also when the read pump was too busy to read the pong). The processes exit for the reasons they should, but do not wait for requests in
    flight; and the applier can block for ever on its channel.

  \<^bold>\<open>Choices and bounds\<close>

  A Go \<open>int\<close> is an \<open>int\<close>; where a value from the wire is incremented the wrap-around is written out, and theorems on runs bound the
  number of events by the largest \<open>int\<close>, so that no counter wraps. \<open>float64\<close> values are bit patterns. The goroutines of a
  replica are interleaved at the granularity of locked sections, channel operations and RPC calls; those of the gateway at that of channel operations, except
  that a forward, a poll and the fetch of the history are one action each with all the calls they make, and so is a case of the hub's loop. The rounds of catching up are bounded by
  the leader's \<open>nextIndex\<close> for the follower, which is proved to be enough. The network, the WebSocket library, the clock and the random source are parameters or arbitrary choices of events.
  A log holds at most \<open>2 ^ 63 - 1\<close> entries where a single replica meets arbitrary input, as a Go slice does; everywhere else the number of events bounds it.

  \<^bold>\<open>Not modelled\<close>

  The browser client (\<open>frontend\<close>, JavaScript); containers and scripts; loggers and durations in the request log, response headers; \<open>net/http\<close>, \<open>os/signal\<close>
  and the WebSocket library below their documented behaviour (what is relied on of the latter are named hypotheses), with the servers' own time limits for reading and writing; TCP; JSON text below its tree. A
  replica keeps no state on disk: a crash is a replica that takes no more steps, and a restart with empty state, after which Raft's guarantees
  are lost, is outside the model.
\<close>

section \<open>One leader per term\<close>

text \<open>
  C1. Election safety. In every run of a correctly configured cluster, over a network that may lose,
  delay, repeat and reorder messages, at most one replica is ever leader of a term: if \<open>a\<close> is leader
  in some reachable state and \<open>b\<close> is leader of the same term then or at any later time, they are the same
  replica. The bound on the number of events keeps the 64 bit term counter from wrapping around.
\<close>

theorem election_safety:
  assumes "deployment_ok d" and "reachable d k s" and "later s n s'" and "k + n \<le> nat max_int"
    and "nstate (nodes s a) = Leader" and "nstate (nodes s' b) = Leader"
    and "currentTerm (nodes s a) = currentTerm (nodes s' b)"
  shows "a = b"
proof -
  obtain h h' where h: "invs d k s h" and h': "invs d (k + n) s' h'"
    and l: "\<And>t x. h_lead h t = Some x \<Longrightarrow> h_lead h' t = Some x"
    by (rule run_invs [OF assms(1-4)]) blast
  from leader_inv_role [OF vinvD(6) [OF invsD(1) [OF h(1)]] assms(5)]
    leader_inv_role [OF vinvD(6) [OF invsD(1) [OF h']] assms(6)] l assms(7)
  show ?thesis by fastforce
qed

theorem election_safety_witness:
  "reachable trio (length electionRun) (after electionRun) \<and>
   nstate (nodes (after electionRun) ''r1:9001'') = Leader \<and> ''r1:9001'' = ''r1:9001''"
proof -
  have "nstate (nodes (after electionRun) ''r1:9001'') = Leader" by code_simp
  then show ?thesis
    using election_safety [OF trio_ok electionRun_reachable later_refl, of "''r1:9001''" "''r1:9001''"]
      electionRun_reachable runs_short(1)
    by simp
qed

section \<open>Committed entries\<close>

text \<open>
  C2. State machine safety. If a replica \<open>a\<close> has committed position \<open>i\<close> of its log, and a replica \<open>b\<close> has
  committed position \<open>i\<close> then or at any later time, both hold an entry there, and the same one.
\<close>

theorem state_machine_safety:
  assumes "deployment_ok d" and "reachable d k s" and "later s n s'" and "k + n \<le> nat max_int"
    and "0 \<le> i" and "i \<le> commitIndex (nodes s a)" and "i \<le> commitIndex (nodes s' b)"
  shows "\<exists>e. GetEntry (nlog (nodes s a)) i = (e, True) \<and> GetEntry (nlog (nodes s' b)) i = (e, True)"
proof -
  obtain h h' where I: "invs d k s h" "cinv s h" "invs d (k + n) s' h'" "cinv s' h'" "progress s h s' h'"
    by (rule run_invs [OF assms(1-4)]) blast
  note A = node_agreed_later [OF I(1,2,5), of a] and B = node_agreed_later [OF I(3,4) progress_refl, of b]
  have i: "nat i \<le> nat (commitIndex (nodes s a))" "nat i \<le> nat (commitIndex (nodes s' b))"
    using assms(6,7) by (simp_all add: nat_mono)
  from take_Suc_eq_nth [OF agreed_agree [OF I(3) A(1) B(1) A(2) B(2) i]] A(3) B(3) i assms(5)
  show ?thesis by (auto simp: GetEntry_def)
qed

theorem state_machine_safety_witness:
  "\<exists>e. GetEntry (nlog (nodes (after commitRun) ''r1:9001'')) 1 = (e, True) \<and>
       GetEntry (nlog (nodes (after commitRun) ''r2:9001'')) 1 = (e, True)"
  by (rule state_machine_safety [OF trio_ok commitRun_reachable later_refl])
    (use runs_short(2) in \<open>simp_all add: commitRun_state\<close>)

text \<open>
  C3. Leader completeness. What a replica \<open>v\<close> has committed is in the log of every replica that is leader,
  then or at any later time, of the term \<open>v\<close> had or of a higher one, at the same position.
\<close>

theorem leader_completeness:
  assumes "deployment_ok d" and "reachable d k s" and "later s n s'" and "k + n \<le> nat max_int"
    and "nstate (nodes s' l) = Leader" and "currentTerm (nodes s v) \<le> currentTerm (nodes s' l)"
    and "0 \<le> i" and "i \<le> commitIndex (nodes s v)"
  shows "\<exists>e. GetEntry (nlog (nodes s v)) i = (e, True) \<and> GetEntry (nlog (nodes s' l)) i = (e, True)"
proof -
  obtain h h' where I: "invs d k s h" "cinv s h" "invs d (k + n) s' h'" "cinv s' h'" "progress s h s' h'"
    by (rule run_invs [OF assms(1-4)]) blast
  note A = node_agreed_later [OF I(1,2,5), of v]
  obtain Q where "h_lead h' (currentTerm (nodes s' l)) = Some (l, Q)"
    using leader_inv_role [OF vinvD(6) [OF invsD(1) [OF I(3)]] assms(5)] by blast
  then have "h_lead h' (currentTerm (nodes s' l)) \<noteq> None" by simp
  note G = agreed_leader [OF I(3) A(1,2) this assms(6)]
  have T: "h_tlog h' (currentTerm (nodes s' l)) = entries (nlog (nodes s' l))"
    by (rule node_logsD(2) [OF linvD(3) [OF invsD(2) [OF I(3)]] assms(5)])
  have i: "nat i \<le> nat (commitIndex (nodes s v))" using assms(8) by (simp add: nat_mono)
  from take_eq_nth [OF G(1), of "nat i"] G(2) A(3) i assms(7) T show ?thesis by (auto simp: GetEntry_def)
qed

theorem leader_completeness_witness:
  "\<exists>e. GetEntry (nlog (nodes (after commitRun) ''r2:9001'')) 1 = (e, True) \<and>
       GetEntry (nlog (nodes (after commitRun) ''r1:9001'')) 1 = (e, True)"
  by (rule leader_completeness [OF trio_ok commitRun_reachable later_refl])
    (use runs_short(2) in \<open>simp_all add: commitRun_state\<close>)

text \<open>
  Committed entries stay. A replica's commit index never decreases, and the part of its log
  up to the commit index never changes again: no event ever truncates or overwrites it.
\<close>

lemma committed_prefix_stable:
  assumes "deployment_ok d" and "reachable d k s" and "later s n s'" and "k + n \<le> nat max_int"
  shows "commitIndex (nodes s a) \<le> commitIndex (nodes s' a) \<and>
         take (Suc (nat (commitIndex (nodes s a)))) (entries (nlog (nodes s' a))) =
         take (Suc (nat (commitIndex (nodes s a)))) (entries (nlog (nodes s a)))"
proof -
  obtain h h' where I: "invs d k s h" "cinv s h" "invs d (k + n) s' h'" "cinv s' h'" "progress s h s' h'"
    by (rule run_invs [OF assms(1-4)]) blast
  have mono: "commitIndex (nodes s a) \<le> commitIndex (nodes s' a)"
    by (rule commit_mono_later [OF assms(3) I(1,2) assms(4)])
  note A = node_agreed_later [OF I(1,2,5), of a] and B = node_agreed_later [OF I(3,4) progress_refl, of a]
  from agreed_agree [OF I(3) A(1) B(1) A(2) B(2) order_refl nat_mono [OF mono]] mono show ?thesis by simp
qed

section \<open>Logs\<close>

text \<open>
  C8. Log matching. If the logs of two replicas have entries of the same term at the same position,
  the logs are identical up to that position.
\<close>

theorem log_matching:
  assumes "deployment_ok d" and "reachable d k s" and "k \<le> nat max_int"
    and "i < length (entries (nlog (nodes s a)))" and "i < length (entries (nlog (nodes s b)))"
    and "Term (nlog (nodes s a)) (int i) = Term (nlog (nodes s b)) (int i)"
  shows "take (Suc i) (entries (nlog (nodes s a))) = take (Suc i) (entries (nlog (nodes s b)))"
proof -
  obtain h where l: "linv s h" using reachable_invs [OF assms(2,1,3)] invsD(2) by blast
  note N = storedD(4) [OF node_logsD(1) [OF linvD(3) [OF l]]]
  from assms(4-6) have "le_Term (entries (nlog (nodes s a)) ! i) = le_Term (entries (nlog (nodes s b)) ! i)"
    by (simp add: Term_def)
  from matchingD [OF chained_matching [OF N N] assms(4,5) this] show ?thesis .
qed

theorem log_matching_witness:
  "take (Suc 1) (entries (nlog (nodes (after commitRun) ''r1:9001''))) =
   take (Suc 1) (entries (nlog (nodes (after commitRun) ''r2:9001'')))"
  by (rule log_matching [OF trio_ok commitRun_reachable runs_short(2)])
    (simp_all add: commitRun_state Term_def)

text \<open>
  C10. Leaders only append. As long as a replica is leader of one term, its log only grows at the end.
\<close>

theorem leader_append_only:
  assumes "deployment_ok d" and "reachable d k s" and "later s n s'" and "k + n \<le> nat max_int"
    and "nstate (nodes s a) = Leader" and "nstate (nodes s' a) = Leader"
    and "currentTerm (nodes s' a) = currentTerm (nodes s a)"
  shows "\<exists>es. entries (nlog (nodes s' a)) = entries (nlog (nodes s a)) @ es"
proof -
  obtain h h' where I: "invs d k s h" "invs d (k + n) s' h'" "progress s h s' h'"
    by (rule run_invs [OF assms(1-4)]) blast
  have "h_tlog h (currentTerm (nodes s a)) = entries (nlog (nodes s a))"
    "h_tlog h' (currentTerm (nodes s' a)) = entries (nlog (nodes s' a))"
    using node_logsD(2) [OF linvD(3) [OF invsD(2)]] I(1,2) assms(5,6) by blast+
  then show ?thesis using extendsD [OF progressD(3) [OF I(3)], of "currentTerm (nodes s a)"] assms(7) by simp
qed

theorem leader_append_only_witness:
  "\<exists>es. entries (nlog (nodes (after commitRun) ''r1:9001'')) =
        entries (nlog (nodes (after electionRun) ''r1:9001'')) @ es"
proof (rule leader_append_only [OF trio_ok electionRun_reachable commitRun_after_election])
  show "length electionRun + length commitSteps \<le> nat max_int"
    by (simp add: electionRun_def commitSteps_def max_int_def)
  show "nstate (nodes (after electionRun) ''r1:9001'') = Leader"
    "nstate (nodes (after commitRun) ''r1:9001'') = Leader"
    "currentTerm (nodes (after commitRun) ''r1:9001'') = currentTerm (nodes (after electionRun) ''r1:9001'')"
    by code_simp+
qed

text \<open>
  C9. The panic of \<open>Log.AppendEntries\<close> ("attempted to truncate committed entry") and an index out of
  range are unreachable: every request that was ever sent is answered by every replica it reaches,
  in whatever state that replica is.
\<close>

theorem append_entries_never_panics:
  assumes "deployment_ok d" and "reachable d k s" and "k \<le> nat max_int" and "(a, v, req) \<in> appendReqs s"
  shows "\<exists>resp. snd (HandleAppendEntries (nodes s v) req) = Inr resp"
proof -
  obtain h where "invs d k s h" "cinv s h" using reachable_invs [OF assms(2,1,3)] by blast
  from RecvAppend_no_panic [OF this(2,1) assms(4)] show ?thesis .
qed

theorem append_entries_never_panics_witness:
  "\<exists>resp. snd (HandleAppendEntries (nodes (after commitRun) ''r2:9001'') (demoAppend 0 0 [demoEntry] 0)) = Inr resp"
  by (rule append_entries_never_panics [OF trio_ok commitRun_reachable runs_short(2), of "''r1:9001''"]) code_simp

section \<open>What reaches the gateway\<close>

text \<open>
  Notifications agree. Whichever replicas posted them, and whenever, two commit notifications with the same index
  carry the same stroke and the same term: a gateway never hears of two different strokes for one
  position of the log.
\<close>

lemma notifications_agree:
  assumes "deployment_ok d" and "reachable d k s" and "k \<le> nat max_int"
    and "(a, cn) \<in> set (notified s)" and "(b, cn') \<in> set (notified s)" and "cn_Index cn = cn_Index cn'"
  shows "cn = cn'"
proof -
  obtain h where I: "invs d k s h" "cinv s h" using reachable_invs [OF assms(2,1,3)] by blast
  have "ledger s h (nat (cn_Index cn)) (notice_entry cn)" "ledger s h (nat (cn_Index cn')) (notice_entry cn')"
    using cinvD(3) [OF I(2)] assms(4,5) unfolding notices_commit_def by blast+
  then have "notice_entry cn = notice_entry cn'" using ledger_unique [OF I(1)] assms(6) by metis
  then show ?thesis by (simp add: notice_entry_def)
qed

text \<open>
  C33. Notifications are committed and in order. Every posted index is positive, at most the poster's commit index, and at most one beyond its
  \<open>lastApplied\<close> (the notifier may post an entry before the applier has recorded it); the entry is the one the poster's log holds there; and each replica posts its notifications
  in strictly increasing order of the index, so none twice.
\<close>

theorem notifications_in_order:
  assumes "deployment_ok d" and "reachable d k s" and "k \<le> nat max_int"
  shows "(\<forall>cn. (a, cn) \<in> set (notified s) \<longrightarrow>
            0 < cn_Index cn \<and> cn_Index cn \<le> commitIndex (nodes s a) \<and> cn_Index cn \<le> lastApplied (nodes s a) + 1 \<and>
            GetEntry (nlog (nodes s a)) (cn_Index cn) =
              (\<lparr>le_Index = cn_Index cn, le_Term = cn_Term cn, le_Stroke = cn_Stroke cn\<rparr>, True)) \<and>
         sorted_wrt (<) (map (\<lambda>(_, cn). cn_Index cn) (filter (\<lambda>(b, _). b = a) (notified s)))"
proof -
  obtain h where I: "invs d k s h" "cinv s h" using reachable_invs [OF assms(2,1,3)] by blast
  have "sorted_wrt (<) (notices_by a (notified s))"
    using cinvD(3) [OF I(2)] unfolding notices_commit_def by blast
  then show ?thesis using notice_in_log [OF I] by (simp add: notice_entry_def notices_by_def)
qed

theorem notifications_in_order_witness:
  "GetEntry (nlog (nodes (after commitRun) ''r1:9001'')) 1 = (demoEntry, True)"
  using notifications_in_order [OF trio_ok commitRun_reachable runs_short(2), of "''r1:9001''"]
  by (simp add: commitRun_state demoEntry_def)

text \<open>
  Indices stay in range. In every reachable cluster \<open>lastApplied\<close> is at most the commit index and the commit
  index lies within the log; the commit channel holds the entries that end at \<open>lastApplied\<close> or one beyond it, in log order.
\<close>

lemma applied_within_log:
  assumes "deployment_ok d" and "reachable d k s" and "k \<le> nat max_int"
  shows "log_ok (nlog (nodes s a)) \<and>
         0 \<le> lastApplied (nodes s a) \<and> lastApplied (nodes s a) \<le> commitIndex (nodes s a) \<and>
         commitIndex (nodes s a) \<le> LastIndex (nlog (nodes s a)) \<and>
         (\<exists>j k. lastApplied (nodes s a) \<le> k \<and> k \<le> lastApplied (nodes s a) + 1 \<and>
            commitCh (nodes s a) = drop j (take (nat k + 1) (entries (nlog (nodes s a)))))"
proof -
  obtain h where I: "invs d k s h" "cinv s h" using reachable_invs [OF assms(2,1,3)] by blast
  note N = node_commitD [OF cinvD(1) [OF I(2), of a]]
  note channel_ok_drop [OF N(3)] last_queued_bounds(1,3) [OF N(5,2)]
  moreover have "log_ok (nlog (nodes s a))"
    by (rule stored_log_ok [OF node_logsD(1) [OF linvD(3) [OF invsD(2) [OF I(1)]]]])
  moreover have "nat (commitIndex (nodes s a)) < length (entries (nlog (nodes s a)))" using N(4) by (simp add: agreed_def)
  then have "commitIndex (nodes s a) \<le> LastIndex (nlog (nodes s a))" unfolding LastIndex_def by linarith
  ultimately show ?thesis using N(1,2) by blast
qed

section \<open>Votes, terms and steps\<close>

text \<open>
  C40. Two votes in one term. The documentation says that a replica votes once per term; the code allows a second vote. In any reachable cluster, take a
  candidate \<open>v\<close>, which has voted for itself in its term. If a request of the leader of that term and a vote request of another candidate
  of that term are on their way to it, then delivering the two in this order makes \<open>v\<close> grant a second vote in the same term, to the other candidate,
  provided that one's log is up to date: accepting the leader has cleared the first vote.
\<close>

theorem replica_votes_twice:
  assumes "deployment_ok d" and "reachable d k s" and "k \<le> nat max_int" and "nstate (nodes s v) = Candidate"
    and "(a, v, req) \<in> appendReqs s" and "ar_Term req = currentTerm (nodes s v)"
    and "(c, v, vreq) \<in> voteReqs s" and "vr_Term vreq = currentTerm (nodes s v)"
    and "logUpToDate (nlog (fst (HandleAppendEntries (nodes s v) req))) vreq"
  shows "votedFor (nodes s v) = nid (nodes s v) \<and>
    (\<exists>s' resp. later s 2 s' \<and> (c, v, vreq, resp) \<in> voteAcks s' \<and> vp_VoteGranted resp \<and>
       currentTerm (nodes s' v) = currentTerm (nodes s v) \<and> votedFor (nodes s' v) = nid (nodes s' c) \<and>
       nid (nodes s' c) \<noteq> nid (nodes s v))"
proof -
  obtain h where h: "vinv d k s h" using reachable_invs [OF assms(2,1,3)] invsD(1) by blast
  note M = vote_msgs_invD(1-4) [OF vinvD(7) [OF h] assms(7)]
  have ids: "nid (nodes s c) \<noteq> nid (nodes s v)"
    using vinv_ids(2) [OF h M(3)] votes_invD(4) [OF vinvD(4) [OF h] M(4)] M(2) by metis
  have own: "votedFor (nodes s v) = nid (nodes s v)" using votes_invD(5) [OF vinvD(4) [OF h]] assms(4) by simp
  let ?n1 = "fst (HandleAppendEntries (nodes s v) req)"
  let ?v = "HandleVoteRequest ?n1 vreq"
  have g: "vp_VoteGranted (snd ?v)"
    using assms(4,6,8,9) by (simp add: HandleVoteRequest_granted_iff node_simps)
  obtain s1 where s1: "exec (RecvAppend a v req) s = Some s1" "nodes s1 = (nodes s)(v := ?n1)" "voteReqs s1 = voteReqs s"
    using assms(5) by (cases "HandleAppendEntries (nodes s v) req") simp
  obtain s2 where s2: "exec (RecvVote c v vreq) s1 = Some s2" "nodes s2 = (nodes s1)(v := fst ?v)" "(c, v, vreq, snd ?v) \<in> voteAcks s2"
    using assms(7) s1(2,3) by (cases ?v) simp
  have "later s 2 s2" using run_later [of "[RecvAppend a v req, RecvVote c v vreq]" s s2] s1(1) s2(1) by (simp add: numeral_2_eq_2)
  moreover have "currentTerm (nodes s2 v) = currentTerm (nodes s v)" "votedFor (nodes s2 v) = nid (nodes s2 c)" "nid (nodes s2 c) \<noteq> nid (nodes s v)"
    using assms(6,8) g M(1,2) ids by (simp_all add: s1(2) s2(2) node_simps)
  ultimately show ?thesis using own s2(3) g by blast
qed

theorem replica_votes_twice_witness:
  "reachable trio (length rivalRun) (after rivalRun) \<and> votedFor (nodes (after rivalRun) ''r3:9001'') = ''replica3'' \<and>
   currentTerm (nodes (after rivalRun) ''r3:9001'') = 1 \<and>
   (\<exists>s' resp. later (after rivalRun) 2 s' \<and> (''r1:9001'', ''r3:9001'', demoVote, resp) \<in> voteAcks s' \<and> vp_VoteGranted resp \<and>
      currentTerm (nodes s' ''r3:9001'') = 1)"
proof -
  have s: "nstate (nodes (after rivalRun) ''r3:9001'') = Candidate" "currentTerm (nodes (after rivalRun) ''r3:9001'') = 1"
    "votedFor (nodes (after rivalRun) ''r3:9001'') = ''replica3''"
    "(''r1:9001'', ''r3:9001'', demoAppend 0 0 [] 0) \<in> appendReqs (after rivalRun)"
    "ar_Term (demoAppend 0 0 [] 0) = currentTerm (nodes (after rivalRun) ''r3:9001'')"
    "(''r1:9001'', ''r3:9001'', demoVote) \<in> voteReqs (after rivalRun)"
    "vr_Term demoVote = currentTerm (nodes (after rivalRun) ''r3:9001'')"
    "logUpToDate (nlog (fst (HandleAppendEntries (nodes (after rivalRun) ''r3:9001'') (demoAppend 0 0 [] 0)))) demoVote"
    by code_simp+
  from replica_votes_twice [OF trio_ok rivalRun_reachable runs_short(3) s(1) s(4-8)] s(2,3) rivalRun_reachable show ?thesis by auto
qed

text \<open>
  C34. Terms. In every run of fewer than \<open>2 ^ 63\<close> events a replica's term never decreases, never wraps around
  and is at most the number of events so far.
\<close>

theorem terms_monotone:
  assumes "deployment_ok d" and "reachable d k s" and "later s n s'" and "k + n \<le> nat max_int"
  shows "0 \<le> currentTerm (nodes s a) \<and> currentTerm (nodes s a) \<le> currentTerm (nodes s' a) \<and>
         currentTerm (nodes s' a) \<le> int (k + n)"
proof -
  obtain h h' where I: "invs d k s h" "invs d (k + n) s' h'" "progress s h s' h'"
    by (rule run_invs [OF assms(1-4)]) blast
  from terms_boundedD(1) [OF vinvD(3) [OF invsD(1) [OF I(1)]]] progressD(2) [OF I(3)]
    terms_boundedD(2) [OF vinvD(3) [OF invsD(1) [OF I(2)]]]
  show ?thesis by blast
qed

theorem terms_monotone_witness:
  "0 \<le> currentTerm (nodes (after electionRun) ''r1:9001'') \<and>
   currentTerm (nodes (after electionRun) ''r1:9001'') \<le> currentTerm (nodes (after commitRun) ''r1:9001'')"
  using terms_monotone [OF trio_ok electionRun_reachable commitRun_after_election, of "''r1:9001''"]
  by (simp add: electionRun_def commitSteps_def max_int_def)

text \<open>
  C23. Any leader can bring any replica of its cluster up to date. In a reachable cluster, for a leader \<open>l\<close> and a peer \<open>p\<close>
  that is not ahead in its term, finitely many undisturbed rounds of \<open>sendAppendEntries\<close>, no more than the
  leader's \<open>nextIndex\<close> for \<open>p\<close>, make the peer's log start with the leader's log.
\<close>

theorem cluster_catch_up:
  assumes "deployment_ok d" and "reachable d k s" and "k \<le> nat max_int"
    and "nstate (nodes s l) = Leader" and "p \<in> set (peers (nodes s l))"
    and "currentTerm (nodes s p) \<le> currentTerm (nodes s l)"
  shows "\<exists>m l' f'. m \<le> nat (map_get (nextIndex (nodes s l)) p) \<and>
           (replicate_round p ^^ m) (nodes s l, nodes s p) = (l', f') \<and> nlog l' = nlog (nodes s l) \<and>
           take (length (entries (nlog (nodes s l)))) (entries (nlog f')) = entries (nlog (nodes s l))"
proof -
  obtain h where I: "invs d k s h" "cinv s h" using reachable_invs [OF assms(2,1,3)] by blast
  note L = linvD [OF invsD(2) [OF I(1)]]
  note S = node_logsD(1) [OF L(3), of l] node_logsD(1) [OF L(3), of p]
  note A = node_agreed_later [OF I progress_refl, of p]
  obtain Q where "h_lead h (currentTerm (nodes s l)) = Some (l, Q)"
    using leader_inv_role [OF vinvD(6) [OF invsD(1) [OF I(1)]] assms(4)] by blast
  then have "h_lead h (currentTerm (nodes s l)) \<noteq> None" by simp
  from agreed_leader(1) [OF I(1) A(1,2) this assms(6)] node_logsD(2) [OF L(3) assms(4)]
  have "can_follow (nodes s l) (nodes s p)"
    using assms(4,6) stored_log_ok [OF S(1)] stored_log_ok [OF S(2)]
      chained_matching [OF storedD(4) [OF S(2)] storedD(4) [OF S(1)]]
    by (simp add: can_follow_def)
  moreover obtain i where "nextIndex (nodes s l) p = Some i" "1 \<le> i" "i \<le> int (length (entries (nlog (nodes s l))))"
    using node_logsD(3) [OF L(3) assms(4)] assms(5) unfolding next_ok_def by blast
  ultimately show ?thesis using catch_up_bounded by (simp add: map_get_def)
qed

theorem cluster_catch_up_witness:
  "\<exists>m l' f'. m \<le> nat (map_get (nextIndex (nodes (after commitRun) ''r1:9001'')) ''r3:9001'') \<and>
     (replicate_round ''r3:9001'' ^^ m) (nodes (after commitRun) ''r1:9001'', nodes (after commitRun) ''r3:9001'') = (l', f') \<and>
     nlog l' = nlog (nodes (after commitRun) ''r1:9001'') \<and>
     take (length (entries (nlog (nodes (after commitRun) ''r1:9001'')))) (entries (nlog f')) =
       entries (nlog (nodes (after commitRun) ''r1:9001''))"
  by (rule cluster_catch_up [OF trio_ok commitRun_reachable runs_short(2)]) code_simp+

end
